(* ===== verification/Prelude.thy ===== *)
theory Prelude
  imports Main "HOL-Library.Multiset"
begin

text \<open>
  Shared vocabulary of the development: the faults a step of the program can end in, the
  three-way outcome of an atomic step (blocked, faulting, or the next state), runs of a
  machine over a list of scheduled events, reachable states, and the locales every machine
  of the development is an instance of (an invariant, an invariant that excludes faults,
  and a measure that bounds the runs). The collections \<open>machine\<close> and \<open>pc_simps\<close> gather
  the facts the component proofs share.
\<close>

named_theorems machine \<open>unfolding equations of the atomic steps\<close>
named_theorems pc_simps \<open>facts about program counters and their groups\<close>

section \<open>Faults and outcomes\<close>

text \<open>
  What may go wrong in a step: a failed \<^verbatim>\<open>assert\<close> (named by the function it stands in),
  a null pointer or a pointer to a destroyed object being used, an empty container being
  popped, a division by zero, a function with a result that ends without one, or the program
  being terminated by \<^verbatim>\<open>std::terminate\<close>. In the C++ code all of them but the
  first and the last are undefined
  behaviour, and so is going on after the first in a build with \<^verbatim>\<open>NDEBUG\<close>.
\<close>

datatype fault =
    AssertFailed string
  | NullDeref
  | UseAfterFree
  | PopEmpty
  | DivByZero
  | MissingReturn
  | Terminated

text \<open>
  Exceptions are values: those thrown by user code are tagged with a number, the others are
  the ones the library and the code it calls throw.
\<close>

datatype exception =
    UserException nat
  | RuntimeError string
  | SystemError nat string
  | BadGet

text \<open>One atomic step: not enabled here, undefined behaviour, or the next state.\<close>

datatype 's outcome = Blocked | Fault fault | Next 's

fun bind_outcome :: "'a outcome \<Rightarrow> ('a \<Rightarrow> 'b outcome) \<Rightarrow> 'b outcome" where
  "bind_outcome Blocked g = Blocked"
| "bind_outcome (Fault f) g = Fault f"
| "bind_outcome (Next s) g = g s"

lemma bind_outcome_Next [simp]:
  "bind_outcome r g = Next t \<longleftrightarrow> (\<exists>s. r = Next s \<and> g s = Next t)"
  by (cases r) auto

lemma bind_outcome_Fault [simp]:
  "bind_outcome r g = Fault f \<longleftrightarrow> r = Fault f \<or> (\<exists>s. r = Next s \<and> g s = Fault f)"
  by (cases r) auto

lemma bind_outcome_Blocked:
  "bind_outcome r g = Blocked \<longleftrightarrow> r = Blocked \<or> (\<exists>s. r = Next s \<and> g s = Blocked)"
  by (cases r) auto

text \<open>
  What a step leads to, without naming the next state: \<open>ensures P\<close> holds of an outcome whose
  state, if there is one, satisfies \<open>P\<close>; \<open>safely P\<close> also excludes a fault. Both push through
  conditionals, so that a component's invariant proof evaluates the step in the goal.
\<close>

fun ensures :: "('s \<Rightarrow> bool) \<Rightarrow> 's outcome \<Rightarrow> bool" where
  "ensures P Blocked = True"
| "ensures P (Fault f) = True"
| "ensures P (Next t) = P t"

fun safely :: "('s \<Rightarrow> bool) \<Rightarrow> 's outcome \<Rightarrow> bool" where
  "safely P Blocked = True"
| "safely P (Fault f) = False"
| "safely P (Next t) = P t"

lemma ensures_if [simp]:
  "ensures P (if b then x else y) = (if b then ensures P x else ensures P y)"
  by simp

lemma safely_if [simp]:
  "safely P (if b then x else y) = (if b then safely P x else safely P y)"
  by simp

lemma ensuresD: "ensures P r \<Longrightarrow> r = Next t \<Longrightarrow> P t"
  by simp

lemma safelyD: "safely P r \<Longrightarrow> ensures P r" "safely P r \<Longrightarrow> r \<noteq> Fault f"
  by (cases r; simp)+

section \<open>Machines, runs and reachable states\<close>

text \<open>
  A machine is a step function: an event (which thread moves, and how the choices that the
  scheduler or the hardware makes turn out) and a state give an outcome.
\<close>

type_synonym ('e, 's) machine = "'e \<Rightarrow> 's \<Rightarrow> 's outcome"

fun run :: "('e, 's) machine \<Rightarrow> 'e list \<Rightarrow> 's \<Rightarrow> 's outcome" where
  "run step [] s = Next s"
| "run step (e # es) s = bind_outcome (step e s) (run step es)"

lemma run_append:
  "run step (es @ fs) s = bind_outcome (run step es s) (run step fs)"
proof (induction es arbitrary: s)
  case Nil
  then show ?case by simp
next
  case (Cons e es)
  then show ?case by (cases "step e s") simp_all
qed

lemma run_snoc:
  "run step (es @ [e]) s = bind_outcome (run step es s) (step e)"
proof -
  have "run step [e] = step e"
  proof
    fix t show "run step [e] t = step e t" by (cases "step e t") simp_all
  qed
  then show ?thesis by (simp add: run_append)
qed

inductive reach :: "('e, 's) machine \<Rightarrow> 's \<Rightarrow> 's \<Rightarrow> bool"
  for step :: "('e, 's) machine" and s0 :: 's where
  start [intro]: "reach step s0 s0"
| move [intro]: "reach step s0 s \<Longrightarrow> step e s = Next t \<Longrightarrow> reach step s0 t"

lemma reach_trans: "reach step s0 s \<Longrightarrow> reach step s t \<Longrightarrow> reach step s0 t"
  by (rotate_tac, induction rule: reach.induct) auto

lemma run_reach: "run step es s = Next t \<Longrightarrow> reach step s t"
proof (induction es arbitrary: s)
  case Nil
  then show ?case by auto
next
  case (Cons e es)
  then obtain u where "step e s = Next u" and "reach step u t" by auto
  then show ?case by (blast intro: reach_trans)
qed

lemma reach_run: "reach step s t \<Longrightarrow> \<exists>es. run step es s = Next t"
proof (induction rule: reach.induct)
  case start
  have "run step [] s = Next s" by simp
  then show ?case by blast
next
  case (move u e t)
  then obtain es where "run step es s = Next u" by blast
  with move.hyps(2) have "run step (es @ [e]) s = Next t" by (simp add: run_snoc)
  then show ?case by blast
qed

lemma reach_iff_run: "reach step s t \<longleftrightarrow> (\<exists>es. run step es s = Next t)"
  by (auto intro: run_reach dest: reach_run)

text \<open>What a run shows of itself: the observations of its steps, in order.\<close>

fun observe :: "('e \<Rightarrow> 's \<Rightarrow> 'o list) \<Rightarrow> ('e, 's) machine \<Rightarrow> 'e list \<Rightarrow> 's \<Rightarrow> 'o list" where
  "observe obs step [] s = []"
| "observe obs step (e # es) s =
     obs e s @ (case step e s of Next t \<Rightarrow> observe obs step es t | _ \<Rightarrow> [])"

text \<open>
  A container whose contents, with what went in and what came out, balance at every step
  balances over every run: as lists for a queue.
\<close>

lemma observe_fifo_inv:
  assumes "\<And>e s t. I s \<Longrightarrow> step e s = Next t \<Longrightarrow> I t \<and> q s @ ins e s = outs e s @ q t"
    and "I s" "run step es s = Next t"
  shows "q s @ observe ins step es s = observe outs step es s @ q t"
  using assms(2,3)
proof (induction es arbitrary: s)
  case Nil
  then show ?case by simp
next
  case (Cons e es)
  then obtain u where u: "step e s = Next u" and r: "run step es u = Next t" by auto
  have st: "I u" "q s @ ins e s = outs e s @ q u" using assms(1) [OF Cons.prems(1) u] by blast+
  have "q s @ observe ins step (e # es) s = (q s @ ins e s) @ observe ins step es u"
    by (simp add: u)
  also have "\<dots> = outs e s @ (q u @ observe ins step es u)"
    by (simp only: st(2) append.assoc)
  also have "\<dots> = outs e s @ observe outs step es u @ q t"
    by (simp only: Cons.IH [OF st(1) r])
  finally show ?case by (simp add: u)
qed

lemma observe_fifo:
  assumes "\<And>e s t. step e s = Next t \<Longrightarrow> q s @ ins e s = outs e s @ q t"
    and "run step es s = Next t"
  shows "q s @ observe ins step es s = observe outs step es s @ q t"
  by (rule observe_fifo_inv [where I = "\<lambda>s. True"]) (use assms in auto)

text \<open>
  The machine that keeps the observations of its run beside its state, so that an invariant
  can relate the two, and its runs: those of the machine itself, with what they show.
\<close>

definition logged :: "('e \<Rightarrow> 's \<Rightarrow> 'o list) \<Rightarrow> ('e, 's) machine \<Rightarrow> ('e, 's \<times> 'o list) machine" where
  "logged obs step e sh = bind_outcome (step e (fst sh)) (\<lambda>t. Next (t, snd sh @ obs e (fst sh)))"

lemma logged_run:
  "run step es s = Next t \<Longrightarrow> run (logged obs step) es (s, h) = Next (t, h @ observe obs step es s)"
  by (induction es arbitrary: s h) (auto simp: logged_def)

lemma logged_run_back:
  "run (logged obs step) es (s, h) = Next th \<Longrightarrow>
    \<exists>t. run step es s = Next t \<and> th = (t, h @ observe obs step es s)"
proof (induction es arbitrary: s h)
  case Nil
  then show ?case by simp
next
  case (Cons e es)
  from Cons.prems obtain u where u: "step e s = Next u" "run (logged obs step) es (u, h @ obs e s) = Next th"
    by (cases "step e s") (simp_all add: logged_def [where e = e])
  from Cons.IH [OF u(2)] u(1) show ?case by auto
qed

lemma observe_append:
  "run step es s = Next t \<Longrightarrow> observe obs step (es @ fs) s = observe obs step es s @ observe obs step fs t"
proof (induction es arbitrary: s)
  case Nil
  then show ?case by simp
next
  case (Cons e es)
  then obtain u where "step e s = Next u" "run step es u = Next t" by auto
  with Cons.IH show ?case by simp
qed

lemma ensures_bind:
  "ensures (\<lambda>t. ensures P (g t)) r \<Longrightarrow> ensures P (bind_outcome r g)"
  by (cases r) simp_all

lemma run_keeps:
  "(\<And>e s. I s \<Longrightarrow> safely I (step e s)) \<Longrightarrow> I s \<Longrightarrow> run step es s = Next t \<Longrightarrow> I t"
proof (induction es arbitrary: s)
  case Nil
  then show ?case by simp
next
  case (Cons e es)
  from Cons.prems(3) obtain u where u: "step e s = Next u" "run step es u = Next t" by auto
  with Cons.prems(1) [OF Cons.prems(2), of e] have "I u" by simp
  with Cons.IH [OF Cons.prems(1)] u(2) show ?case by blast
qed

section \<open>The locales of a machine\<close>

text \<open>An invariant: it holds at the start and every step keeps it.\<close>

locale invariant =
  fixes step :: "('e, 's) machine"
    and s0 :: 's
    and I :: "'s \<Rightarrow> bool"
  assumes init: "I s0"
    and preserve: "I s \<Longrightarrow> ensures I (step e s)"
begin

lemma keep: "I s \<Longrightarrow> step e s = Next t \<Longrightarrow> I t"
  using ensuresD [OF preserve] by blast

lemma reachable: "reach step s0 s \<Longrightarrow> I s"
  by (induction rule: reach.induct) (auto intro: init keep)

lemma along_run: "I s \<Longrightarrow> run step es s = Next t \<Longrightarrow> I t"
  by (induction es arbitrary: s) (auto intro: keep)

end

text \<open>An invariant under which no step can fault.\<close>

locale safe_invariant = invariant +
  assumes safe: "I s \<Longrightarrow> safely I (step e s)"
begin

lemma no_fault: "reach step s0 s \<Longrightarrow> step e s \<noteq> Fault f"
  using safelyD(2) [OF safe] reachable by blast

lemma run_no_fault: "I s \<Longrightarrow> run step es s \<noteq> Fault f"
  by (induction es arbitrary: s) (auto dest: safelyD(2) [OF safe] keep)

end

text \<open>
  A machine whose invariant gives progress until a final state and whose steps decrease a
  measure: every run is bounded and, from every reachable state, a final state is reached.
\<close>

locale terminating = invariant +
  fixes final :: "'s \<Rightarrow> bool"
    and size_of :: "'s \<Rightarrow> nat"
  assumes progress: "I s \<Longrightarrow> \<not> final s \<Longrightarrow> \<exists>e t. step e s = Next t"
    and decrease: "I s \<Longrightarrow> step e s = Next t \<Longrightarrow> size_of t < size_of s"
begin

lemma bounded: "I s \<Longrightarrow> run step es s = Next t \<Longrightarrow> length es + size_of t \<le> size_of s"
proof (induction es arbitrary: s)
  case Nil
  then show ?case by simp
next
  case (Cons e es)
  then obtain u where u: "step e s = Next u" and r: "run step es u = Next t" by auto
  from u Cons.prems(1) have "I u" and "size_of u < size_of s" by (auto intro: keep decrease)
  with Cons.IH [OF _ r] show ?case by simp
qed

lemma completes: "I s \<Longrightarrow> \<exists>es t. run step es s = Next t \<and> final t"
proof (induction "size_of s" arbitrary: s rule: less_induct)
  case less
  show ?case
  proof (cases "final s")
    case True
    have "run step [] s = Next s" by simp
    with True show ?thesis by blast
  next
    case False
    with less.prems obtain e u where u: "step e s = Next u" using progress by blast
    with less.prems have "I u" "size_of u < size_of s" by (auto intro: keep decrease)
    with less.hyps obtain es t where "run step es u = Next t" "final t" by blast
    with u have "run step (e # es) s = Next t" by simp
    with \<open>final t\<close> show ?thesis by blast
  qed
qed

end

section \<open>Shared list and set facts\<close>

lemma card_remove_int:
  "finite A \<Longrightarrow> i \<in> A \<Longrightarrow> int (card (A - {i})) = int (card A) - 1"
  using card_Suc_Diff1 [of A i] by linarith

lemma card_insert_int:
  "finite A \<Longrightarrow> i \<notin> A \<Longrightarrow> int (card (insert i A)) = int (card A) + 1"
  by simp

lemma butlast_last_mset: "xs \<noteq> [] \<Longrightarrow> set xs = insert (last xs) (set (butlast xs))"
  by (induction xs) auto

lemma distinct_last_butlast: "distinct xs \<Longrightarrow> xs \<noteq> [] \<Longrightarrow> last xs \<notin> set (butlast xs)"
  by (induction xs) (auto dest: in_set_butlastD)

lemma distinct_subseteq_mset:
  "mset xs \<subseteq># mset ys \<Longrightarrow> distinct ys \<Longrightarrow> distinct xs"
proof (induction xs arbitrary: ys)
  case Nil
  then show ?case by simp
next
  case (Cons x xs)
  then have x: "x \<in> set ys" by (metis list.set_intros(1) mset_subset_eqD set_mset_mset)
  then obtain as bs where ys: "ys = as @ x # bs" using split_list by metis
  with Cons.prems have "mset xs \<subseteq># mset (as @ bs)" "distinct (as @ bs)" "x \<notin> set (as @ bs)" by auto
  with Cons.IH show ?case
    by (metis distinct.simps(2) mset_subset_eqD set_mset_mset)
qed

lemma map_of_const:
  "map_of (map (\<lambda>i. (i, v)) xs) k = (if k \<in> set xs then Some v else None)"
  by (induction xs) auto

end
