(* ===== verification/Future.thy ===== *)
theory Future
  imports Prelude
begin

text \<open>
  The shared state of a future, \<^verbatim>\<open>include/co/future.hpp\<close>: the value variant and
  \<^verbatim>\<open>ValueHandling\<close>, the atomic continuation pointer and the operations of
  \<^verbatim>\<open>LightFutureData\<close>, and the \<^verbatim>\<open>future\<close> / \<^verbatim>\<open>promise\<close> handles on a heap of
  such data. Each operation here is one call run to its end; \<open>FutureWait\<close> cuts
  \<^verbatim>\<open>wait()\<close>, \<^verbatim>\<open>wait_for()\<close> and \<^verbatim>\<open>set_value()\<close> into their atomic steps.
\<close>

section \<open>Values: ValueHandling\<close>

text \<open>
  \<^verbatim>\<open>boost::variant<Unset, T, std::exception_ptr>\<close>. The alternative for \<^verbatim>\<open>void\<close> is
  \<open>unit\<close> (\<^verbatim>\<open>StatelessT\<close>).
\<close>

datatype 'v variant = Unset | Placeholder 'v | ExceptionPtr exception

fun which :: "'v variant \<Rightarrow> nat" where
  "which Unset = 0"
| "which (Placeholder v) = 1"
| "which (ExceptionPtr e) = 2"

definition isSet :: "'v variant \<Rightarrow> bool" where
  "isSet val \<longleftrightarrow> which val \<noteq> 0"

definition isException :: "'v variant \<Rightarrow> bool" where
  "isException val \<longleftrightarrow> which val = 2"

text \<open>
  A callable is what it does when it is run: it throws (\<open>Inl\<close>) or returns (\<open>Inr\<close>).
  \<^verbatim>\<open>setByResult\<close> overwrites the variant in both cases.
\<close>

definition setByResult :: "'v variant \<Rightarrow> exception + 'v \<Rightarrow> 'v variant" where
  "setByResult val f = (case f of Inr r \<Rightarrow> Placeholder r | Inl e \<Rightarrow> ExceptionPtr e)"

text \<open>\<^verbatim>\<open>ValueHandling<T>::get\<close>: \<^verbatim>\<open>boost::get<T>\<close> throws when the variant holds no \<open>T\<close>.\<close>

definition getValue :: "'v variant \<Rightarrow> exception + 'v" where
  "getValue val =
     (if which val = 2 then (case val of ExceptionPtr e \<Rightarrow> Inl e | _ \<Rightarrow> Inl BadGet)
      else (case val of Placeholder v \<Rightarrow> Inr v | _ \<Rightarrow> Inl BadGet))"

text \<open>
  \<^verbatim>\<open>ValueHandling<void>::get\<close> and \<^verbatim>\<open>ValueHandling<StatelessT>::get\<close> only look for an
  exception: they return on an unset variant too.
\<close>

definition getStateless :: "unit variant \<Rightarrow> exception + unit" where
  "getStateless val =
     (if which val = 2 then (case val of ExceptionPtr e \<Rightarrow> Inl e | _ \<Rightarrow> Inl BadGet)
      else Inr ())"

lemma variant_simps [simp]:
  "\<not> isSet Unset" "isSet (Placeholder v)" "isSet (ExceptionPtr e)"
  "\<not> isException Unset" "\<not> isException (Placeholder v)" "isException (ExceptionPtr e)"
  "getValue Unset = Inl BadGet" "getValue (Placeholder v) = Inr v"
  "getValue (ExceptionPtr e) = Inl e"
  "getStateless Unset = Inr ()" "getStateless (Placeholder u) = Inr ()"
  "getStateless (ExceptionPtr e) = Inl e"
  "setByResult val (Inr r) = Placeholder r" "setByResult val (Inl e) = ExceptionPtr e"
  by (simp_all add: isSet_def isException_def getValue_def getStateless_def setByResult_def)

lemma isSet_cases: "isSet val \<longleftrightarrow> (\<exists>r. val = setByResult Unset r)"
proof (cases val)
  case Unset
  then show ?thesis by (auto simp: setByResult_def split: sum.splits)
next
  case (Placeholder v)
  have "val = setByResult Unset (Inr v)" using Placeholder by simp
  then show ?thesis using Placeholder by (metis variant_simps(2))
next
  case (ExceptionPtr e)
  have "val = setByResult Unset (Inl e)" using ExceptionPtr by simp
  then show ?thesis using ExceptionPtr by (metis variant_simps(3))
qed

lemma getValue_setByResult [simp]: "getValue (setByResult val r) = r"
  by (cases r) simp_all

lemma isSet_setByResult [simp]: "isSet (setByResult val r)"
  by (cases r) simp_all

section \<open>The continuation pointer\<close>

text \<open>
  \<^verbatim>\<open>continuationPtr\<close> is null, the invalid address \<^verbatim>\<open>0x1\<close> once the value is there, or a
  pointer to the task of the one waiter. The type parameter names tasks.
\<close>

datatype 'k handle = EmptyHandle | InvalidHandle | Handle 'k

text \<open>
  The life of a future moves up this order: empty, one waiter, ready. The instance lets
  the order facts of the library speak about it.
\<close>

instantiation handle :: (type) order
begin

definition less_eq_handle :: "'a handle \<Rightarrow> 'a handle \<Rightarrow> bool" where
  "less_eq_handle p q \<longleftrightarrow> p = q \<or> p = EmptyHandle \<or> q = InvalidHandle"

definition less_handle :: "'a handle \<Rightarrow> 'a handle \<Rightarrow> bool" where
  "less_handle p q \<longleftrightarrow> p \<le> q \<and> p \<noteq> q"

instance
  by standard (auto simp: less_eq_handle_def less_handle_def)

end

lemma Invalid_le [simp]: "InvalidHandle \<le> q \<longleftrightarrow> q = InvalidHandle"
  by (auto simp: less_eq_handle_def)

lemma le_Invalid [simp]: "p \<le> InvalidHandle"
  by (simp add: less_eq_handle_def)

lemma Empty_le [simp]: "EmptyHandle \<le> q"
  by (simp add: less_eq_handle_def)

text \<open>
  A pointer to the \<^verbatim>\<open>Data\<close> of a routine follows the same convention: null, the address
  \<^verbatim>\<open>0x1\<close>, or a routine.
\<close>

datatype 'c data_ptr = NullData | InvalidData | DataPtr 'c

section \<open>LightFutureData\<close>

record ('k, 'v) light_future =
  continuationPtr :: "'k handle"
  val :: "'v variant"

definition LightFutureData :: "('k, 'v) light_future" where
  "LightFutureData = \<lparr>continuationPtr = EmptyHandle, val = Unset\<rparr>"

definition LightFutureData_of :: "'v \<Rightarrow> ('k, 'v) light_future" where
  "LightFutureData_of t = \<lparr>continuationPtr = InvalidHandle, val = Placeholder t\<rparr>"

definition is_ready :: "('k, 'v) light_future \<Rightarrow> bool" where
  "is_ready f \<longleftrightarrow> continuationPtr f = InvalidHandle"

definition is_ready_weak :: "('k, 'v) light_future \<Rightarrow> bool" where
  "is_ready_weak f \<longleftrightarrow> continuationPtr f = InvalidHandle"

definition await_ready :: "('k, 'v) light_future \<Rightarrow> bool" where
  "await_ready f = is_ready_weak f"

text \<open>
  The compare-exchange of \<^verbatim>\<open>suspend\<close> and its assertion: the only other value it may find
  is the invalid handle.
\<close>

definition suspend :: "'k \<Rightarrow> ('k, 'v) light_future \<Rightarrow> fault + (bool \<times> ('k, 'v) light_future)" where
  "suspend func f =
     (case continuationPtr f of
        EmptyHandle \<Rightarrow> Inr (True, f\<lparr>continuationPtr := Handle func\<rparr>)
      | InvalidHandle \<Rightarrow> Inr (False, f)
      | Handle other \<Rightarrow> Inl (AssertFailed ''suspend''))"

definition await_suspend :: "'k \<Rightarrow> ('k, 'v) light_future \<Rightarrow> fault + (bool \<times> ('k, 'v) light_future)" where
  "await_suspend func f = suspend func f"

definition get_unchecked :: "('k, 'v) light_future \<Rightarrow> fault + (exception + 'v)" where
  "get_unchecked f =
     (if is_ready_weak f then Inr (getValue (val f)) else Inl (AssertFailed ''get_unchecked''))"

definition await_resume :: "('k, 'v) light_future \<Rightarrow> fault + (exception + 'v)" where
  "await_resume f = get_unchecked f"

text \<open>\<open>get_unchecked\<close> of a future without a value, whose variant holds \<^verbatim>\<open>StatelessT\<close>.\<close>

definition get_unchecked_stateless :: "('k, unit) light_future \<Rightarrow> fault + (exception + unit)" where
  "get_unchecked_stateless f =
     (if is_ready_weak f then Inr (getStateless (val f))
      else Inl (AssertFailed ''get_unchecked''))"

text \<open>
  \<^verbatim>\<open>on_ready\<close> exchanges the pointer for the invalid handle. Its result names the task whose
  \<^verbatim>\<open>operator()\<close> is then called, if there is one.
\<close>

definition on_ready :: "('k, 'v) light_future \<Rightarrow> fault + ('k option \<times> ('k, 'v) light_future)" where
  "on_ready f =
     (case continuationPtr f of
        EmptyHandle \<Rightarrow> Inr (None, f\<lparr>continuationPtr := InvalidHandle\<rparr>)
      | InvalidHandle \<Rightarrow> Inl (AssertFailed ''on_ready'')
      | Handle k \<Rightarrow> Inr (Some k, f\<lparr>continuationPtr := InvalidHandle\<rparr>))"

definition set_value :: "'v \<Rightarrow> ('k, 'v) light_future \<Rightarrow> fault + ('k option \<times> ('k, 'v) light_future)" where
  "set_value v f = on_ready (f\<lparr>val := Placeholder v\<rparr>)"

definition set_exception :: "exception \<Rightarrow> ('k, 'v) light_future \<Rightarrow> fault + ('k option \<times> ('k, 'v) light_future)" where
  "set_exception e f = on_ready (f\<lparr>val := ExceptionPtr e\<rparr>)"

text \<open>
  The two setters as one: completing a future with what a callable did, as
  \<^verbatim>\<open>async.hpp\<close> and \<^verbatim>\<open>routine.hpp\<close> use them.
\<close>

definition complete :: "exception + 'v \<Rightarrow> ('k, 'v) light_future \<Rightarrow> fault + ('k option \<times> ('k, 'v) light_future)" where
  "complete r f = (case r of Inr v \<Rightarrow> set_value v f | Inl e \<Rightarrow> set_exception e f)"

lemmas future_defs =
  is_ready_def is_ready_weak_def await_ready_def suspend_def await_suspend_def
  get_unchecked_def await_resume_def on_ready_def set_value_def set_exception_def complete_def
  LightFutureData_def LightFutureData_of_def get_unchecked_stateless_def

lemma complete_eta: "complete (Inr v) = set_value v" "complete (Inl e) = set_exception e"
  by (simp_all add: complete_def fun_eq_iff)

lemma complete_on_ready: "complete r f = on_ready (f\<lparr>val := setByResult (val f) r\<rparr>)"
  by (cases r) (simp_all add: complete_def set_value_def set_exception_def)

section \<open>The one-shot cell, the contract of a future\<close>

text \<open>
  What a future promises: a cell that is pending, possibly with one registered waiter, and
  then for ever ready with one result. Registering succeeds on a pending cell without a
  waiter and is refused on a ready one; completing hands out the waiter.
\<close>

datatype ('k, 'v) cell = Pending "'k option" | Ready "exception + 'v"

fun cell_suspend :: "'k \<Rightarrow> ('k, 'v) cell \<Rightarrow> (bool \<times> ('k, 'v) cell) option" where
  "cell_suspend k (Pending None) = Some (True, Pending (Some k))"
| "cell_suspend k (Pending (Some k')) = None"
| "cell_suspend k (Ready r) = Some (False, Ready r)"

fun cell_complete :: "exception + 'v \<Rightarrow> ('k, 'v) cell \<Rightarrow> ('k option \<times> ('k, 'v) cell) option" where
  "cell_complete r (Pending w) = Some (w, Ready r)"
| "cell_complete r (Ready r') = None"

fun cell_result :: "('k, 'v) cell \<Rightarrow> (exception + 'v) option" where
  "cell_result (Pending w) = None"
| "cell_result (Ready r) = Some r"

definition abs_future :: "('k, 'v) light_future \<Rightarrow> ('k, 'v) cell" where
  "abs_future f =
     (case continuationPtr f of
        EmptyHandle \<Rightarrow> Pending None
      | Handle k \<Rightarrow> Pending (Some k)
      | InvalidHandle \<Rightarrow> Ready (getValue (val f)))"

text \<open>The well-formed futures: the value is there exactly when the pointer says so.\<close>

definition future_ok :: "('k, 'v) light_future \<Rightarrow> bool" where
  "future_ok f \<longleftrightarrow> (is_ready f \<longleftrightarrow> isSet (val f))"

text \<open>
  A faulting call is the partial operation of the cell that is undefined there; a call that
  returns does what the cell does. \<open>returned\<close> forgets which fault it was.
\<close>

definition returned :: "fault + ('b \<times> ('k, 'v) light_future) \<Rightarrow> ('b \<times> ('k, 'v) cell) option" where
  "returned r = (case r of Inl e \<Rightarrow> None | Inr (b, g) \<Rightarrow> Some (b, abs_future g))"

text \<open>
  The interface the clients of a future rely on: what \<^verbatim>\<open>await_suspend\<close> and the setter
  answer in a pending and in a ready state.
\<close>

locale one_shot =
  fixes ok :: "'f \<Rightarrow> bool"
    and ready :: "'f \<Rightarrow> bool"
    and waiter :: "'f \<Rightarrow> 'k option"
    and susp :: "'k \<Rightarrow> 'f \<Rightarrow> fault + (bool \<times> 'f)"
    and compl :: "'r \<Rightarrow> 'f \<Rightarrow> fault + ('k option \<times> 'f)"
    and result :: "'f \<Rightarrow> fault + 'r"
  assumes susp_pending: "ok f \<Longrightarrow> \<not> ready f \<Longrightarrow> waiter f = None \<Longrightarrow>
      \<exists>g. susp k f = Inr (True, g) \<and> ok g \<and> \<not> ready g \<and> waiter g = Some k"
    and susp_ready: "ok f \<Longrightarrow> ready f \<Longrightarrow> susp k f = Inr (False, f)"
    and compl_pending: "ok f \<Longrightarrow> \<not> ready f \<Longrightarrow>
      \<exists>g. compl r f = Inr (waiter f, g) \<and> ok g \<and> ready g \<and> result g = Inr r"
    and compl_ready: "ready f \<Longrightarrow> \<exists>e. compl r f = Inl e"
begin

text \<open>
  The race of one waiter and one setter. Whichever comes first, the waiter goes on exactly
  once and finds the result: either it is handed out by the setter, or its own suspension is
  refused.
\<close>

lemma suspend_first:
  assumes "ok f" "\<not> ready f" "waiter f = None"
    and "susp k f = Inr (b, g)" "compl r g = Inr (w, h)"
  shows "b \<and> w = Some k \<and> ready h \<and> result h = Inr r"
proof -
  from assms(1-4) susp_pending [of f k] have b: b and g: "ok g" "\<not> ready g" "waiter g = Some k"
    by auto
  from compl_pending [OF g(1,2), of r] assms(5) g(3) b show ?thesis by auto
qed

lemma complete_first:
  assumes "ok f" "\<not> ready f" "waiter f = None"
    and "compl r f = Inr (w, g)" "susp k g = Inr (b, h)"
  shows "w = None \<and> \<not> b \<and> h = g \<and> ready h \<and> result h = Inr r"
proof -
  from compl_pending [OF assms(1,2), of r] assms(3,4)
  have "w = None" and g: "ok g" "ready g" "result g = Inr r" by auto
  with susp_ready [OF g(1,2), of k] assms(5) show ?thesis by auto
qed

lemma complete_twice: "ok f \<Longrightarrow> compl r f = Inr (w, g) \<Longrightarrow> \<exists>e. compl r' g = Inl e"
  using compl_pending [of f r] compl_ready [of f r] compl_ready [of g r'] by (cases "ready f") auto

end

lemma future_ok_new [simp]: "future_ok LightFutureData" "future_ok (LightFutureData_of t)"
  by (simp_all add: future_ok_def future_defs)

fun waiter_of :: "('k, 'v) light_future \<Rightarrow> 'k option" where
  "waiter_of f = (case continuationPtr f of Handle k \<Rightarrow> Some k | _ \<Rightarrow> None)"

interpretation lfd: one_shot future_ok is_ready waiter_of suspend complete get_unchecked
proof unfold_locales
  fix f :: "('k, 'v) light_future" and k
  assume "future_ok f" "\<not> is_ready f" "waiter_of f = None"
  then show "\<exists>g. suspend k f = Inr (True, g) \<and> future_ok g \<and> \<not> is_ready g \<and> waiter_of g = Some k"
    by (auto simp: future_defs future_ok_def split: handle.splits)
next
  fix f :: "('k, 'v) light_future" and k
  assume "future_ok f" "is_ready f"
  then show "suspend k f = Inr (False, f)" by (simp add: future_defs)
next
  fix f :: "('k, 'v) light_future" and r
  assume "future_ok f" "\<not> is_ready f"
  then show "\<exists>g. complete r f = Inr (waiter_of f, g) \<and> future_ok g \<and> is_ready g \<and>
      get_unchecked g = Inr r"
    by (cases "continuationPtr f")
      (auto simp: complete_on_ready on_ready_def future_ok_def is_ready_def is_ready_weak_def
        get_unchecked_def)
next
  fix f :: "('k, 'v) light_future" and r
  assume "is_ready f"
  then show "\<exists>e. complete r f = Inl e" by (simp add: complete_on_ready on_ready_def is_ready_def)
qed

text \<open>
  C22. \<^verbatim>\<open>LightFutureData\<close> implements the one-shot cell: suspending, completing and reading
  answer what the cell answers, and they fail an assertion exactly where the cell is
  undefined (a second waiter, a second value, a result that is not there).
\<close>

theorem future_refines_cell:
  "returned (suspend k f) = cell_suspend k (abs_future f) \<and>
   returned (complete r f) = cell_complete r (abs_future f) \<and>
   (case get_unchecked f of Inl e \<Rightarrow> None | Inr x \<Rightarrow> Some x) = cell_result (abs_future f)"
  by (auto simp: returned_def abs_future_def suspend_def complete_on_ready on_ready_def
      get_unchecked_def is_ready_weak_def split: handle.splits)

text \<open>
  No lost wake-up between one waiter and one setter: if the waiter registers first, the
  setter is handed exactly that waiter to call; if the setter comes first, it calls nobody and
  the registration is refused, so that the waiter goes on by itself. In both orders the
  result read afterwards is the one that was set, exceptions included.
\<close>

lemma suspend_complete_handover:
  assumes "future_ok f" "\<not> is_ready f" "waiter_of f = None"
  shows "\<exists>g h h'. suspend k f = Inr (True, g) \<and> complete r g = Inr (Some k, h) \<and>
           get_unchecked h = Inr r \<and>
           complete r f = Inr (None, h') \<and> suspend k h' = Inr (False, h') \<and>
           get_unchecked h' = Inr r"
proof -
  from lfd.susp_pending [OF assms] obtain g where
    g: "suspend k f = Inr (True, g)" "future_ok g" "\<not> is_ready g" "waiter_of g = Some k" by blast
  from lfd.compl_pending [OF g(2,3), of r] g(4) obtain h where
    h: "complete r g = Inr (Some k, h)" "get_unchecked h = Inr r" by auto
  from lfd.compl_pending [OF assms(1,2), of r] assms(3) obtain h' where
    h': "complete r f = Inr (None, h')" "future_ok h'" "is_ready h'" "get_unchecked h' = Inr r"
    by auto
  from g(1) h h'(1,4) lfd.susp_ready [OF h'(2,3), of k] show ?thesis by blast
qed

lemma suspend_complete_handover_witness:
  "\<exists>g h h'. suspend (7::nat) LightFutureData = Inr (True, g) \<and>
      complete (Inr (5::int)) g = Inr (Some 7, h) \<and> get_unchecked h = Inr (Inr 5) \<and>
      complete (Inr 5) (LightFutureData :: (nat, int) light_future) = Inr (None, h') \<and>
      suspend 7 h' = Inr (False, h') \<and> get_unchecked h' = Inr (Inr 5)"
  by (rule suspend_complete_handover) (simp_all add: is_ready_def LightFutureData_def future_ok_def)

text \<open>
  The handle of a future only moves up: empty, one waiter, ready.
\<close>

lemma handle_moves_up:
  "suspend k f = Inr (b, g) \<Longrightarrow> continuationPtr f \<le> continuationPtr g"
  "complete r f = Inr (w, g) \<Longrightarrow> continuationPtr f < continuationPtr g \<and> is_ready g"
  by (auto simp: suspend_def complete_on_ready on_ready_def is_ready_def less_eq_handle_def
      less_handle_def split: handle.splits)

section \<open>future and promise\<close>

text \<open>
  \<^verbatim>\<open>future<T>\<close> and \<^verbatim>\<open>promise<T>\<close> share one \<^verbatim>\<open>LightFutureData\<close> through
  \<^verbatim>\<open>std::shared_ptr\<close>. The heap maps addresses to the data; a \<^verbatim>\<open>shared_ptr\<close> is null or
  an address. The data of an address some handle holds is never freed, so the heap only
  grows; \<open>brk\<close> is the next free address.
\<close>

record ('k, 'v) heap =
  cells :: "nat \<rightharpoonup> ('k, 'v) light_future"
  brk :: nat

type_synonym shared_ptr = "nat option"

definition empty_heap :: "('k, 'v) heap" where
  "empty_heap = \<lparr>cells = Map.empty, brk = 0\<rparr>"

definition make_shared :: "('k, 'v) light_future \<Rightarrow> ('k, 'v) heap \<Rightarrow> shared_ptr \<times> ('k, 'v) heap" where
  "make_shared f h = (Some (brk h), h\<lparr>cells := (cells h)(brk h \<mapsto> f), brk := Suc (brk h)\<rparr>)"

definition heap_ok :: "('k, 'v) heap \<Rightarrow> bool" where
  "heap_ok h \<longleftrightarrow> (\<forall>a f. cells h a = Some f \<longrightarrow> a < brk h \<and> future_ok f)"

text \<open>\<^verbatim>\<open>mData->\<close> on a null or dangling pointer.\<close>

definition deref :: "shared_ptr \<Rightarrow> ('k, 'v) heap \<Rightarrow> fault + ('k, 'v) light_future" where
  "deref p h =
     (case p of None \<Rightarrow> Inl NullDeref
      | Some a \<Rightarrow> (case cells h a of None \<Rightarrow> Inl UseAfterFree | Some f \<Rightarrow> Inr f))"

definition deref_update :: "shared_ptr \<Rightarrow> (('k, 'v) light_future \<Rightarrow> fault + ('b \<times> ('k, 'v) light_future)) \<Rightarrow>
    ('k, 'v) heap \<Rightarrow> fault + ('b \<times> ('k, 'v) heap)" where
  "deref_update p u h =
     (case deref p h of Inl e \<Rightarrow> Inl e
      | Inr f \<Rightarrow> (case u f of Inl e \<Rightarrow> Inl e
                 | Inr (b, g) \<Rightarrow> Inr (b, h\<lparr>cells := (cells h)(the p \<mapsto> g)\<rparr>)))"

text \<open>The default-constructed future holds no data.\<close>

definition future_default :: shared_ptr where
  "future_default = None"

definition fromData :: "shared_ptr \<Rightarrow> shared_ptr" where
  "fromData d = d"

definition future_valid :: "shared_ptr \<Rightarrow> bool" where
  "future_valid fut \<longleftrightarrow> fut \<noteq> None"

definition future_is_ready :: "shared_ptr \<Rightarrow> ('k, 'v) heap \<Rightarrow> fault + bool" where
  "future_is_ready fut h = (case deref fut h of Inl e \<Rightarrow> Inl e | Inr f \<Rightarrow> Inr (is_ready f))"

text \<open>A future is never ready up front: \<^verbatim>\<open>await_suspend\<close> decides.\<close>

definition future_await_ready :: "shared_ptr \<Rightarrow> bool" where
  "future_await_ready fut = False"

definition future_get_unchecked :: "shared_ptr \<Rightarrow> ('k, 'v) heap \<Rightarrow> fault + (exception + 'v)" where
  "future_get_unchecked fut h = (case deref fut h of Inl e \<Rightarrow> Inl e | Inr f \<Rightarrow> get_unchecked f)"

definition future_await_resume :: "shared_ptr \<Rightarrow> ('k, 'v) heap \<Rightarrow> fault + (exception + 'v)" where
  "future_await_resume fut h = future_get_unchecked fut h"

definition future_await_suspend :: "'k \<Rightarrow> shared_ptr \<Rightarrow> ('k, 'v) heap \<Rightarrow> fault + (bool \<times> ('k, 'v) heap)" where
  "future_await_suspend k fut h = deref_update fut (suspend k) h"

definition promise_new :: "('k, 'v) heap \<Rightarrow> shared_ptr \<times> ('k, 'v) heap" where
  "promise_new h = make_shared LightFutureData h"

definition promise_get_future :: "shared_ptr \<Rightarrow> shared_ptr" where
  "promise_get_future p = fromData p"

definition promise_set_value :: "'v \<Rightarrow> shared_ptr \<Rightarrow> ('k, 'v) heap \<Rightarrow> fault + ('k option \<times> ('k, 'v) heap)" where
  "promise_set_value v p h = deref_update p (set_value v) h"

definition promise_set_exception :: "exception \<Rightarrow> shared_ptr \<Rightarrow> ('k, 'v) heap \<Rightarrow> fault + ('k option \<times> ('k, 'v) heap)" where
  "promise_set_exception e p h = deref_update p (set_exception e) h"

definition promise_void_set_value :: "shared_ptr \<Rightarrow> ('k, unit) heap \<Rightarrow> fault + ('k option \<times> ('k, unit) heap)" where
  "promise_void_set_value p h = deref_update p (set_value ()) h"

definition make_ready_future :: "'v \<Rightarrow> ('k, 'v) heap \<Rightarrow> shared_ptr \<times> ('k, 'v) heap" where
  "make_ready_future v h = (let (d, h') = make_shared (LightFutureData_of v) h in (fromData d, h'))"

definition make_exceptional_future :: "exception \<Rightarrow> ('k, 'v) heap \<Rightarrow> fault + (shared_ptr \<times> ('k, 'v) heap)" where
  "make_exceptional_future ex h =
     (let (d, h') = make_shared LightFutureData h
      in case deref_update d (set_exception ex) h' of
           Inl e \<Rightarrow> Inl e | Inr (w, h'') \<Rightarrow> Inr (fromData d, h''))"

lemmas handle_defs =
  make_shared_def deref_def deref_update_def future_default_def fromData_def future_valid_def
  future_is_ready_def future_await_ready_def future_get_unchecked_def future_await_resume_def
  future_await_suspend_def promise_new_def promise_get_future_def promise_set_value_def
  promise_set_exception_def promise_void_set_value_def make_ready_future_def
  make_exceptional_future_def

text \<open>Completing through a promise, with either setter.\<close>

definition promise_complete :: "exception + 'v \<Rightarrow> shared_ptr \<Rightarrow> ('k, 'v) heap \<Rightarrow> fault + ('k option \<times> ('k, 'v) heap)" where
  "promise_complete r p h =
     (case r of Inr v \<Rightarrow> promise_set_value v p h | Inl e \<Rightarrow> promise_set_exception e p h)"

lemma promise_complete_alt: "promise_complete r p h = deref_update p (complete r) h"
  by (cases r) (simp_all add: promise_complete_def promise_set_value_def promise_set_exception_def
      complete_eta)

lemma heap_ok_fresh: "heap_ok h \<Longrightarrow> brk h \<le> a \<Longrightarrow> cells h a = None"
  by (cases "cells h a") (fastforce simp: heap_ok_def)+

lemma heap_ok_update:
  "heap_ok h \<Longrightarrow> a < brk h \<Longrightarrow> future_ok f \<Longrightarrow> heap_ok (h\<lparr>cells := (cells h)(a \<mapsto> f)\<rparr>)"
  by (auto simp: heap_ok_def)

lemma heap_ok_complete:
  assumes "heap_ok h" "promise_complete r p h = Inr (w, h')"
  shows "heap_ok h'"
proof -
  from assms(2) obtain a f g where p: "p = Some a" and f: "cells h a = Some f"
    and g: "complete r f = Inr (w, g)" and h': "h' = h\<lparr>cells := (cells h)(a \<mapsto> g)\<rparr>"
    by (auto simp: promise_complete_alt deref_update_def deref_def split: option.splits sum.splits)
  from assms(1) f have a: "a < brk h" and ok: "future_ok f" by (auto simp: heap_ok_def)
  have "future_ok g"
    using g by (auto simp: complete_on_ready on_ready_def future_ok_def is_ready_def
        split: handle.splits)
  with assms(1) a show ?thesis unfolding h' by (rule heap_ok_update)
qed

text \<open>
  C23. A promise and the future taken from it: on any well-formed heap a new promise has a
  valid future that is not ready; whatever the promise is completed with (a value or an
  exception) is what the future then gives; completing it again fails an assertion; and no
  other future of the heap is touched.
\<close>

theorem promise_future_roundtrip:
  assumes "heap_ok h" and "promise_new h = (p, h1)"
  shows "future_valid (promise_get_future p) \<and> future_is_ready (promise_get_future p) h1 = Inr False
    \<and> (\<exists>h2. promise_complete r p h1 = Inr (None, h2) \<and> heap_ok h2 \<and>
          future_is_ready (promise_get_future p) h2 = Inr True \<and>
          future_get_unchecked (promise_get_future p) h2 = Inr r \<and>
          promise_complete r' p h2 = Inl (AssertFailed ''on_ready'') \<and>
          (\<forall>a. cells h a \<noteq> None \<longrightarrow> cells h2 a = cells h a))"
proof -
  from assms(2) have p: "p = Some (brk h)"
    and h1: "h1 = h\<lparr>cells := (cells h)(brk h \<mapsto> LightFutureData), brk := Suc (brk h)\<rparr>"
    by (simp_all add: promise_new_def make_shared_def)
  have ok1: "heap_ok h1" using assms(1) unfolding h1 by (auto simp: heap_ok_def less_Suc_eq)
  have fresh: "cells h (brk h) = None" using assms(1) by (rule heap_ok_fresh) simp
  obtain h2 where h2: "promise_complete r p h1 = Inr (None, h2)"
    and c: "cells h2 = (cells h1)(brk h \<mapsto> \<lparr>continuationPtr = InvalidHandle, val = setByResult Unset r\<rparr>)"
    by (simp add: promise_complete_alt deref_update_def deref_def p h1 complete_on_ready
        on_ready_def LightFutureData_def)
  show ?thesis
    using h2 heap_ok_complete [OF ok1 h2] c fresh
    by (auto simp: p h1 handle_defs is_ready_def get_unchecked_def is_ready_weak_def
        LightFutureData_def promise_complete_alt complete_on_ready on_ready_def)
qed

theorem promise_future_roundtrip_witness:
  "\<exists>p h1. promise_new (empty_heap :: (nat, int) heap) = (p, h1) \<and>
     future_valid (promise_get_future p) \<and> future_is_ready (promise_get_future p) h1 = Inr False
    \<and> (\<exists>h2. promise_complete (Inr 23) p h1 = Inr (None, h2) \<and> heap_ok h2 \<and>
          future_is_ready (promise_get_future p) h2 = Inr True \<and>
          future_get_unchecked (promise_get_future p) h2 = Inr (Inr 23) \<and>
          promise_complete (Inl (UserException 1)) p h2 = Inl (AssertFailed ''on_ready''))"
proof -
  have ok: "heap_ok (empty_heap :: (nat, int) heap)" by (simp add: heap_ok_def empty_heap_def)
  obtain p h1 where new: "promise_new (empty_heap :: (nat, int) heap) = (p, h1)" by fastforce
  show ?thesis
    using new promise_future_roundtrip [OF ok new, of "Inr 23" "Inl (UserException 1)"] by blast
qed

text \<open>
  Futures made without a promise: a ready future gives its value at once, an exceptional
  one throws its exception, both refuse a waiter so that an awaiting coroutine goes on, and
  every use of a default-constructed future dereferences null.
\<close>

lemma made_futures:
  "(\<exists>fut h'. make_ready_future v h = (fut, h') \<and> future_is_ready fut h' = Inr True \<and>
     future_get_unchecked fut h' = Inr (Inr v) \<and>
     (\<exists>h''. future_await_suspend k fut h' = Inr (False, h'') \<and> cells h'' = cells h')) \<and>
   (\<exists>fut h'. make_exceptional_future ex h = Inr (fut, h') \<and> future_is_ready fut h' = Inr True \<and>
     future_get_unchecked fut h' = Inr (Inl ex) \<and>
     (\<exists>h''. future_await_suspend k fut h' = Inr (False, h'') \<and> cells h'' = cells h')) \<and>
   \<not> future_valid future_default \<and> future_is_ready future_default h = Inl NullDeref \<and>
     future_get_unchecked future_default h = Inl NullDeref \<and>
     future_await_suspend k future_default h = Inl NullDeref"
  by (auto simp: handle_defs is_ready_def get_unchecked_def is_ready_weak_def LightFutureData_of_def
      LightFutureData_def set_exception_def on_ready_def suspend_def)

section \<open>Well-formedness under every sequence of calls\<close>

text \<open>
  The calls of the interface as events on the heap. A call is typed by a heap when its
  pointer, if it has one, is null or an address the heap knows.
\<close>

datatype ('k, 'v) future_call =
    NewPromise
  | MakeReady 'v
  | MakeExceptional exception
  | AwaitSuspend 'k shared_ptr
  | SetValue 'v shared_ptr
  | SetException exception shared_ptr
  | GetUnchecked shared_ptr

fun state_of :: "fault + ('b \<times> ('k, 'v) heap) \<Rightarrow> ('k, 'v) heap outcome" where
  "state_of (Inl e) = Fault e"
| "state_of (Inr (b, h)) = Next h"

fun future_step :: "(('k, 'v) future_call, ('k, 'v) heap) machine" where
  "future_step NewPromise h = Next (snd (promise_new h))"
| "future_step (MakeReady v) h = Next (snd (make_ready_future v h))"
| "future_step (MakeExceptional e) h = state_of (make_exceptional_future e h)"
| "future_step (AwaitSuspend k p) h = state_of (future_await_suspend k p h)"
| "future_step (SetValue v p) h = state_of (promise_set_value v p h)"
| "future_step (SetException e p) h = state_of (promise_set_exception e p h)"
| "future_step (GetUnchecked p) h =
     (case future_get_unchecked p h of Inl e \<Rightarrow> Fault e | Inr r \<Rightarrow> Next h)"

fun pointer_ok :: "('k, 'v) heap \<Rightarrow> shared_ptr \<Rightarrow> bool" where
  "pointer_ok h None = True"
| "pointer_ok h (Some a) = (cells h a \<noteq> None)"

fun typed_call :: "('k, 'v) heap \<Rightarrow> ('k, 'v) future_call \<Rightarrow> bool" where
  "typed_call h (AwaitSuspend k p) = pointer_ok h p"
| "typed_call h (SetValue v p) = pointer_ok h p"
| "typed_call h (SetException e p) = pointer_ok h p"
| "typed_call h (GetUnchecked p) = pointer_ok h p"
| "typed_call h c = True"

text \<open>
  What a later heap keeps of an earlier one: every future is still there, its handle has
  only moved up, and a ready one is as it was.
\<close>

definition grows :: "('k, 'v) light_future \<Rightarrow> ('k, 'v) light_future \<Rightarrow> bool" where
  "grows f g \<longleftrightarrow> continuationPtr f \<le> continuationPtr g \<and> (is_ready f \<longrightarrow> g = f)"

definition later :: "('k, 'v) heap \<Rightarrow> ('k, 'v) heap \<Rightarrow> bool" where
  "later h h' \<longleftrightarrow> (\<forall>a f. cells h a = Some f \<longrightarrow> (\<exists>g. cells h' a = Some g \<and> grows f g))"

lemma grows_refl [simp]: "grows f f"
  by (simp add: grows_def)

lemma grows_trans: "grows f g \<Longrightarrow> grows g k \<Longrightarrow> grows f k"
  by (auto simp: grows_def intro: order_trans)

lemma later_refl [simp]: "later h h"
  by (simp add: later_def)

lemma later_trans: "later h h1 \<Longrightarrow> later h1 h2 \<Longrightarrow> later h h2"
  unfolding later_def by (blast intro: grows_trans)

lemma later_typed: "later h h' \<Longrightarrow> typed_call h c \<Longrightarrow> typed_call h' c"
proof -
  assume l: "later h h'"
  have "pointer_ok h p \<Longrightarrow> pointer_ok h' p" for p
    using l by (cases p) (auto simp: later_def)
  then show "typed_call h c \<Longrightarrow> typed_call h' c" by (cases c) simp_all
qed

lemma make_shared_ok:
  "heap_ok h \<Longrightarrow> future_ok f \<Longrightarrow> make_shared f h = (p, h') \<Longrightarrow>
    heap_ok h' \<and> later h h' \<and> pointer_ok h' p"
  using heap_ok_fresh [of h "brk h"]
  by (auto simp: heap_ok_def make_shared_def later_def less_Suc_eq split: if_splits)

lemma deref_update_ok:
  assumes "heap_ok h" "deref_update p u h = Inr (b, h')"
    and u: "\<And>f c g. future_ok f \<Longrightarrow> u f = Inr (c, g) \<Longrightarrow>
      future_ok g \<and> grows f g"
  shows "heap_ok h' \<and> later h h'"
proof -
  from assms(2) obtain a f g where p: "p = Some a" and f: "cells h a = Some f"
    and g: "u f = Inr (b, g)" and h': "h' = h\<lparr>cells := (cells h)(a \<mapsto> g)\<rparr>"
    by (auto simp: deref_update_def deref_def split: option.splits sum.splits)
  from assms(1) f have a: "a < brk h" and ok: "future_ok f" by (auto simp: heap_ok_def)
  show ?thesis
    using heap_ok_update [OF assms(1) a, of g] u [OF ok g] f by (auto simp: h' later_def)
qed

lemma suspend_ok:
  "future_ok f \<Longrightarrow> suspend k f = Inr (b, g) \<Longrightarrow>
    future_ok g \<and> grows f g"
  by (auto simp: suspend_def future_ok_def is_ready_def grows_def split: handle.splits)

lemma complete_ok:
  "future_ok f \<Longrightarrow> complete r f = Inr (w, g) \<Longrightarrow>
    future_ok g \<and> grows f g"
  by (auto simp: complete_on_ready on_ready_def future_ok_def is_ready_def grows_def
      split: handle.splits)

lemma setter_ok:
  "future_ok f \<Longrightarrow> set_value v f = Inr (w, g) \<Longrightarrow> future_ok g \<and> grows f g"
  "future_ok f \<Longrightarrow> set_exception e f = Inr (w, g) \<Longrightarrow> future_ok g \<and> grows f g"
  by (erule complete_ok [of _ "Inr v", unfolded complete_eta], assumption)
    (erule complete_ok [of _ "Inl e", unfolded complete_eta], assumption)

lemma handle_calls_ok:
  assumes "heap_ok h"
  shows "future_await_suspend k p h = Inr (b, h') \<Longrightarrow> heap_ok h' \<and> later h h'"
    and "promise_set_value v p h = Inr (w, h') \<Longrightarrow> heap_ok h' \<and> later h h'"
    and "promise_set_exception e p h = Inr (w, h') \<Longrightarrow> heap_ok h' \<and> later h h'"
  unfolding future_await_suspend_def promise_set_value_def promise_set_exception_def
  by (erule deref_update_ok [OF assms], erule suspend_ok setter_ok, assumption)+

lemma state_of_simps [simp]:
  "state_of r = Next h \<longleftrightarrow> (\<exists>b. r = Inr (b, h))" "state_of r = Fault e \<longleftrightarrow> r = Inl e"
  by (cases r; auto)+

lemma future_step_ok:
  assumes "heap_ok h" "future_step c h = Next h'"
  shows "heap_ok h' \<and> later h h'"
proof (cases c)
  case NewPromise
  then show ?thesis
    using assms make_shared_ok [OF assms(1) future_ok_new(1)] by (cases "make_shared LightFutureData h")
      (auto simp: promise_new_def)
next
  case (MakeReady v)
  then show ?thesis
    using assms make_shared_ok [OF assms(1) future_ok_new(2) [of v]]
    by (cases "make_shared (LightFutureData_of v) h") (auto simp: make_ready_future_def)
next
  case (MakeExceptional e)
  obtain d h1 where d: "make_shared LightFutureData h = (d, h1)" by fastforce
  then have h1: "heap_ok h1" "later h h1" using make_shared_ok [OF assms(1) future_ok_new(1)] by blast+
  from MakeExceptional assms(2) d obtain w where "promise_set_exception e d h1 = Inr (w, h')"
    by (auto simp: make_exceptional_future_def promise_set_exception_def split: sum.splits prod.splits)
  from handle_calls_ok(3) [OF h1(1) this] h1(2) show ?thesis by (blast intro: later_trans)
next
  case (AwaitSuspend k p)
  then show ?thesis using assms(2) handle_calls_ok(1) [OF assms(1)] by auto
next
  case (SetValue v p)
  then show ?thesis using assms(2) handle_calls_ok(2) [OF assms(1)] by auto
next
  case (SetException e p)
  then show ?thesis using assms(2) handle_calls_ok(3) [OF assms(1)] by auto
next
  case (GetUnchecked p)
  then show ?thesis using assms by (auto split: sum.splits)
qed

lemma future_run_ok:
  "heap_ok h \<Longrightarrow> run future_step cs h = Next h' \<Longrightarrow> heap_ok h' \<and> later h h'"
proof (induction cs arbitrary: h)
  case Nil
  then show ?case by simp
next
  case (Cons c cs)
  from Cons.prems(2) obtain h1 where h1: "future_step c h = Next h1" "run future_step cs h1 = Next h'"
    by auto
  from future_step_ok [OF Cons.prems(1) h1(1)] Cons.IH [OF _ h1(2)] show ?case
    by (blast intro: later_trans)
qed

lemma typed_step: "typed_call h c \<Longrightarrow> future_step c h \<noteq> Fault UseAfterFree"
proof -
  have "pointer_ok h p \<Longrightarrow> deref p h \<noteq> Inl UseAfterFree" for p
    by (cases p) (auto simp: deref_def split: option.splits)
  then show "typed_call h c \<Longrightarrow> future_step c h \<noteq> Fault UseAfterFree"
    by (cases c) (auto simp: handle_defs future_defs split: option.splits sum.splits handle.splits if_splits)
qed



end
