(* ===== verification/FutureWait.thy ===== *)
theory FutureWait
  imports Future
begin

text \<open>
  Blocking on a future from a regular thread, \<^verbatim>\<open>LightFutureData::wait()\<close>,
  \<^verbatim>\<open>get_blocking()\<close> and \<^verbatim>\<open>wait_for()\<close> in \<^verbatim>\<open>include/co/future.hpp\<close>: one waiting thread
  and one thread that completes the future, cut into the atomic steps of both (each access to
  the atomic pointer, each critical section of the condition-variable task), which any
  scheduler may interleave. Atomics are read and written in one order that all threads see.
\<close>

section \<open>The completing thread\<close>

text \<open>
  \<open>PWrite\<close> writes \<^verbatim>\<open>value\<close>, \<open>PExchange\<close> is the exchange of \<^verbatim>\<open>on_ready\<close>, \<open>PLock\<close> and
  \<open>PNotify\<close> are the two halves of \<^verbatim>\<open>ConditionVariableTask::operator()\<close>: setting
  \<^verbatim>\<open>mDataReady\<close> under the lock, then \<^verbatim>\<open>notify_one\<close> after it was released.
\<close>

datatype 'v set_pc = PWrite "exception + 'v" | PExchange | PLock | PNotify | PDone

text \<open>
  The state both threads share. The one task in play is the waiter's, so tasks are named by
  \<open>unit\<close>; the task lives on the waiter's stack and \<open>taskAlive\<close> says whether it still does.
\<close>

record ('v, 'w) wait_state =
  fut :: "(unit, 'v) light_future"
  mDataReady :: bool
  taskAlive :: bool
  wpc :: 'w
  ppc :: "'v set_pc"

definition setter_step :: "('w \<Rightarrow> 'w) \<Rightarrow> ('v, 'w) wait_state \<Rightarrow> ('v, 'w) wait_state outcome" where
  "setter_step wake s =
     (case ppc s of
        PWrite r \<Rightarrow>
          Next (s\<lparr>fut := (fut s)\<lparr>val := setByResult (val (fut s)) r\<rparr>, ppc := PExchange\<rparr>)
      | PExchange \<Rightarrow>
          (case on_ready (fut s) of
             Inl e \<Rightarrow> Fault e
           | Inr (None, f) \<Rightarrow> Next (s\<lparr>fut := f, ppc := PDone\<rparr>)
           | Inr (Some u, f) \<Rightarrow> Next (s\<lparr>fut := f, ppc := PLock\<rparr>))
      | PLock \<Rightarrow>
          (if taskAlive s then Next (s\<lparr>mDataReady := True, ppc := PNotify\<rparr>) else Fault UseAfterFree)
      | PNotify \<Rightarrow>
          (if taskAlive s then Next (s\<lparr>wpc := wake (wpc s), ppc := PDone\<rparr>) else Fault UseAfterFree)
      | PDone \<Rightarrow> Blocked)"

text \<open>\<open>PWrite\<close> and \<open>PExchange\<close> together are \<open>complete\<close>.\<close>

lemma setter_is_complete:
  "complete r f = on_ready (f\<lparr>val := setByResult (val f) r\<rparr>)"
  by (rule complete_on_ready)

section \<open>get_blocking and wait\<close>

text \<open>
  \<open>WReady\<close> is the check of \<^verbatim>\<open>get_blocking\<close>, \<open>WSpin cnt\<close> one turn of the loop of
  \<^verbatim>\<open>wait\<close> with the counter's value, \<open>WSuspend\<close> the registration of the task. \<open>WCheck\<close>
  evaluates the predicate of the condition-variable wait under the lock and goes to sleep
  (\<open>WSleep\<close>) when it fails; \<open>WGet\<close> is \<^verbatim>\<open>get_unchecked\<close>.
\<close>

datatype 'v wait_pc =
  WReady | WSpin nat | WSuspend | WCheck | WSleep | WGet | WDone "exception + 'v"

type_synonym 'v blocking = "('v, 'v wait_pc) wait_state"

definition waiter_step :: "'v blocking \<Rightarrow> 'v blocking outcome" where
  "waiter_step s =
     (case wpc s of
        WReady \<Rightarrow> Next (s\<lparr>wpc := (if is_ready_weak (fut s) then WGet else WSpin 0)\<rparr>)
      | WSpin cnt \<Rightarrow>
          Next (s\<lparr>wpc := (if is_ready (fut s) then WGet
                          else if cnt < 4 then WSpin (Suc cnt) else WSuspend)\<rparr>)
      | WSuspend \<Rightarrow>
          (case suspend () (fut s) of
             Inl e \<Rightarrow> Fault e
           | Inr (res, f) \<Rightarrow>
               (if res then Next (s\<lparr>fut := f, taskAlive := True, mDataReady := False, wpc := WCheck\<rparr>)
                else Next (s\<lparr>fut := f, wpc := WGet\<rparr>)))
      | WCheck \<Rightarrow>
          (if mDataReady s then Next (s\<lparr>taskAlive := False, wpc := WGet\<rparr>)
           else Next (s\<lparr>wpc := WSleep\<rparr>))
      | WSleep \<Rightarrow> Blocked
      | WGet \<Rightarrow>
          (case get_unchecked (fut s) of Inl e \<Rightarrow> Fault e | Inr r \<Rightarrow> Next (s\<lparr>wpc := WDone r\<rparr>))
      | WDone r \<Rightarrow> Blocked)"

text \<open>A notification (or a spurious wake-up) makes a sleeping waiter check its predicate again.\<close>

fun wakeWaiter :: "'v wait_pc \<Rightarrow> 'v wait_pc" where
  "wakeWaiter WSleep = WCheck"
| "wakeWaiter w = w"

datatype wait_event = Waiter | Setter | Spurious

fun wait_step :: "(wait_event, 'v blocking) machine" where
  "wait_step Waiter s = waiter_step s"
| "wait_step Setter s = setter_step wakeWaiter s"
| "wait_step Spurious s = (if wpc s = WSleep then Next (s\<lparr>wpc := WCheck\<rparr>) else Blocked)"

definition wait_init :: "exception + 'v \<Rightarrow> 'v blocking" where
  "wait_init r = \<lparr>fut = LightFutureData, mDataReady = False, taskAlive = False,
     wpc = WReady, ppc = PWrite r\<rparr>"

lemmas wait_defs = wait_init_def waiter_step_def setter_step_def suspend_def on_ready_def
  get_unchecked_def is_ready_def is_ready_weak_def LightFutureData_def

text \<open>
  The invariant: the value is written before the pointer says so; the pointer is the task's
  exactly while the waiter waits on it and the setter has not taken it; a waiter sleeps only
  while a notification is still to come.
\<close>

fun waits :: "'v wait_pc \<Rightarrow> bool" where
  "waits WCheck = True"
| "waits WSleep = True"
| "waits w = False"

fun got :: "'v wait_pc \<Rightarrow> bool" where
  "got WGet = True"
| "got (WDone r) = True"
| "got w = False"

fun written :: "'v set_pc \<Rightarrow> bool" where
  "written (PWrite r) = False"
| "written p = True"

fun exchanged :: "'v set_pc \<Rightarrow> bool" where
  "exchanged (PWrite r) = False"
| "exchanged PExchange = False"
| "exchanged p = True"

fun notified :: "'v set_pc \<Rightarrow> bool" where
  "notified PNotify = True"
| "notified PDone = True"
| "notified p = False"

fun to_write :: "exception + 'v \<Rightarrow> 'v set_pc \<Rightarrow> bool" where
  "to_write r (PWrite r') \<longleftrightarrow> r' = r"
| "to_write r p = True"

fun returns :: "exception + 'v \<Rightarrow> 'v wait_pc \<Rightarrow> bool" where
  "returns r (WDone r') \<longleftrightarrow> r' = r"
| "returns r w = True"

definition set_inv :: "exception + 'v \<Rightarrow> ('v, 'w) wait_state \<Rightarrow> bool" where
  "set_inv r s \<longleftrightarrow> to_write r (ppc s) \<and>
     val (fut s) = (if written (ppc s) then setByResult Unset r else Unset)"

definition wait_inv :: "exception + 'v \<Rightarrow> 'v blocking \<Rightarrow> bool" where
  "wait_inv r s \<longleftrightarrow> set_inv r s \<and>
     taskAlive s = waits (wpc s) \<and>
     continuationPtr (fut s) = (if exchanged (ppc s) then InvalidHandle
                                else if waits (wpc s) then Handle () else EmptyHandle) \<and>
     (got (wpc s) \<longrightarrow> exchanged (ppc s)) \<and>
     (mDataReady s \<longrightarrow> notified (ppc s)) \<and>
     (waits (wpc s) \<and> notified (ppc s) \<longrightarrow> mDataReady s) \<and>
     (ppc s = PLock \<longrightarrow> waits (wpc s)) \<and>
     (ppc s = PNotify \<longrightarrow> waits (wpc s) \<or> got (wpc s)) \<and>
     (ppc s = PDone \<longrightarrow> wpc s \<noteq> WSleep) \<and>
     returns r (wpc s)"

lemma wait_inv_init: "wait_inv r (wait_init r)"
  by (simp add: wait_inv_def set_inv_def wait_init_def LightFutureData_def)

lemma notified_exchanged [simp]: "notified p \<Longrightarrow> exchanged p" "exchanged p \<Longrightarrow> written p"
  by (cases p; simp)+

lemma waiter_step_inv: "wait_inv r s \<Longrightarrow> ensures (wait_inv r) (waiter_step s)"
  by (cases "wpc s")
    (auto simp: wait_inv_def set_inv_def waiter_step_def suspend_def get_unchecked_def
      is_ready_def is_ready_weak_def)

lemma setter_step_inv: "wait_inv r s \<Longrightarrow> ensures (wait_inv r) (setter_step wakeWaiter s)"
  by (cases "ppc s"; cases "wpc s")
    (auto simp: wait_inv_def set_inv_def setter_step_def on_ready_def)

lemma wait_step_inv: "wait_inv r s \<Longrightarrow> ensures (wait_inv r) (wait_step e s)"
  by (cases e) (auto simp: waiter_step_inv setter_step_inv, auto simp: wait_inv_def set_inv_def)

interpretation waiting: invariant wait_step "wait_init r" "wait_inv r" for r
  by unfold_locales (simp_all add: wait_inv_init wait_step_inv)

text \<open>The only fault there can be: notifying a task that is gone.\<close>

lemma waiter_step_safe: "wait_inv r s \<Longrightarrow> waiter_step s \<noteq> Fault f"
  by (cases "wpc s")
    (auto simp: wait_inv_def set_inv_def waiter_step_def suspend_def get_unchecked_def
      is_ready_def is_ready_weak_def split: if_splits)

lemma setter_step_fault:
  "wait_inv r s \<Longrightarrow> setter_step wakeWaiter s = Fault f \<Longrightarrow>
   f = UseAfterFree \<and> ppc s = PNotify \<and> got (wpc s)"
  by (cases "ppc s"; cases "wpc s")
    (auto simp: wait_inv_def set_inv_def setter_step_def on_ready_def split: if_splits)

text \<open>
  C20. A thread that blocks on a future until it is ready returns with exactly what the future
  was completed with, whatever the interleaving with the completing thread and however many
  spurious wake-ups there are, and no assertion of \<^verbatim>\<open>suspend\<close>, \<^verbatim>\<open>get_unchecked\<close> or
  \<^verbatim>\<open>on_ready\<close> fails on the way.
\<close>

theorem get_blocking_returns_the_result:
  assumes "run wait_step es (wait_init r) = Next s"
  shows "(\<forall>r'. wpc s = WDone r' \<longrightarrow> r' = r) \<and> wait_step e s \<noteq> Fault (AssertFailed m)"
proof -
  have inv: "wait_inv r s" using waiting.along_run [OF wait_inv_init assms] .
  moreover have "wait_step e s \<noteq> Fault (AssertFailed m)"
    by (cases e) (auto simp: waiter_step_safe [OF inv] dest: setter_step_fault [OF inv])
  ultimately show ?thesis by (auto simp: wait_inv_def)
qed

text \<open>A schedule in which the waiter goes to sleep and is woken by the setter.\<close>

definition sleepy_schedule :: "wait_event list" where
  "sleepy_schedule = replicate 8 Waiter @ [Setter, Setter, Setter, Setter, Waiter, Waiter]"

lemma sleepy_run:
  "run wait_step sleepy_schedule (wait_init (Inr (42::int))) =
     Next \<lparr>fut = \<lparr>continuationPtr = InvalidHandle, val = Placeholder 42\<rparr>, mDataReady = True,
       taskAlive = False, wpc = WDone (Inr 42), ppc = PDone\<rparr>"
  by (simp add: sleepy_schedule_def wait_defs numeral_eq_Suc)

theorem get_blocking_returns_the_result_witness:
  "\<exists>s. run wait_step sleepy_schedule (wait_init (Inr (42::int))) = Next s \<and>
     wpc s = WDone (Inr 42) \<and> \<not> wpc s = WDone (Inr 7) \<and>
     wait_step Setter s \<noteq> Fault (AssertFailed ''on_ready'')"
  using get_blocking_returns_the_result [OF sleepy_run, of Setter "''on_ready''"] sleepy_run by simp

section \<open>Termination\<close>

text \<open>
  Without spurious wake-ups every schedule is finite: the measure adds up what is left of the
  two program counters. A notification costs the setter more than it gives the waiter.
\<close>

fun calm_step :: "(wait_event, 'v blocking) machine" where
  "calm_step e s = (if e = Spurious then Blocked else wait_step e s)"

fun waiter_left :: "'v wait_pc \<Rightarrow> nat" where
  "waiter_left WReady = 12"
| "waiter_left (WSpin cnt) = 6 + (5 - cnt)"
| "waiter_left WSuspend = 5"
| "waiter_left WCheck = 3"
| "waiter_left WSleep = 2"
| "waiter_left WGet = 1"
| "waiter_left (WDone r) = 0"

fun setter_left :: "'v set_pc \<Rightarrow> nat" where
  "setter_left (PWrite r) = 4"
| "setter_left PExchange = 3"
| "setter_left PLock = 2"
| "setter_left PNotify = 1"
| "setter_left PDone = 0"

definition wait_left :: "'v blocking \<Rightarrow> nat" where
  "wait_left s = waiter_left (wpc s) + 3 * setter_left (ppc s)"

definition waiter_done :: "'v blocking \<Rightarrow> bool" where
  "waiter_done s \<longleftrightarrow> (\<exists>r. wpc s = WDone r)"

lemma waiter_decrease: "waiter_step s = Next t \<Longrightarrow> wait_left t < wait_left s"
  by (cases "wpc s")
    (auto simp: wait_left_def waiter_step_def suspend_def get_unchecked_def
      split: if_splits handle.splits)

lemma wake_left: "waiter_left (wakeWaiter w) \<le> Suc (waiter_left w)"
  by (cases w) auto

lemma setter_decrease: "setter_step wakeWaiter s = Next t \<Longrightarrow> wait_left t < wait_left s"
  using wake_left [of "wpc s"]
  by (cases "ppc s")
    (auto simp: wait_left_def setter_step_def on_ready_def split: if_splits handle.splits)

lemma setter_progress:
  "wait_inv r s \<Longrightarrow> \<not> got (wpc s) \<Longrightarrow> ppc s \<noteq> PDone \<Longrightarrow> \<exists>t. setter_step wakeWaiter s = Next t"
  by (cases "ppc s"; cases "wpc s") (auto simp: wait_inv_def set_inv_def setter_step_def on_ready_def)

lemma waiter_progress:
  "wait_inv r s \<Longrightarrow> \<not> waiter_done s \<Longrightarrow> wpc s \<noteq> WSleep \<Longrightarrow> \<exists>t. waiter_step s = Next t"
  using waiter_step_safe [of r s]
  by (cases "waiter_step s")
    (auto simp: waiter_done_def waiter_step_def split: wait_pc.splits sum.splits if_splits)

lemma calm_progress:
  assumes "wait_inv r s" "\<not> waiter_done s"
  shows "\<exists>e t. calm_step e s = Next t"
proof (cases "wpc s = WSleep")
  case True
  with assms(1) have "ppc s \<noteq> PDone" "\<not> got (wpc s)" by (auto simp: wait_inv_def)
  with setter_progress [OF assms(1)] obtain t where "setter_step wakeWaiter s = Next t" by blast
  then have "calm_step Setter s = Next t" by simp
  then show ?thesis by blast
next
  case False
  with waiter_progress [OF assms] obtain t where "waiter_step s = Next t" by blast
  then have "calm_step Waiter s = Next t" by simp
  then show ?thesis by blast
qed

lemma calm_decrease: "calm_step e s = Next t \<Longrightarrow> wait_left t < wait_left s"
  by (cases e) (auto dest: waiter_decrease setter_decrease)

interpretation calm: terminating calm_step "wait_init r" "wait_inv r" waiter_done wait_left for r
proof unfold_locales
  fix s :: "'a blocking" and e
  assume inv: "wait_inv r s"
  show "ensures (wait_inv r) (calm_step e s)" using wait_step_inv [OF inv, of e] by simp
qed (auto simp: wait_inv_init simp del: calm_step.simps intro: calm_progress calm_decrease)

lemma wait_left_init: "wait_left (wait_init r) = 24"
  by (simp add: wait_left_def wait_init_def)

lemma calm_run_wait_run: "run calm_step es s = Next t \<Longrightarrow> run wait_step es s = Next t"
  by (induction es arbitrary: s) (auto split: if_splits)



text \<open>
  The task a blocked thread registers lives on its stack, and it is destroyed as soon as
  \<^verbatim>\<open>wait()\<close> sees \<^verbatim>\<open>mDataReady\<close>. The setter raises \<^verbatim>\<open>mDataReady\<close> under the lock but calls
  \<^verbatim>\<open>mCond.notify_one()\<close> after it released it: there is a schedule in which the waiter has
  returned and destroyed the task before the setter notifies it. No spurious wake-up is needed.
\<close>

lemma notify_after_destruction:
  "\<exists>es s. run calm_step es (wait_init r) = Next s \<and> wpc s = WDone r \<and> \<not> taskAlive s \<and>
     wait_step Setter s = Fault UseAfterFree"
proof -
  let ?es = "replicate 7 Waiter @ [Setter, Setter, Setter, Waiter, Waiter] :: wait_event list"
  have "\<exists>s. run calm_step ?es (wait_init r) = Next s \<and> wpc s = WDone r \<and> \<not> taskAlive s \<and>
     wait_step Setter s = Fault UseAfterFree"
    by (simp add: wait_defs numeral_eq_Suc)
  then show ?thesis by blast
qed

section \<open>wait_for\<close>

text \<open>
  The same two threads, the waiter with a deadline. \<open>FCheck\<close> evaluates the predicate,
  \<open>FSleep\<close> sleeps; the event \<open>Timeout\<close> is the deadline passing in the sleep, upon which
  \<^verbatim>\<open>boost::condition_variable::wait_for\<close> evaluates the predicate once more and returns it.
  \<open>FTakeBack\<close> is the exchange with which a timed-out waiter takes its task back.
\<close>

datatype future_status = StatusReady | StatusTimeout

datatype wait_for_pc = FReady | FSuspend | FCheck | FSleep | FTakeBack | FDone future_status

type_synonym 'v timed = "('v, wait_for_pc) wait_state"

definition wait_for_step :: "'v timed \<Rightarrow> 'v timed outcome" where
  "wait_for_step s =
     (case wpc s of
        FReady \<Rightarrow> Next (s\<lparr>wpc := (if is_ready (fut s) then FDone StatusReady else FSuspend)\<rparr>)
      | FSuspend \<Rightarrow>
          (case suspend () (fut s) of
             Inl e \<Rightarrow> Fault e
           | Inr (res, f) \<Rightarrow>
               (if res then Next (s\<lparr>fut := f, taskAlive := True, mDataReady := False, wpc := FCheck\<rparr>)
                else Next (s\<lparr>fut := f, wpc := FDone StatusReady\<rparr>)))
      | FCheck \<Rightarrow>
          (if mDataReady s then Next (s\<lparr>taskAlive := False, wpc := FDone StatusReady\<rparr>)
           else Next (s\<lparr>wpc := FSleep\<rparr>))
      | FSleep \<Rightarrow> Blocked
      | FTakeBack \<Rightarrow>
          (case continuationPtr (fut s) of
             Handle u \<Rightarrow> Next (s\<lparr>fut := (fut s)\<lparr>continuationPtr := EmptyHandle\<rparr>, taskAlive := False,
                                 wpc := FDone StatusTimeout\<rparr>)
           | InvalidHandle \<Rightarrow> Next (s\<lparr>fut := (fut s)\<lparr>continuationPtr := EmptyHandle\<rparr>,
                                 taskAlive := False, wpc := FDone StatusReady\<rparr>)
           | EmptyHandle \<Rightarrow> Fault (AssertFailed ''wait_for''))
      | FDone st \<Rightarrow> Blocked)"

text \<open>The predicate, evaluated when the deadline passes.\<close>

definition timeout_step :: "'v timed \<Rightarrow> 'v timed outcome" where
  "timeout_step s =
     (if wpc s \<noteq> FSleep then Blocked
      else if mDataReady s then Next (s\<lparr>taskAlive := False, wpc := FDone StatusReady\<rparr>)
      else Next (s\<lparr>wpc := FTakeBack\<rparr>))"

fun wakeTimed :: "wait_for_pc \<Rightarrow> wait_for_pc" where
  "wakeTimed FSleep = FCheck"
| "wakeTimed w = w"

datatype timed_event = TWaiter | TSetter | TSpurious | Timeout

fun timed_step :: "(timed_event, 'v timed) machine" where
  "timed_step TWaiter s = wait_for_step s"
| "timed_step TSetter s = setter_step wakeTimed s"
| "timed_step TSpurious s = (if wpc s = FSleep then Next (s\<lparr>wpc := FCheck\<rparr>) else Blocked)"
| "timed_step Timeout s = timeout_step s"

definition timed_init :: "exception + 'v \<Rightarrow> 'v timed" where
  "timed_init r = \<lparr>fut = LightFutureData, mDataReady = False, taskAlive = False,
     wpc = FReady, ppc = PWrite r\<rparr>"

lemmas timed_defs = timed_init_def wait_for_step_def timeout_step_def setter_step_def
  suspend_def on_ready_def is_ready_def LightFutureData_def

fun timed_waits :: "wait_for_pc \<Rightarrow> bool" where
  "timed_waits FCheck = True"
| "timed_waits FSleep = True"
| "timed_waits FTakeBack = True"
| "timed_waits w = False"

text \<open>
  The invariant. A timed-out waiter leaves a future that the setter has not completed yet; a
  waiter told \<open>StatusReady\<close> leaves one the setter has completed, but its pointer may have
  been reset to empty (\<open>taken\<close>).
\<close>

definition timed_inv :: "exception + 'v \<Rightarrow> 'v timed \<Rightarrow> bool" where
  "timed_inv r s \<longleftrightarrow> set_inv r s \<and>
     taskAlive s = timed_waits (wpc s) \<and>
     (\<not> exchanged (ppc s) \<longrightarrow>
        continuationPtr (fut s) = (if timed_waits (wpc s) then Handle () else EmptyHandle)) \<and>
     (exchanged (ppc s) \<and> wpc s \<noteq> FDone StatusReady \<longrightarrow> continuationPtr (fut s) = InvalidHandle) \<and>
     (wpc s = FDone StatusReady \<longrightarrow> exchanged (ppc s)) \<and>
     (wpc s = FDone StatusTimeout \<longrightarrow> ppc s \<noteq> PLock \<and> ppc s \<noteq> PNotify) \<and>
     (ppc s = PLock \<or> ppc s = PNotify \<longrightarrow> timed_waits (wpc s) \<or> wpc s = FDone StatusReady) \<and>
     (mDataReady s \<longrightarrow> notified (ppc s))"

lemma timed_inv_init: "timed_inv r (timed_init r)"
  by (simp add: timed_inv_def set_inv_def timed_init_def LightFutureData_def)

lemma wait_for_step_inv: "timed_inv r s \<Longrightarrow> safely (timed_inv r) (wait_for_step s)"
  by (cases "wpc s"; cases "ppc s")
    (auto simp: timed_inv_def set_inv_def wait_for_step_def suspend_def is_ready_def)

lemma timed_setter_inv: "timed_inv r s \<Longrightarrow> ensures (timed_inv r) (setter_step wakeTimed s)"
  by (cases "ppc s"; cases "wpc s")
    (auto simp: timed_inv_def set_inv_def setter_step_def on_ready_def)

lemma timeout_step_inv: "timed_inv r s \<Longrightarrow> safely (timed_inv r) (timeout_step s)"
  by (cases "ppc s") (auto simp: timed_inv_def set_inv_def timeout_step_def)

lemma timed_step_inv: "timed_inv r s \<Longrightarrow> ensures (timed_inv r) (timed_step e s)"
  by (cases e)
    (auto simp: safelyD(1) [OF wait_for_step_inv] timed_setter_inv safelyD(1) [OF timeout_step_inv],
      auto simp: timed_inv_def set_inv_def)

interpretation timed: invariant timed_step "timed_init r" "timed_inv r" for r
  by unfold_locales (simp_all add: timed_inv_init timed_step_inv del: timed_step.simps)

lemma timed_setter_fault:
  "timed_inv r s \<Longrightarrow> setter_step wakeTimed s = Fault f \<Longrightarrow> f = UseAfterFree \<and> wpc s = FDone StatusReady"
  by (cases "ppc s"; cases "wpc s")
    (auto simp: timed_inv_def set_inv_def setter_step_def on_ready_def split: if_splits)

text \<open>
  C34. \<^verbatim>\<open>wait_for\<close> tells the truth about the past: when it reports ready the future has been
  completed, and when it reports a timeout its task has been taken back, so that the setter
  can no longer reach it (no step faults, from then on, and the value stays to be fetched).
\<close>

theorem wait_for_status_sound:
  assumes "run timed_step es (timed_init r) = Next s" and "wpc s = FDone st"
  shows "(st = StatusReady \<longrightarrow> val (fut s) = setByResult Unset r) \<and>
     (st = StatusTimeout \<longrightarrow> timed_step e s \<noteq> Fault f \<and> \<not> taskAlive s \<and>
        (is_ready (fut s) \<longleftrightarrow> ppc s = PDone))"
proof -
  have inv: "timed_inv r s" using timed.along_run [OF timed_inv_init assms(1)] .
  have "timed_step e s \<noteq> Fault f" if "wpc s = FDone StatusTimeout"
    using that timed_setter_fault [OF inv, of f] safelyD(2) [OF wait_for_step_inv [OF inv]]
      safelyD(2) [OF timeout_step_inv [OF inv]]
    by (cases e) auto
  moreover have "is_ready (fut s) \<longleftrightarrow> ppc s = PDone" if "wpc s = FDone StatusTimeout"
    using that inv by (cases "ppc s") (auto simp: timed_inv_def is_ready_def)
  moreover have "val (fut s) = setByResult Unset r" if "wpc s = FDone StatusReady"
    using that inv by (simp add: timed_inv_def set_inv_def)
  moreover have "taskAlive s = timed_waits (wpc s)"
    using inv unfolding timed_inv_def by blast
  ultimately show ?thesis using assms(2) by (cases st) simp_all
qed

lemma timeout_run:
  "run timed_step [TWaiter, TWaiter, TWaiter, Timeout, TWaiter] (timed_init (Inr (7::int))) =
     Next \<lparr>fut = LightFutureData, mDataReady = False, taskAlive = False,
       wpc = FDone StatusTimeout, ppc = PWrite (Inr 7)\<rparr>"
  by (simp add: timed_defs)

theorem wait_for_status_sound_witness:
  "\<exists>s. run timed_step [TWaiter, TWaiter, TWaiter, Timeout, TWaiter] (timed_init (Inr (7::int))) = Next s \<and>
     wpc s = FDone StatusTimeout \<and> timed_step TSetter s \<noteq> Fault UseAfterFree \<and>
     \<not> is_ready (fut s)"
proof -
  let ?s = "\<lparr>fut = LightFutureData, mDataReady = False, taskAlive = False,
       wpc = FDone StatusTimeout, ppc = PWrite (Inr 7)\<rparr> :: int timed"
  have "timed_step TSetter ?s \<noteq> Fault UseAfterFree" "is_ready (fut ?s) \<longleftrightarrow> ppc ?s = PDone"
    using wait_for_status_sound [OF timeout_run, of StatusTimeout TSetter UseAfterFree] by simp_all
  with timeout_run show ?thesis by (intro exI [of _ ?s]) simp
qed

text \<open>
  The unconditional exchange with the empty handle loses the result when the deadline and
  the setter race: there is a schedule in which \<^verbatim>\<open>wait_for\<close> returns ready, the future was
  completed, and yet its pointer is empty again, so that \<^verbatim>\<open>is_ready()\<close> is false from then
  on, \<^verbatim>\<open>get_unchecked()\<close> fails its assertion and a later \<^verbatim>\<open>wait()\<close> registers a task that
  nobody will ever call. In the same schedule the setter then runs the destroyed task.
\<close>

lemma wait_for_loses_the_result:
  "\<exists>es s. run timed_step es (timed_init r) = Next s \<and> wpc s = FDone StatusReady \<and>
     val (fut s) = setByResult Unset r \<and> \<not> is_ready (fut s) \<and>
     get_unchecked (fut s) = Inl (AssertFailed ''get_unchecked'') \<and>
     (\<exists>f. suspend () (fut s) = Inr (True, f)) \<and>
     timed_step TSetter s = Fault UseAfterFree"
proof -
  let ?es = "[TWaiter, TWaiter, TWaiter, TSetter, TSetter, Timeout, TWaiter]"
  have "\<exists>s. run timed_step ?es (timed_init r) = Next s \<and> wpc s = FDone StatusReady \<and>
     val (fut s) = setByResult Unset r \<and> \<not> is_ready (fut s) \<and>
     get_unchecked (fut s) = Inl (AssertFailed ''get_unchecked'') \<and>
     (\<exists>f. suspend () (fut s) = Inr (True, f)) \<and>
     timed_step TSetter s = Fault UseAfterFree"
    by (simp add: timed_defs get_unchecked_def is_ready_weak_def)
  then show ?thesis by blast
qed

end
