(* ===== verification/Policy.thy ===== *)
theory Policy
  imports Prelude
begin

text \<open>
  The two waiter policies of \<^verbatim>\<open>include/co/mutex.hpp\<close> as records of their two functions, and
  the interface the mutex relies on. A waiter is the address of a promise, named by the thread
  whose stack holds it. The container of waiters is a list with its front first;
  \<^verbatim>\<open>getNextWaiter\<close> is only called on a container that is not empty.
\<close>

type_synonym waiter = nat

record policy =
  addToWaiter :: "waiter list \<Rightarrow> waiter \<Rightarrow> waiter list"
  getNextWaiter :: "waiter list \<Rightarrow> waiter \<times> waiter list"

text \<open>\<^verbatim>\<open>std::vector\<close> with \<^verbatim>\<open>push_back\<close>, \<^verbatim>\<open>back\<close> and \<^verbatim>\<open>pop_back\<close>.\<close>

definition HighThroughputPolicy :: "policy" where
  "HighThroughputPolicy = \<lparr>addToWaiter = (\<lambda>c t. c @ [t]),
     getNextWaiter = (\<lambda>c. (last c, butlast c))\<rparr>"

text \<open>\<^verbatim>\<open>std::deque\<close> with \<^verbatim>\<open>push_back\<close>, \<^verbatim>\<open>front\<close> and \<^verbatim>\<open>pop_front\<close>.\<close>

definition FairPolicy :: "policy" where
  "FairPolicy = \<lparr>addToWaiter = (\<lambda>c t. c @ [t]), getNextWaiter = (\<lambda>c. (hd c, tl c))\<rparr>"

text \<open>
  What the mutex needs of a policy: adding keeps every waiter, and the next waiter is one of
  those added, taken out once.
\<close>

locale waiter_policy =
  fixes pol :: "policy"
  assumes add_mset: "mset (addToWaiter pol c t) = add_mset t (mset c)"
    and next_mset: "c \<noteq> [] \<Longrightarrow> getNextWaiter pol c = (w, c') \<Longrightarrow> mset c = add_mset w (mset c')"
begin

lemma add_set: "set (addToWaiter pol c t) = insert t (set c)"
  using arg_cong [OF add_mset [of c t], of set_mset] by simp

lemma add_distinct: "distinct (addToWaiter pol c t) \<longleftrightarrow> distinct c \<and> t \<notin> set c"
  by (metis add_mset distinct.simps(2) mset.simps(2) mset_eq_imp_distinct_iff)

lemma next_props:
  assumes "c \<noteq> []" "getNextWaiter pol c = (w, c')"
  shows "set c = insert w (set c')" "distinct c \<longleftrightarrow> w \<notin> set c' \<and> distinct c'"
  using next_mset [OF assms]
  by (metis mset.simps(2) set_mset_mset list.simps(15),
      metis distinct.simps(2) mset.simps(2) mset_eq_imp_distinct_iff)

end

text \<open>A first-in first-out policy.\<close>

locale fifo_policy = waiter_policy +
  assumes add_back: "addToWaiter pol c t = c @ [t]"
    and next_front: "getNextWaiter pol (x # xs) = (x, xs)"

interpretation fair: fifo_policy FairPolicy
  by unfold_locales (auto simp: FairPolicy_def neq_Nil_conv)

interpretation throughput: waiter_policy HighThroughputPolicy
proof unfold_locales
  fix c c' :: "waiter list" and w
  assume "c \<noteq> []" "getNextWaiter HighThroughputPolicy c = (w, c')"
  then have "c = c' @ [w]" by (auto simp: HighThroughputPolicy_def)
  then show "mset c = add_mset w (mset c')" by simp
qed (simp add: HighThroughputPolicy_def)

end
