(* ===== verification/Mutex.thy ===== *)
theory Mutex
  imports Policy Future
begin

text \<open>
  \<^verbatim>\<open>BaseMutex\<close> of \<^verbatim>\<open>include/co/mutex.hpp\<close> used by any number of threads (or coroutines),
  cut into the atomic steps of \<^verbatim>\<open>lock\<close>, \<^verbatim>\<open>try_lock\<close> and \<^verbatim>\<open>unlock\<close>. Each thread has a program
  counter and, while it waits, a promise on its stack; the counter is unbounded (the
  \<^verbatim>\<open>std::atomic<int>\<close> would need two billion threads to overflow). The scheduler picks the
  thread that moves and whether a \<^verbatim>\<open>compare_exchange_weak\<close> fails spuriously.
\<close>

section \<open>The machine\<close>

text \<open>
  \<open>Spin i\<close> is turn \<open>i\<close> of the loop in \<^verbatim>\<open>lock\<close>, \<open>FetchAdd\<close> the increment after it,
  \<open>Enqueue\<close> the construction of the promise and \<^verbatim>\<open>addToWaiter\<close>; \<open>AwaitReady\<close>,
  \<open>AwaitSuspend\<close> and \<open>Parked\<close> are \<^verbatim>\<open>await(p)\<close>. \<open>Holding\<close> has the lock. \<open>Popping\<close> is the
  loop in \<^verbatim>\<open>unlock\<close>, \<open>Granting w\<close> its \<^verbatim>\<open>next->set_value\<close> for the waiter \<open>w\<close>.
\<close>

datatype lock_pc =
  Idle | Spin nat | FetchAdd | Enqueue | AwaitReady | AwaitSuspend | Parked
  | Holding | Popping | Granting nat

record mutex =
  mCountOfWaiter :: int
  mWaiter :: "nat list"
  pcs :: "nat \<Rightarrow> lock_pc"
  promise :: "nat \<Rightarrow> (nat, unit) light_future"

definition mutex_init :: mutex where
  "mutex_init = \<lparr>mCountOfWaiter = 0, mWaiter = [], pcs = (\<lambda>i. Idle),
     promise = (\<lambda>i. LightFutureData)\<rparr>"

definition goto :: "nat \<Rightarrow> lock_pc \<Rightarrow> mutex \<Rightarrow> mutex" where
  "goto i p s = s\<lparr>pcs := (pcs s)(i := p)\<rparr>"

text \<open>
  \<^verbatim>\<open>compare_exchange_weak(expected = 0, 1)\<close>: whether it succeeded, what \<^verbatim>\<open>expected\<close> is
  afterwards, and the state. It may fail although the counter is 0 (\<open>weak\<close>).
\<close>

definition cas_lock :: "bool \<Rightarrow> mutex \<Rightarrow> bool \<times> int \<times> mutex" where
  "cas_lock weak s =
     (if mCountOfWaiter s = 0 \<and> \<not> weak then (True, 0, s\<lparr>mCountOfWaiter := 1\<rparr>)
      else (False, mCountOfWaiter s, s))"

definition try_lock :: "nat \<Rightarrow> bool \<Rightarrow> mutex \<Rightarrow> mutex outcome" where
  "try_lock i weak s =
     (case cas_lock weak s of (res, expected, t) \<Rightarrow>
        if expected < 0 then Fault (AssertFailed ''try_lock'')
        else if res then Next (goto i Holding t) else Next t)"

text \<open>The steps of \<^verbatim>\<open>lock\<close>, from its loop to the end of \<^verbatim>\<open>await(p)\<close>.\<close>

definition lock_step :: "policy \<Rightarrow> nat \<Rightarrow> bool \<Rightarrow> mutex \<Rightarrow> mutex outcome" where
  "lock_step pol i weak s =
     (case pcs s i of
        Spin n \<Rightarrow>
          (case cas_lock weak s of (res, expected, t) \<Rightarrow>
             if expected < 0 then Fault (AssertFailed ''lock'')
             else if res then Next (goto i Holding t)
             else if expected > 1 then Next (goto i FetchAdd t)
             else if Suc n < 8 then Next (goto i (Spin (Suc n)) t)
             else Next (goto i FetchAdd t))
      | FetchAdd \<Rightarrow>
          (let waitingCount = mCountOfWaiter s + 1;
               t = s\<lparr>mCountOfWaiter := waitingCount\<rparr>
           in if waitingCount = 1 then Next (goto i Holding t) else Next (goto i Enqueue t))
      | Enqueue \<Rightarrow>
          Next (goto i AwaitReady (s\<lparr>promise := (promise s)(i := LightFutureData),
                                     mWaiter := addToWaiter pol (mWaiter s) i\<rparr>))
      | AwaitReady \<Rightarrow>
          (if await_ready (promise s i)
           then (case get_unchecked_stateless (promise s i) of
                   Inl e \<Rightarrow> Fault e | Inr r \<Rightarrow> Next (goto i Holding s))
           else Next (goto i AwaitSuspend s))
      | AwaitSuspend \<Rightarrow>
          (case await_suspend i (promise s i) of
             Inl e \<Rightarrow> Fault e
           | Inr (True, p) \<Rightarrow> Next (goto i Parked (s\<lparr>promise := (promise s)(i := p)\<rparr>))
           | Inr (False, p) \<Rightarrow> Next (goto i Holding (s\<lparr>promise := (promise s)(i := p)\<rparr>)))
      | _ \<Rightarrow> Blocked)"

text \<open>
  The steps of \<^verbatim>\<open>unlock\<close>. The continuation that \<^verbatim>\<open>set_value\<close> calls resumes the parked thread,
  whose \<^verbatim>\<open>await\<close> and with it \<^verbatim>\<open>lock()\<close> return.
\<close>

definition unlock :: "nat \<Rightarrow> mutex \<Rightarrow> mutex outcome" where
  "unlock i s =
     (let waitingCount = mCountOfWaiter s - 1;
          t = s\<lparr>mCountOfWaiter := waitingCount\<rparr>
      in if waitingCount < 0 then Fault (AssertFailed ''unlock'')
         else if waitingCount = 0 then Next (goto i Idle t)
         else Next (goto i Popping t))"

definition unlock_step :: "policy \<Rightarrow> nat \<Rightarrow> mutex \<Rightarrow> mutex outcome" where
  "unlock_step pol i s =
     (case pcs s i of
        Popping \<Rightarrow>
          (if mWaiter s = [] then Next s
           else (case getNextWaiter pol (mWaiter s) of
                   (next, rest) \<Rightarrow> Next (goto i (Granting next) (s\<lparr>mWaiter := rest\<rparr>))))
      | Granting w \<Rightarrow>
          (case set_value () (promise s w) of
             Inl e \<Rightarrow> Fault e
           | Inr (None, p) \<Rightarrow> Next (goto i Idle (s\<lparr>promise := (promise s)(w := p)\<rparr>))
           | Inr (Some k, p) \<Rightarrow>
               Next (goto k Holding (goto i Idle (s\<lparr>promise := (promise s)(w := p)\<rparr>))))
      | _ \<Rightarrow> Blocked)"

text \<open>
  Threads call \<^verbatim>\<open>lock\<close> and \<^verbatim>\<open>try_lock\<close> when they are idle and \<^verbatim>\<open>unlock\<close> only when they hold
  the lock; \<open>Go i weak\<close> is the next atomic step of thread \<open>i\<close>.
\<close>

fun unlocking :: "lock_pc \<Rightarrow> bool" where
  "unlocking Popping = True"
| "unlocking (Granting w) = True"
| "unlocking p = False"

datatype mutex_event = CallLock nat | CallTryLock nat bool | CallUnlock nat | Go nat bool

fun mutex_step :: "policy \<Rightarrow> (mutex_event, mutex) machine" where
  "mutex_step pol (CallLock i) s = (if pcs s i = Idle then Next (goto i (Spin 0) s) else Blocked)"
| "mutex_step pol (CallTryLock i weak) s = (if pcs s i = Idle then try_lock i weak s else Blocked)"
| "mutex_step pol (CallUnlock i) s = (if pcs s i = Holding then unlock i s else Blocked)"
| "mutex_step pol (Go i weak) s =
     (if unlocking (pcs s i) then unlock_step pol i s else lock_step pol i weak s)"

text \<open>The destructor asserts that no call of \<^verbatim>\<open>lock\<close> is without its \<^verbatim>\<open>unlock\<close>.\<close>

definition mutex_destroy :: "mutex \<Rightarrow> fault + unit" where
  "mutex_destroy s = (if mCountOfWaiter s = 0 then Inr () else Inl (AssertFailed ''~BaseMutex''))"

section \<open>The invariant\<close>

text \<open>
  A thread counts in \<^verbatim>\<open>mCountOfWaiter\<close> from its increment to its decrement (\<open>active\<close>). The
  right to be in the critical section is a token: the holder has it, then the thread that
  unlocks while it looks for a waiter, then the waiter whose promise it has set. A waiting
  thread has a promise that is not set yet.
\<close>

fun active :: "lock_pc \<Rightarrow> bool" where
  "active Enqueue = True"
| "active AwaitReady = True"
| "active AwaitSuspend = True"
| "active Parked = True"
| "active Holding = True"
| "active p = False"

fun awaiting :: "lock_pc \<Rightarrow> bool" where
  "awaiting AwaitReady = True"
| "awaiting AwaitSuspend = True"
| "awaiting Parked = True"
| "awaiting p = False"

fun carries :: "lock_pc \<Rightarrow> bool" where
  "carries Holding = True"
| "carries Popping = True"
| "carries (Granting w) = True"
| "carries p = False"

definition actives :: "mutex \<Rightarrow> nat set" where
  "actives s = {i. active (pcs s i)}"

definition waiting :: "mutex \<Rightarrow> nat \<Rightarrow> bool" where
  "waiting s i \<longleftrightarrow> awaiting (pcs s i) \<and> \<not> is_ready (promise s i)"

definition token :: "mutex \<Rightarrow> nat \<Rightarrow> bool" where
  "token s i \<longleftrightarrow> carries (pcs s i) \<or> awaiting (pcs s i) \<and> is_ready (promise s i)"

definition granted :: "mutex \<Rightarrow> nat \<Rightarrow> bool" where
  "granted s w \<longleftrightarrow> (\<exists>j. pcs s j = Granting w)"

definition handle_ok :: "nat \<Rightarrow> lock_pc \<Rightarrow> nat handle \<Rightarrow> bool" where
  "handle_ok i p h \<longleftrightarrow> (p = Parked \<longrightarrow> h = Handle i) \<and>
     (p = AwaitReady \<or> p = AwaitSuspend \<longrightarrow> h = EmptyHandle \<or> h = InvalidHandle)"

definition mutex_inv :: "mutex \<Rightarrow> bool" where
  "mutex_inv s \<longleftrightarrow>
     finite (actives s) \<and> mCountOfWaiter s = int (card (actives s)) \<and>
     (\<forall>i j. token s i \<longrightarrow> token s j \<longrightarrow> i = j) \<and>
     (actives s = {} \<longleftrightarrow> (\<forall>i. \<not> token s i)) \<and>
     distinct (mWaiter s) \<and>
     (\<forall>i. waiting s i \<longleftrightarrow> i \<in> set (mWaiter s) \<or> granted s i) \<and>
     (\<forall>i. granted s i \<longrightarrow> i \<notin> set (mWaiter s)) \<and>
     (\<forall>i. handle_ok i (pcs s i) (continuationPtr (promise s i)))"

lemma mutex_inv_init: "mutex_inv mutex_init"
  by (simp add: mutex_inv_def mutex_init_def actives_def token_def waiting_def handle_ok_def granted_def)

section \<open>Every step keeps the invariant\<close>

lemma goto_simps [simp]:
  "pcs (goto i p s) = (pcs s)(i := p)" "mCountOfWaiter (goto i p s) = mCountOfWaiter s"
  "mWaiter (goto i p s) = mWaiter s" "promise (goto i p s) = promise s"
  by (simp_all add: goto_def)

lemma actives_goto: "actives (goto i p s) = (if active p then insert i (actives s) else actives s - {i})"
  by (auto simp: actives_def)

lemma actives_update [simp]:
  "actives (s\<lparr>mCountOfWaiter := n\<rparr>) = actives s" "actives (s\<lparr>promise := f\<rparr>) = actives s"
  "actives (s\<lparr>mWaiter := q\<rparr>) = actives s"
  by (simp_all add: actives_def)

lemma mem_actives [simp]: "i \<in> actives s \<longleftrightarrow> active (pcs s i)"
  by (simp add: actives_def)

lemma token_goto: "token (goto i p s) j \<longleftrightarrow>
    (if j = i then carries p \<or> awaiting p \<and> is_ready (promise s i) else token s j)"
  by (simp add: token_def)

lemma token_update [simp]:
  "token (s\<lparr>mCountOfWaiter := n\<rparr>) j = token s j" "token (s\<lparr>mWaiter := q\<rparr>) j = token s j"
  by (simp_all add: token_def)

lemma waiting_goto: "waiting (goto i p s) j \<longleftrightarrow>
    (if j = i then awaiting p \<and> \<not> is_ready (promise s i) else waiting s j)"
  by (simp add: waiting_def)

lemma waiting_update [simp]:
  "waiting (s\<lparr>mCountOfWaiter := n\<rparr>) j = waiting s j" "waiting (s\<lparr>mWaiter := q\<rparr>) j = waiting s j"
  by (simp_all add: waiting_def)

lemma pc_groups [simp]:
  "carries p \<Longrightarrow> \<not> awaiting p" "awaiting p \<Longrightarrow> active p" "carries (Granting w)" "\<not> active (Granting w)"
  by (cases p; simp)+

lemma granted_update [simp]:
  "granted (s\<lparr>mCountOfWaiter := n\<rparr>) j = granted s j" "granted (s\<lparr>mWaiter := q\<rparr>) j = granted s j"
  "granted (s\<lparr>promise := f\<rparr>) j = granted s j"
  by (simp_all add: granted_def)

lemma granted_goto:
  "\<not> carries (pcs s i) \<Longrightarrow> granted (goto i p s) w \<longleftrightarrow> p = Granting w \<or> granted s w"
  unfolding granted_def goto_simps fun_upd_apply by (metis pc_groups(3))

lemma mutex_invD:
  assumes "mutex_inv s"
  shows "finite (actives s)" "mCountOfWaiter s = int (card (actives s))"
    "token s i \<Longrightarrow> token s j \<Longrightarrow> i = j"
    "mCountOfWaiter s = 0 \<longleftrightarrow> actives s = {}" "0 \<le> mCountOfWaiter s"
    "actives s = {} \<Longrightarrow> \<not> token s i"
    "actives s \<noteq> {} \<Longrightarrow> \<exists>i. token s i"
    "distinct (mWaiter s)"
    "waiting s i \<longleftrightarrow> i \<in> set (mWaiter s) \<or> granted s i"
    "granted s i \<Longrightarrow> i \<notin> set (mWaiter s)"
    "handle_ok i (pcs s i) (continuationPtr (promise s i))"
  using assms unfolding mutex_inv_def by auto

lemma mutex_invI:
  assumes "finite (actives s)" "mCountOfWaiter s = int (card (actives s))"
    "\<And>i j. token s i \<Longrightarrow> token s j \<Longrightarrow> i = j"
    "actives s = {} \<longleftrightarrow> (\<forall>i. \<not> token s i)"
    "distinct (mWaiter s)"
    "\<And>i. waiting s i \<longleftrightarrow> i \<in> set (mWaiter s) \<or> granted s i"
    "\<And>i. granted s i \<Longrightarrow> i \<notin> set (mWaiter s)"
    "\<And>i. handle_ok i (pcs s i) (continuationPtr (promise s i))"
  shows "mutex_inv s"
  using assms unfolding mutex_inv_def by auto

text \<open>Moves that change neither the groups a thread is in nor anything shared.\<close>

lemma move_inv:
  assumes inv: "mutex_inv s"
    and "active p = active (pcs s i)" "awaiting p = awaiting (pcs s i)" "\<not> carries p"
      "\<not> carries (pcs s i)" "handle_ok i p (continuationPtr (promise s i))"
  shows "mutex_inv (goto i p s)"
proof -
  have A: "actives (goto i p s) = actives s" using assms(2) by (auto simp: actives_goto)
  have T: "token (goto i p s) = token s" using assms(3-5) by (auto simp: fun_eq_iff token_goto token_def)
  have W: "waiting (goto i p s) = waiting s" using assms(3) by (auto simp: fun_eq_iff waiting_goto waiting_def)
  have G: "granted (goto i p s) = granted s"
    using assms(4,5) by (auto simp: fun_eq_iff granted_goto)
  show ?thesis
    using inv assms(6) unfolding mutex_inv_def A T W G by auto
qed

text \<open>Taking a free lock.\<close>

lemma acquire_inv:
  assumes inv: "mutex_inv s" and "mCountOfWaiter s = 0" "\<not> carries (pcs s i)"
  shows "mutex_inv (goto i Holding (s\<lparr>mCountOfWaiter := 1\<rparr>))"
proof -
  from inv assms(2) have e: "actives s = {}" and nt: "\<And>j. \<not> token s j"
    by (auto dest: mutex_invD)
  then have "\<not> awaiting (pcs s i)" by (metis empty_iff mem_actives pc_groups(2))
  with inv e nt assms(3) show ?thesis
    unfolding mutex_inv_def
    by (auto simp: actives_goto token_goto waiting_goto waiting_def handle_ok_def granted_goto)
qed

text \<open>Joining the threads that wait, while the lock is taken.\<close>

lemma enter_inv:
  assumes inv: "mutex_inv s" and "mCountOfWaiter s \<noteq> 0" "\<not> active (pcs s i)" "\<not> carries (pcs s i)"
  shows "mutex_inv (goto i Enqueue (s\<lparr>mCountOfWaiter := mCountOfWaiter s + 1\<rparr>))"
    (is "mutex_inv ?t")
proof -
  have na: "\<not> awaiting (pcs s i)" using assms(3) pc_groups(2) by blast
  have nt: "\<not> token s i" using na assms(4) by (simp add: token_def)
  have T: "token ?t = token s" using nt by (auto simp: fun_eq_iff token_goto)
  have W: "waiting ?t = waiting s" using na by (auto simp: fun_eq_iff waiting_goto waiting_def)
  have G: "granted ?t = granted s" using assms(4) by (auto simp: fun_eq_iff granted_goto)
  have "actives s \<noteq> {}" using mutex_invD(4) [OF inv] assms(2) by simp
  then show ?thesis
    using inv assms(3) unfolding mutex_inv_def T W G
    by (auto simp: actives_goto handle_ok_def)
qed

text \<open>A waiter takes the token its promise gave it, or parks on a promise that is not set.\<close>

lemma wake_inv:
  assumes inv: "mutex_inv s" and "awaiting (pcs s i)" "is_ready (promise s i)"
  shows "mutex_inv (goto i Holding s)"
proof -
  have nc: "\<not> carries (pcs s i)" using assms(2) pc_groups(1) by blast
  have A: "actives (goto i Holding s) = actives s" using assms(2) by (auto simp: actives_goto)
  have T: "token (goto i Holding s) = token s"
    using assms(2,3) by (auto simp: fun_eq_iff token_goto token_def)
  have W: "waiting (goto i Holding s) = waiting s"
    using assms(3) by (auto simp: fun_eq_iff waiting_goto waiting_def)
  have G: "granted (goto i Holding s) = granted s" using nc by (auto simp: fun_eq_iff granted_goto)
  show ?thesis using inv unfolding mutex_inv_def A T W G by (auto simp: handle_ok_def)
qed

lemma park_inv:
  assumes inv: "mutex_inv s" and "pcs s i = AwaitSuspend"
    and "await_suspend i (promise s i) = Inr (True, p)"
  shows "mutex_inv (goto i Parked (s\<lparr>promise := (promise s)(i := p)\<rparr>))" (is "mutex_inv ?t")
proof -
  from assms(3) have p: "\<not> is_ready (promise s i)" "\<not> is_ready p" "continuationPtr p = Handle i"
    by (auto simp: future_defs split: handle.splits)
  have A: "actives ?t = actives s" using assms(2) by (auto simp: actives_goto)
  have T: "token ?t = token s" using assms(2) p by (auto simp: fun_eq_iff token_def)
  have W: "waiting ?t = waiting s" using assms(2) p by (auto simp: fun_eq_iff waiting_def)
  have G: "granted ?t = granted s" using assms(2) by (auto simp: fun_eq_iff granted_goto)
  show ?thesis using inv p unfolding mutex_inv_def A T W G by (auto simp: handle_ok_def)
qed

lemma granted_only:
  assumes "mutex_inv s" "token s i" "granted s w"
  shows "pcs s i = Granting w"
proof -
  from assms(3) obtain j where j: "pcs s j = Granting w" by (auto simp: granted_def)
  then have "token s j" by (simp add: token_def)
  with mutex_invD(3) [OF assms(1,2)] have "i = j" by blast
  with j show ?thesis by simp
qed

text \<open>Giving the lock up, with nobody else counted and with others counted.\<close>

lemma unlock_inv:
  assumes inv: "mutex_inv s" and pc: "pcs s i = Holding"
  shows "safely mutex_inv (unlock i s)"
proof -
  let ?t = "s\<lparr>mCountOfWaiter := mCountOfWaiter s - 1\<rparr>"
  have tok: "token s i" using pc by (simp add: token_def)
  have fin: "finite (actives s)" and cnt: "mCountOfWaiter s = int (card (actives s))"
    using mutex_invD(1,2) [OF inv] .
  have mem: "i \<in> actives s" using pc by simp
  have cnt': "mCountOfWaiter s - 1 = int (card (actives s - {i}))"
    using card_remove_int [OF fin mem] cnt by simp
  have pos: "0 \<le> mCountOfWaiter s - 1" unfolding cnt' by simp
  have na: "\<not> awaiting (pcs s i)" using pc by simp
  have W: "waiting (goto i p ?t) = waiting s" if "\<not> awaiting p" for p
    using na that by (auto simp: fun_eq_iff waiting_goto waiting_def)
  have G0: "\<not> granted s w" for w using granted_only [OF inv tok] pc by auto
  have G: "\<not> granted (goto i p ?t) w" if "\<not> carries p \<or> p = Popping" for p w
    using G0 that unfolding granted_def by (auto split: if_splits)
  have only: "token s j \<longleftrightarrow> j = i" for j using mutex_invD(3) [OF inv] tok by blast
  show ?thesis
  proof (cases "mCountOfWaiter s - 1 = 0")
    case True
    then have e: "actives s - {i} = {}" using cnt' fin by simp
    have "mutex_inv (goto i Idle ?t)"
      using inv e True only W [of Idle] G [of Idle] G0
      unfolding mutex_inv_def
      by (auto simp: actives_goto token_goto handle_ok_def)
    with True pos show ?thesis by (simp add: unlock_def)
  next
    case False
    then have ne: "actives s - {i} \<noteq> {}" using cnt' by (metis card.empty of_nat_0)
    have "mutex_inv (goto i Popping ?t)"
      using inv ne cnt' only W [of Popping] G [of Popping] G0
      unfolding mutex_inv_def
      by (auto simp: actives_goto token_goto handle_ok_def)
    with False pos show ?thesis by (simp add: unlock_def Let_def)
  qed
qed

text \<open>Handing the token to a waiter.\<close>

text \<open>The thread that holds the token hands it to \<open>w\<close>, which waits.\<close>

lemma granting_facts:
  assumes inv: "mutex_inv s" and pc: "pcs s i = Granting w"
  shows "token s j \<longleftrightarrow> j = i" "granted s j \<longleftrightarrow> j = w" "w \<notin> set (mWaiter s)" "awaiting (pcs s w)"
    "\<not> is_ready (promise s w)" "w \<noteq> i"
    "j \<noteq> i \<Longrightarrow> \<not> (\<exists>k. pcs s j = Granting k)"
    "j \<noteq> i \<Longrightarrow> \<not> carries (pcs s j)" "j \<noteq> i \<Longrightarrow> \<not> (awaiting (pcs s j) \<and> is_ready (promise s j))"
    "handle_ok w (pcs s w) (continuationPtr (promise s w))"
proof -
  have tok: "token s i" using pc by (simp add: token_def)
  show only: "token s j \<longleftrightarrow> j = i" for j using mutex_invD(3) [OF inv] tok by blast
  show gr: "granted s j \<longleftrightarrow> j = w" for j
    using granted_only [OF inv tok] pc by (auto simp: granted_def)
  have wait: "waiting s w" and notin: "w \<notin> set (mWaiter s)"
    using mutex_invD(9,10) [OF inv] gr by auto
  show "w \<notin> set (mWaiter s)" by (rule notin)
  show aw: "awaiting (pcs s w)" and "\<not> is_ready (promise s w)" using wait by (auto simp: waiting_def)
  show "w \<noteq> i" using pc aw by auto
  show "j \<noteq> i \<Longrightarrow> \<not> (\<exists>k. pcs s j = Granting k)"
    using only [of j] unfolding token_def by (metis carries.simps(3))
  show "j \<noteq> i \<Longrightarrow> \<not> carries (pcs s j)" "j \<noteq> i \<Longrightarrow> \<not> (awaiting (pcs s j) \<and> is_ready (promise s j))"
    using only [of j] by (auto simp: token_def)
  show "handle_ok w (pcs s w) (continuationPtr (promise s w))" using mutex_invD(11) [OF inv] .
qed

lemma granted_inv:
  assumes inv: "mutex_inv s" and pc: "pcs s i = Granting w" and ap: "pcs s w \<noteq> Parked"
  shows "mutex_inv (goto i Idle (s\<lparr>promise := (promise s)(w :=
    \<lparr>continuationPtr = InvalidHandle, val = Placeholder ()\<rparr>)\<rparr>))" (is "mutex_inv ?t")
proof -
  note only = granting_facts(1) [OF inv pc] and gr = granting_facts(2) [OF inv pc]
    and notin = granting_facts(3) [OF inv pc] and aw = granting_facts(4) [OF inv pc]
    and wi = granting_facts(6) [OF inv pc] and pcj = granting_facts(7) [OF inv pc]
    and other = granting_facts(8,9) [OF inv pc]
  have A: "actives ?t = actives s" using pc by (auto simp: actives_goto)
  have T: "token ?t j \<longleftrightarrow> j = w" for j
    using other aw wi by (auto simp: token_def is_ready_def)
  have W: "waiting ?t j \<longleftrightarrow> waiting s j \<and> j \<noteq> w" for j
    using pc by (auto simp: waiting_def is_ready_def)
  have G: "\<not> granted ?t j" for j using pcj by (auto simp: granted_def)
  show ?thesis
    using inv gr notin ap only unfolding mutex_inv_def A T W
    by (auto simp: G handle_ok_def)
qed

lemma granted_woken_inv:
  assumes inv: "mutex_inv s" and pc: "pcs s i = Granting w" and pk: "pcs s w = Parked"
  shows "mutex_inv (goto w Holding (goto i Idle (s\<lparr>promise := (promise s)(w :=
    \<lparr>continuationPtr = InvalidHandle, val = Placeholder ()\<rparr>)\<rparr>)))" (is "mutex_inv ?t")
proof -
  note only = granting_facts(1) [OF inv pc] and gr = granting_facts(2) [OF inv pc]
    and notin = granting_facts(3) [OF inv pc] and wi = granting_facts(6) [OF inv pc]
    and pcj = granting_facts(7) [OF inv pc] and other = granting_facts(8,9) [OF inv pc]
  have A: "actives ?t = actives s" using pc pk wi by (auto simp: actives_goto)
  have T: "token ?t j \<longleftrightarrow> j = w" for j
    using other wi by (auto simp: token_def)
  have W: "waiting ?t j \<longleftrightarrow> waiting s j \<and> j \<noteq> w" for j
    using pc by (auto simp: waiting_def)
  have G: "\<not> granted ?t j" for j using pcj by (auto simp: granted_def)
  show ?thesis
    using inv gr notin only unfolding mutex_inv_def A T W
    by (auto simp: G handle_ok_def)
qed

lemma grant_inv:
  assumes inv: "mutex_inv s" and pc: "pcs s i = Granting w"
  shows "\<exists>p x. set_value () (promise s w) = Inr (x, p) \<and> (x = None \<or> x = Some w \<and> pcs s w = Parked) \<and>
    mutex_inv (if x = None then goto i Idle (s\<lparr>promise := (promise s)(w := p)\<rparr>)
               else goto w Holding (goto i Idle (s\<lparr>promise := (promise s)(w := p)\<rparr>)))"
proof -
  note aw = granting_facts(4) [OF inv pc] and nr = granting_facts(5) [OF inv pc]
    and ok = granting_facts(10) [OF inv pc]
  let ?p = "\<lparr>continuationPtr = InvalidHandle, val = Placeholder ()\<rparr>"
  show ?thesis
  proof (cases "continuationPtr (promise s w)")
    case EmptyHandle
    then have ap: "pcs s w \<noteq> Parked" using ok by (auto simp: handle_ok_def)
    have "set_value () (promise s w) = Inr (None, ?p)"
      using EmptyHandle by (simp add: set_value_def on_ready_def)
    with granted_inv [OF inv pc ap] show ?thesis by (intro exI [of _ ?p] exI [of _ None]) simp
  next
    case InvalidHandle
    with nr show ?thesis by (simp add: is_ready_def)
  next
    case (Handle k)
    with ok aw have k: "k = w" and pk: "pcs s w = Parked"
      by (cases "pcs s w"; simp add: handle_ok_def)+
    have "set_value () (promise s w) = Inr (Some w, ?p)"
      using Handle k by (simp add: set_value_def on_ready_def)
    with granted_woken_inv [OF inv pc pk] pk show ?thesis
      by (intro exI [of _ ?p] exI [of _ "Some w"]) simp
  qed
qed

lemma lock_step_inv_nonqueue:
  assumes inv: "mutex_inv s" and "pcs s i \<noteq> Enqueue"
  shows "safely mutex_inv (lock_step pol i weak s)"
proof (cases "pcs s i")
  case (Spin n)
  have "0 \<le> mCountOfWaiter s" using mutex_invD(5) [OF inv] .
  then show ?thesis
    using Spin acquire_inv [OF inv, of i] move_inv [OF inv, of "Spin (Suc n)" i]
      move_inv [OF inv, of FetchAdd i]
    by (auto simp: lock_step_def cas_lock_def handle_ok_def)
next
  case FetchAdd
  then show ?thesis
    using acquire_inv [OF inv, of i] enter_inv [OF inv, of i]
    by (auto simp: lock_step_def Let_def)
next
  case AwaitReady
  have "handle_ok i AwaitSuspend (continuationPtr (promise s i))"
    using mutex_invD(11) [OF inv, of i] AwaitReady by (simp add: handle_ok_def)
  then show ?thesis
    using AwaitReady wake_inv [OF inv, of i] move_inv [OF inv, of AwaitSuspend i]
    by (auto simp: lock_step_def await_ready_def is_ready_weak_def is_ready_def
        get_unchecked_stateless_def)
next
  case AwaitSuspend
  have ok: "handle_ok i AwaitSuspend (continuationPtr (promise s i))"
    using mutex_invD(11) [OF inv, of i] AwaitSuspend by simp
  show ?thesis
  proof (cases "continuationPtr (promise s i)")
    case EmptyHandle
    then have "await_suspend i (promise s i) = Inr (True, (promise s i)\<lparr>continuationPtr := Handle i\<rparr>)"
      by (simp add: await_suspend_def suspend_def)
    with AwaitSuspend park_inv [OF inv AwaitSuspend] show ?thesis by (simp add: lock_step_def)
  next
    case InvalidHandle
    then have "await_suspend i (promise s i) = Inr (False, promise s i)"
      by (simp add: await_suspend_def suspend_def)
    moreover have "s\<lparr>promise := promise s\<rparr> = s" by simp
    ultimately show ?thesis
      using AwaitSuspend InvalidHandle wake_inv [OF inv, of i] by (simp add: lock_step_def is_ready_def)
  next
    case (Handle k)
    with ok show ?thesis by (simp add: handle_ok_def)
  qed
qed (simp_all add: lock_step_def assms)

text \<open>The two steps that touch the container of waiters need the laws of the policy.\<close>

context waiter_policy
begin

lemma enqueue_inv:
  assumes inv: "mutex_inv s" and pc: "pcs s i = Enqueue"
  shows "mutex_inv (goto i AwaitReady (s\<lparr>promise := (promise s)(i := LightFutureData),
           mWaiter := addToWaiter pol (mWaiter s) i\<rparr>))" (is "mutex_inv ?t")
proof -
  have nw: "\<not> waiting s i" using pc by (simp add: waiting_def)
  then have ni: "i \<notin> set (mWaiter s)" and ng: "\<not> granted s i" using mutex_invD(9) [OF inv] by auto
  have A: "actives ?t = actives s" using pc by (auto simp: actives_goto)
  have T: "token ?t = token s"
    using pc by (auto simp: fun_eq_iff token_def is_ready_def LightFutureData_def)
  have W: "waiting ?t j \<longleftrightarrow> j = i \<or> waiting s j" for j
    by (auto simp: waiting_def is_ready_def LightFutureData_def)
  have G: "granted ?t = granted s" using pc by (auto simp: fun_eq_iff granted_goto)
  show ?thesis
    using inv ni ng unfolding mutex_inv_def A T W G
    by (auto simp: add_set add_distinct handle_ok_def LightFutureData_def)
qed

lemma pop_inv:
  assumes inv: "mutex_inv s" and pc: "pcs s i = Popping"
    and q: "mWaiter s \<noteq> []" "getNextWaiter pol (mWaiter s) = (w, rest)"
  shows "mutex_inv (goto i (Granting w) (s\<lparr>mWaiter := rest\<rparr>))" (is "mutex_inv ?t")
proof -
  have tok: "token s i" using pc by (simp add: token_def)
  have ng: "\<not> granted s j" for j using granted_only [OF inv tok] pc by auto
  have A: "actives ?t = actives s" using pc by (auto simp: actives_goto)
  have T: "token ?t = token s" using pc by (auto simp: fun_eq_iff token_goto token_def)
  have W: "waiting ?t = waiting s" using pc by (auto simp: fun_eq_iff waiting_goto waiting_def)
  have G: "granted ?t j \<longleftrightarrow> j = w" for j
    using ng [of j] unfolding granted_def by auto
  have d: "distinct (mWaiter s)" using mutex_invD(8) [OF inv] .
  show ?thesis
    using inv ng d next_props [OF q] unfolding mutex_inv_def A T W
    by (auto simp: G handle_ok_def)
qed

lemma lock_step_inv: "mutex_inv s \<Longrightarrow> safely mutex_inv (lock_step pol i weak s)"
  using lock_step_inv_nonqueue [of s i pol weak] enqueue_inv [of s i]
  by (cases "pcs s i = Enqueue") (simp_all add: lock_step_def)

lemma unlock_step_inv:
  assumes inv: "mutex_inv s"
  shows "safely mutex_inv (unlock_step pol i s)"
proof (cases "pcs s i")
  case Popping
  show ?thesis
    using Popping inv pop_inv [OF inv Popping]
    by (cases "getNextWaiter pol (mWaiter s)") (auto simp: unlock_step_def)
next
  case (Granting w)
  with grant_inv [OF inv Granting] show ?thesis
    by (auto simp: unlock_step_def split: if_splits)
qed (simp_all add: unlock_step_def)

lemma try_lock_inv:
  assumes inv: "mutex_inv s" and pc: "pcs s i = Idle"
  shows "safely mutex_inv (try_lock i weak s)"
  using mutex_invD(5) [OF inv] acquire_inv [OF inv, of i] pc inv
  by (auto simp: try_lock_def cas_lock_def)

lemma mutex_step_inv: "mutex_inv s \<Longrightarrow> safely mutex_inv (mutex_step pol e s)"
  by (cases e)
    (auto simp: lock_step_inv unlock_step_inv try_lock_inv unlock_inv handle_ok_def
      intro: move_inv)

end

sublocale waiter_policy \<subseteq> mutex: safe_invariant "mutex_step pol" mutex_init mutex_inv
  by unfold_locales (use safelyD(1) [OF mutex_step_inv] in \<open>auto simp: mutex_inv_init mutex_step_inv\<close>)

section \<open>What a run enqueues and hands over\<close>

definition enqueues :: "mutex_event \<Rightarrow> mutex \<Rightarrow> waiter list" where
  "enqueues e s = (case e of Go i weak \<Rightarrow> if pcs s i = Enqueue then [i] else [] | _ \<Rightarrow> [])"

definition grants :: "policy \<Rightarrow> mutex_event \<Rightarrow> mutex \<Rightarrow> waiter list" where
  "grants pol e s =
     (case e of
        Go i weak \<Rightarrow> if pcs s i = Popping \<and> mWaiter s \<noteq> [] then [fst (getNextWaiter pol (mWaiter s))] else []
      | _ \<Rightarrow> [])"

lemma cas_lock_mWaiter: "cas_lock weak s = (res, x, t) \<Longrightarrow> mWaiter t = mWaiter s"
  by (auto simp: cas_lock_def split: if_splits)

lemma lock_step_mWaiter:
  "lock_step pol i weak s = Next t \<Longrightarrow>
   mWaiter t = (if pcs s i = Enqueue then addToWaiter pol (mWaiter s) i else mWaiter s)"
  by (cases "pcs s i")
    (auto simp: lock_step_def Let_def dest: cas_lock_mWaiter split: if_splits prod.splits sum.splits bool.splits)

lemma unlock_step_mWaiter:
  "unlock_step pol i s = Next t \<Longrightarrow>
   mWaiter t = (if pcs s i = Popping \<and> mWaiter s \<noteq> [] then snd (getNextWaiter pol (mWaiter s)) else mWaiter s)"
  by (cases "pcs s i")
    (auto simp: unlock_step_def split: if_splits prod.splits sum.splits option.splits)

lemma call_mWaiter:
  "try_lock i weak s = Next t \<Longrightarrow> mWaiter t = mWaiter s" "unlock i s = Next t \<Longrightarrow> mWaiter t = mWaiter s"
  by (auto simp: try_lock_def unlock_def Let_def dest: cas_lock_mWaiter split: if_splits prod.splits)

context fifo_policy
begin

lemma queue_step:
  assumes "mutex_step pol e s = Next t"
  shows "mWaiter s @ enqueues e s = grants pol e s @ mWaiter t"
proof (cases e)
  case (Go i weak)
  show ?thesis
  proof (cases "unlocking (pcs s i)")
    case True
    then have "mWaiter t = (if pcs s i = Popping \<and> mWaiter s \<noteq> [] then snd (getNextWaiter pol (mWaiter s)) else mWaiter s)"
      and "pcs s i \<noteq> Enqueue"
      using assms Go by (auto dest: unlock_step_mWaiter)
    with Go show ?thesis
      by (cases "mWaiter s") (auto simp: enqueues_def grants_def next_front)
  next
    case False
    then have "mWaiter t = (if pcs s i = Enqueue then addToWaiter pol (mWaiter s) i else mWaiter s)"
      and "pcs s i \<noteq> Popping"
      using assms Go by (auto dest: lock_step_mWaiter)
    with Go show ?thesis by (auto simp: enqueues_def grants_def add_back)
  qed
qed (use assms in \<open>auto simp: enqueues_def grants_def call_mWaiter split: if_splits\<close>)

lemma queue_order:
  "run (mutex_step pol) es s = Next t \<Longrightarrow>
   mWaiter s @ observe enqueues (mutex_step pol) es s = observe (grants pol) (mutex_step pol) es s @ mWaiter t"
  by (rule observe_fifo) (auto intro: queue_step simp del: mutex_step.simps)

end

section \<open>Draining\<close>

text \<open>
  What is left for each thread on its way to \<open>Idle\<close>. Every step but the busy wait of
  \<^verbatim>\<open>unlock\<close> on an empty container makes the sum smaller.
\<close>

fun weight :: "lock_pc \<Rightarrow> nat" where
  "weight Idle = 0"
| "weight (Spin n) = 9 + (8 - n)"
| "weight FetchAdd = 8"
| "weight Enqueue = 7"
| "weight AwaitReady = 6"
| "weight AwaitSuspend = 5"
| "weight Parked = 4"
| "weight Holding = 3"
| "weight Popping = 2"
| "weight (Granting w) = 1"

definition busy :: "mutex \<Rightarrow> nat set" where
  "busy s = {i. pcs s i \<noteq> Idle}"

definition left :: "mutex \<Rightarrow> nat" where
  "left s = (\<Sum>i\<in>busy s. weight (pcs s i))"

lemma left_superset: "finite A \<Longrightarrow> busy s \<subseteq> A \<Longrightarrow> left s = (\<Sum>i\<in>A. weight (pcs s i))"
  unfolding left_def by (rule sum.mono_neutral_left) (auto simp: busy_def)

lemma busy_goto: "busy (goto i p s) \<subseteq> insert i (busy s)"
  by (auto simp: busy_def)

lemma left_goto:
  assumes "finite (busy s)"
  shows "left (goto i p s) + weight (pcs s i) = left s + weight p"
proof -
  let ?A = "insert i (busy s)"
  have fin: "finite ?A" using assms by simp
  have "left (goto i p s) = weight p + (\<Sum>j\<in>?A - {i}. weight (pcs s j))"
    using left_superset [OF fin busy_goto] fin by (simp add: sum.remove [of ?A i])
  moreover have "left s = weight (pcs s i) + (\<Sum>j\<in>?A - {i}. weight (pcs s j))"
    using left_superset [OF fin, of s] fin by (simp add: subset_insertI sum.remove [of ?A i])
  ultimately show ?thesis by simp
qed

lemma left_update [simp]:
  "left (s\<lparr>mCountOfWaiter := n\<rparr>) = left s" "left (s\<lparr>promise := f\<rparr>) = left s"
  "left (s\<lparr>mWaiter := q\<rparr>) = left s"
  "busy (s\<lparr>mCountOfWaiter := n\<rparr>) = busy s" "busy (s\<lparr>promise := f\<rparr>) = busy s"
  "busy (s\<lparr>mWaiter := q\<rparr>) = busy s"
  by (simp_all add: left_def busy_def)

lemma left_goto_update [simp]:
  "left (goto i p (s\<lparr>mCountOfWaiter := n\<rparr>)) = left (goto i p s)"
  "left (goto i p (s\<lparr>promise := f\<rparr>)) = left (goto i p s)"
  "left (goto i p (s\<lparr>mWaiter := q\<rparr>)) = left (goto i p s)"
  by (simp_all add: left_def busy_def)

lemma left_less: "finite (busy s) \<Longrightarrow> weight p < weight (pcs s i) \<Longrightarrow> left (goto i p s) < left s"
  using left_goto [of s i p] by simp

lemma finite_busy_goto [simp]: "finite (busy s) \<Longrightarrow> finite (busy (goto i p s))"
  using finite_subset [OF busy_goto] by blast

lemma cas_lock_busy: "cas_lock weak s = (res, x, t) \<Longrightarrow> busy t = busy s"
  by (auto simp: cas_lock_def split: if_splits)

lemma finite_busy_step:
  assumes "finite (busy s)"
  shows "ensures (\<lambda>t. finite (busy t)) (mutex_step pol e s)"
proof (cases e)
  case (Go i weak)
  then show ?thesis
    using assms
    by (cases "pcs s i")
      (auto simp: lock_step_def unlock_step_def Let_def cas_lock_def
        split: prod.splits sum.splits bool.splits option.splits)
qed (use assms in \<open>auto simp: try_lock_def unlock_def Let_def cas_lock_def split: prod.splits\<close>)

text \<open>A thread that is neither idle, parked nor in the critical section or unlocking can move on.\<close>

fun entering :: "lock_pc \<Rightarrow> bool" where
  "entering (Spin n) = True"
| "entering FetchAdd = True"
| "entering Enqueue = True"
| "entering AwaitReady = True"
| "entering AwaitSuspend = True"
| "entering p = False"

lemma entering_moves:
  assumes fin: "finite (busy s)" and "entering (pcs s i)"
    and safe: "\<And>f. lock_step pol i False s \<noteq> Fault f"
  shows "\<exists>t. lock_step pol i False s = Next t \<and> left t < left s"
proof -
  have "case lock_step pol i False s of Next t \<Rightarrow> left t < left s | Blocked \<Rightarrow> False | Fault f \<Rightarrow> True"
    using assms(2) fin
    by (cases "pcs s i")
      (auto simp: lock_step_def Let_def cas_lock_def intro!: left_less
        split: sum.splits bool.splits prod.splits)
  then show ?thesis using safe by (cases "lock_step pol i False s") auto
qed

lemma unlock_moves:
  assumes fin: "finite (busy s)" and pc: "pcs s i = Holding" and safe: "\<And>f. unlock i s \<noteq> Fault f"
  shows "\<exists>t. unlock i s = Next t \<and> left t < left s"
proof -
  have "case unlock i s of Next t \<Rightarrow> left t < left s | Blocked \<Rightarrow> False | Fault f \<Rightarrow> True"
    using left_less [OF fin, of _ i] pc by (auto simp: unlock_def Let_def)
  then show ?thesis using safe by (cases "unlock i s") auto
qed

lemma grant_moves:
  assumes fin: "finite (busy s)" and inv: "mutex_inv s" and pc: "pcs s i = Granting w"
  shows "\<exists>t. unlock_step pol i s = Next t \<and> left t < left s"
proof -
  from grant_inv [OF inv pc] obtain p x where
    set: "set_value () (promise s w) = Inr (x, p)" and x: "x = None \<or> x = Some w \<and> pcs s w = Parked"
    by blast
  let ?t = "goto i Idle (s\<lparr>promise := (promise s)(w := p)\<rparr>)"
  have less: "left ?t < left s" using left_less [of s Idle i] fin pc by (simp del: goto_simps)
  show ?thesis
  proof (cases x)
    case None
    with set pc less show ?thesis by (simp add: unlock_step_def)
  next
    case (Some k)
    with x have k: "k = w" "pcs s w = Parked" by auto
    then have "pcs ?t w = Parked" using pc by auto
    then have "left (goto w Holding ?t) < left ?t" using fin by (intro left_less) simp_all
    with set pc less Some k show ?thesis by (simp add: unlock_step_def)
  qed
qed

context waiter_policy
begin

text \<open>
  While a thread looks for a waiter to hand over to and the container is empty, some thread
  has counted itself and is about to enqueue.
\<close>

lemma popping_active:
  assumes inv: "mutex_inv s" and pc: "pcs s i = Popping"
  shows "mWaiter s \<noteq> [] \<or> (\<exists>j. pcs s j = Enqueue)"
proof -
  have tok: "token s i" using pc by (simp add: token_def)
  with mutex_invD(6) [OF inv] obtain j where j: "active (pcs s j)" by (metis all_not_in_conv mem_actives)
  with pc have "j \<noteq> i" by auto
  with mutex_invD(3) [OF inv tok] have nt: "\<not> token s j" by blast
  have ng: "\<not> granted s k" for k using granted_only [OF inv tok] pc by auto
  show ?thesis
  proof (cases "pcs s j = Enqueue")
    case False
    with j nt have "waiting s j" by (cases "pcs s j") (auto simp: waiting_def token_def)
    with mutex_invD(9) [OF inv] ng have "j \<in> set (mWaiter s)" by blast
    then show ?thesis by auto
  qed blast
qed

text \<open>When nobody is entering, somebody holds the lock or is handing it over.\<close>

lemma somebody_carries:
  assumes inv: "mutex_inv s" and ne: "busy s \<noteq> {}" and none: "\<nexists>i. entering (pcs s i)"
  shows "\<exists>i. carries (pcs s i)"
proof -
  from ne obtain b where b: "pcs s b \<noteq> Idle" by (auto simp: busy_def)
  have "\<exists>i. token s i"
  proof (cases "carries (pcs s b)")
    case True
    then show ?thesis by (auto simp: token_def)
  next
    case nc: False
    have "\<not> entering (pcs s b)" using none by blast
    with b nc have "active (pcs s b)" by (cases "pcs s b") simp_all
    then have "actives s \<noteq> {}" by auto
    then show ?thesis by (rule mutex_invD(7) [OF inv])
  qed
  then obtain i where tok: "token s i" by blast
  have "\<not> entering (pcs s i)" using none by blast
  then have "carries (pcs s i)"
    using tok mutex_invD(11) [OF inv, of i]
    by (cases "pcs s i") (simp_all add: token_def handle_ok_def is_ready_def)
  then show ?thesis ..
qed

lemma moves_on:
  assumes inv: "mutex_inv s" and fin: "finite (busy s)" and ne: "busy s \<noteq> {}"
  shows "\<exists>e t. mutex_step pol e s = Next t \<and> left t < left s"
proof (cases "\<exists>i. entering (pcs s i)")
  case True
  then obtain i where i: "entering (pcs s i)" by blast
  moreover from i have "\<not> unlocking (pcs s i)" by (cases "pcs s i") auto
  moreover obtain t where "lock_step pol i False s = Next t" "left t < left s"
    using entering_moves [OF fin i] safelyD(2) [OF lock_step_inv [OF inv]] by blast
  ultimately have "mutex_step pol (Go i False) s = Next t \<and> left t < left s" by simp
  then show ?thesis by blast
next
  case False
  from somebody_carries [OF inv ne False] obtain i where "carries (pcs s i)" ..
  then show ?thesis
  proof (cases "pcs s i")
    case Holding
    obtain t where "unlock i s = Next t" "left t < left s"
      using unlock_moves [OF fin Holding] safelyD(2) [OF unlock_inv [OF inv Holding]] by blast
    then have "mutex_step pol (CallUnlock i) s = Next t \<and> left t < left s" using Holding by simp
    then show ?thesis by blast
  next
    case Popping
    then have "mWaiter s \<noteq> []" using popping_active [OF inv Popping] False
      by (metis entering.simps(3))
    then have "\<exists>t. unlock_step pol i s = Next t \<and> left t < left s"
      using Popping left_less [of _ _ i] fin
      by (auto simp: unlock_step_def split: prod.splits)
    then obtain t where "mutex_step pol (Go i False) s = Next t \<and> left t < left s"
      using Popping by auto
    then show ?thesis by blast
  next
    case (Granting w)
    from grant_moves [OF fin inv Granting] obtain t
      where "mutex_step pol (Go i False) s = Next t \<and> left t < left s" using Granting by auto
    then show ?thesis by blast
  qed simp_all
qed

lemma drains:
  "mutex_inv s \<Longrightarrow> finite (busy s) \<Longrightarrow> \<exists>es t. run (mutex_step pol) es s = Next t \<and> busy t = {}"
proof (induction "left s" arbitrary: s rule: less_induct)
  case less
  show ?case
  proof (cases "busy s = {}")
    case True
    have "run (mutex_step pol) [] s = Next s" by simp
    with True show ?thesis by blast
  next
    case False
    with moves_on [OF less.prems] obtain e u where u: "mutex_step pol e s = Next u" "left u < left s"
      by blast
    have "mutex_inv u" "finite (busy u)"
      using ensuresD [OF safelyD(1) [OF mutex_step_inv [OF less.prems(1)]] u(1)]
        ensuresD [OF finite_busy_step [OF less.prems(2)] u(1)] .
    with less.hyps u(2) obtain es t where "run (mutex_step pol) es u = Next t" "busy t = {}" by blast
    with u(1) have "run (mutex_step pol) (e # es) s = Next t" by simp
    with \<open>busy t = {}\<close> show ?thesis by blast
  qed
qed

end

text \<open>The facts of the machine, for the policies to hand on.\<close>

context waiter_policy
begin

lemma mutex_run_inv: "run (mutex_step pol) es mutex_init = Next s \<Longrightarrow> mutex_inv s"
  by (rule mutex.along_run [OF mutex_inv_init])

lemma mutex_run_safe: "run (mutex_step pol) es mutex_init \<noteq> Fault f"
  by (rule mutex.run_no_fault [OF mutex_inv_init])

lemma mutex_run_busy:
  "finite (busy s) \<Longrightarrow> run (mutex_step pol) es s = Next t \<Longrightarrow> finite (busy t)"
  by (induction es arbitrary: s) (auto dest: ensuresD [OF finite_busy_step] simp del: mutex_step.simps)

end

section \<open>The properties of the mutex\<close>

text \<open>The two policies of the code.\<close>

definition code_policy :: "policy \<Rightarrow> bool" where
  "code_policy pol \<longleftrightarrow> pol = FairPolicy \<or> pol = HighThroughputPolicy"

lemma code_policyE:
  assumes "code_policy pol" "P FairPolicy" "P HighThroughputPolicy"
  shows "P pol"
  using assms by (auto simp: code_policy_def)

lemma code_policy_inv:
  "code_policy pol \<Longrightarrow> run (mutex_step pol) es mutex_init = Next s \<Longrightarrow> mutex_inv s"
  using fair.mutex_run_inv throughput.mutex_run_inv by (auto simp: code_policy_def)

lemma idle_destroy: "mutex_inv s \<Longrightarrow> \<forall>i. pcs s i = Idle \<Longrightarrow> mutex_destroy s = Inr ()"
  using mutex_invD(4) [of s] by (auto simp: mutex_destroy_def actives_def)

text \<open>
  A contended run: thread 0 locks, thread 1 spins eight times, queues and parks, thread 0
  unlocks and hands the lock to thread 1.
\<close>

definition contended :: "mutex_event list" where
  "contended = [CallLock 0, Go 0 False, CallLock 1] @ replicate 12 (Go 1 False) @
     [CallUnlock 0, Go 0 False, Go 0 False]"

definition contended_end :: mutex where
  "contended_end = \<lparr>mCountOfWaiter = 1, mWaiter = [],
     pcs = (\<lambda>i. Idle)(1 := Holding),
     promise = (\<lambda>i. LightFutureData)(1 := \<lparr>continuationPtr = InvalidHandle, val = Placeholder ()\<rparr>)\<rparr>"

lemma contended_run: "run (mutex_step FairPolicy) contended mutex_init = Next contended_end"
  by (simp add: contended_def contended_end_def mutex_init_def numeral_eq_Suc lock_step_def
      unlock_step_def cas_lock_def unlock_def goto_def future_defs FairPolicy_def fun_upd_def fun_eq_iff)

text \<open>
  C1. Mutual exclusion: under both policies and every schedule, spurious failures of the weak
  compare-exchange included, two threads are never in the critical section together.
\<close>

theorem mutual_exclusion:
  assumes "code_policy pol" "run (mutex_step pol) es mutex_init = Next s"
    and "pcs s i = Holding" "pcs s j = Holding"
  shows "i = j"
  using mutex_invD(3) [OF code_policy_inv [OF assms(1,2)], of i j] assms(3,4)
  by (simp add: token_def)

theorem mutual_exclusion_witness:
  "run (mutex_step FairPolicy) contended mutex_init = Next contended_end \<and>
   pcs contended_end 1 = Holding \<and> \<not> pcs contended_end 0 = Holding"
proof -
  have "code_policy FairPolicy" by (simp add: code_policy_def)
  moreover have "pcs contended_end 1 = Holding" by (simp add: contended_end_def)
  ultimately show ?thesis
    using mutual_exclusion [OF _ contended_run, of 0 1] contended_run by auto
qed

text \<open>
  C4. No assertion of the mutex fails and no promise is set twice or waited on twice, under
  both policies; the counter is the number of threads between their increment and their
  \<^verbatim>\<open>unlock\<close>; and once every thread is done the mutex can be destroyed.
\<close>

theorem mutex_no_fault:
  assumes "code_policy pol"
  shows "run (mutex_step pol) es mutex_init \<noteq> Fault f \<and>
    (\<forall>s. run (mutex_step pol) es mutex_init = Next s \<longrightarrow>
       mCountOfWaiter s = int (card {i. active (pcs s i)}) \<and>
       ((\<forall>i. pcs s i = Idle) \<longrightarrow> mutex_destroy s = Inr ()))"
proof -
  have "run (mutex_step pol) es mutex_init \<noteq> Fault f"
    using assms fair.mutex_run_safe throughput.mutex_run_safe by (auto simp: code_policy_def)
  moreover have "mCountOfWaiter s = int (card {i. active (pcs s i)})"
    if "run (mutex_step pol) es mutex_init = Next s" for s
    using mutex_invD(2) [OF code_policy_inv [OF assms that]] by (simp add: actives_def)
  moreover have "mutex_destroy s = Inr ()"
    if "run (mutex_step pol) es mutex_init = Next s" "\<forall>i. pcs s i = Idle" for s
    using idle_destroy [OF code_policy_inv [OF assms that(1)] that(2)] .
  ultimately show ?thesis by blast
qed

theorem mutex_no_fault_witness:
  "run (mutex_step HighThroughputPolicy) contended mutex_init \<noteq> Fault NullDeref \<and>
   mCountOfWaiter contended_end = int (card {i. active (pcs contended_end i)})"
proof -
  have "code_policy HighThroughputPolicy" "code_policy FairPolicy" by (simp_all add: code_policy_def)
  with mutex_no_fault contended_run show ?thesis by blast
qed

text \<open>\<^verbatim>\<open>unlock\<close> gives the lock to waiting threads only.\<close>

lemma unlock_step_holders:
  assumes inv: "mutex_inv s" and step: "unlock_step pol k s = Next t" and hold: "pcs t i = Holding"
  shows "active (pcs s i)"
proof (cases "pcs s k")
  case Popping
  with step hold show ?thesis
    by (auto simp: unlock_step_def split: if_splits prod.splits)
next
  case (Granting w)
  from grant_inv [OF inv Granting] obtain p x where
    "set_value () (promise s w) = Inr (x, p)" "x = None \<or> x = Some w \<and> pcs s w = Parked" by blast
  with Granting step hold show ?thesis by (auto simp: unlock_step_def split: if_splits)
qed (use step in \<open>simp_all add: unlock_step_def\<close>)

text \<open>
  No barging: a thread that is not waiting in the queue (it calls \<^verbatim>\<open>try_lock\<close>, spins or is
  at its increment) gets the lock only when no thread is counted at all, so it can never
  overtake one that waits.
\<close>

lemma lock_no_barging:
  assumes "code_policy pol" "run (mutex_step pol) es mutex_init = Next s"
    and "mutex_step pol e s = Next t"
    and "\<not> active (pcs s i)" "pcs t i = Holding"
  shows "\<forall>j. \<not> active (pcs s j)"
proof -
  have inv: "mutex_inv s" using code_policy_inv [OF assms(1,2)] .
  have "mCountOfWaiter s = 0"
  proof (cases e)
    case (CallTryLock k weak)
    with assms(3-5) show ?thesis
      by (auto simp: try_lock_def cas_lock_def split: if_splits)
  next
    case (Go k weak)
    show ?thesis
    proof (cases "unlocking (pcs s k)")
      case True
      with Go assms(3) have "unlock_step pol k s = Next t" by simp
      with unlock_step_holders [OF inv _ assms(5)] assms(4) show ?thesis by blast
    next
      case False
      with Go assms(3-5) show ?thesis
        by (cases "pcs s k")
          (auto simp: lock_step_def cas_lock_def Let_def split: if_splits sum.splits bool.splits prod.splits)
    qed
  qed (use assms(3-5) in \<open>auto simp: unlock_def Let_def split: if_splits\<close>)
  then show ?thesis using mutex_invD(4) [OF inv] by auto
qed

lemma lock_no_barging_witness:
  "\<exists>t. mutex_step FairPolicy (CallTryLock 5 False) mutex_init = Next t \<and> pcs t 5 = Holding \<and>
     (\<forall>j. \<not> active (pcs mutex_init j))"
proof -
  have r: "run (mutex_step FairPolicy) [] mutex_init = Next mutex_init" by simp
  obtain t where t: "mutex_step FairPolicy (CallTryLock 5 False) mutex_init = Next t"
    and h: "pcs t 5 = Holding"
    by (simp add: mutex_init_def try_lock_def cas_lock_def)
  have "code_policy FairPolicy" by (simp add: code_policy_def)
  moreover have "\<not> active (pcs mutex_init 5)" by (simp add: mutex_init_def)
  ultimately have "\<forall>j. \<not> active (pcs mutex_init j)" using lock_no_barging [OF _ r t _ h] by blast
  with t h show ?thesis by blast
qed



text \<open>
  The loop in \<^verbatim>\<open>unlock\<close> that waits for a waiter to show up in the container only spins
  while some thread has counted itself and is about to add itself, so it cannot spin for ever
  on a waiter that never comes.
\<close>

lemma unlock_spins_for_an_enqueuer:
  assumes "code_policy pol" "run (mutex_step pol) es mutex_init = Next s"
    and "pcs s i = Popping" "mWaiter s = []"
  shows "\<exists>j t. pcs s j = Enqueue \<and> mutex_step pol (Go j weak) s = Next t \<and> mWaiter t = [j]"
proof -
  have inv: "mutex_inv s" using code_policy_inv [OF assms(1,2)] .
  have "\<exists>j. pcs s j = Enqueue"
    using assms(1,3,4) fair.popping_active [OF inv] throughput.popping_active [OF inv]
    by (metis code_policy_def)
  moreover have "addToWaiter pol [] j = [j]" for j
    using assms(1) by (auto simp: code_policy_def FairPolicy_def HighThroughputPolicy_def)
  ultimately show ?thesis using assms(4) by (auto simp: lock_step_def)
qed

definition early_unlock :: "mutex_event list" where
  "early_unlock = [CallLock 0, Go 0 False, CallLock 1] @ replicate 9 (Go 1 False) @ [CallUnlock 0]"

lemma unlock_spins_for_an_enqueuer_witness:
  "\<exists>s. run (mutex_step FairPolicy) early_unlock mutex_init = Next s \<and> pcs s 0 = Popping \<and>
     (\<exists>j t. pcs s j = Enqueue \<and> mutex_step FairPolicy (Go j False) s = Next t \<and> mWaiter t = [j])"
proof -
  obtain s where s: "run (mutex_step FairPolicy) early_unlock mutex_init = Next s"
    and p: "pcs s 0 = Popping" "mWaiter s = []"
    by (simp add: early_unlock_def mutex_init_def numeral_eq_Suc lock_step_def cas_lock_def
        unlock_def goto_def)
  have "code_policy FairPolicy" by (simp add: code_policy_def)
  from unlock_spins_for_an_enqueuer [OF this s p] s p(1) show ?thesis by blast
qed

text \<open>
  C2. No deadlock: from whatever state a run has led to, the threads can be scheduled so that
  everyone gets the lock, leaves it and ends idle, after which the counter is 0 and the
  destructor's assertion holds.
\<close>

theorem mutex_drains:
  assumes "code_policy pol" "run (mutex_step pol) es mutex_init = Next s"
  shows "\<exists>fs t. run (mutex_step pol) fs s = Next t \<and> (\<forall>i. pcs t i = Idle) \<and>
    mutex_destroy t = Inr ()"
proof -
  have inv: "mutex_inv s" using code_policy_inv [OF assms] .
  have "finite (busy mutex_init)" by (simp add: busy_def mutex_init_def)
  then have fin: "finite (busy s)"
    using assms fair.mutex_run_busy throughput.mutex_run_busy unfolding code_policy_def by blast
  have "\<exists>fs t. run (mutex_step pol) fs s = Next t \<and> busy t = {}"
    by (rule code_policyE [OF assms(1)]) (rule fair.drains [OF inv fin] throughput.drains [OF inv fin])+
  then obtain fs t where t: "run (mutex_step pol) fs s = Next t" "busy t = {}" by blast
  then have idle: "\<forall>i. pcs t i = Idle" by (auto simp: busy_def)
  have "run (mutex_step pol) (es @ fs) mutex_init = Next t" using assms(2) t(1) by (simp add: run_append)
  then have "mutex_destroy t = Inr ()"
    using idle_destroy [OF code_policy_inv [OF assms(1)]] idle by blast
  with t idle show ?thesis by blast
qed

theorem mutex_drains_witness:
  "\<exists>fs t. run (mutex_step FairPolicy) fs contended_end = Next t \<and> (\<forall>i. pcs t i = Idle) \<and>
    mutex_destroy t = Inr ()"
  by (rule mutex_drains [OF _ contended_run]) (simp add: code_policy_def)

end
