(* ===== verification/Unbuffered.thy ===== *)
theory Unbuffered
  imports Future
begin

text \<open>
  \<^verbatim>\<open>UnbufferedChannel\<close> of \<^verbatim>\<open>include/co/channel.hpp\<close>: one sender and one receiver that meet
  over two futures, cut into the steps of \<^verbatim>\<open>push\<close>, \<^verbatim>\<open>pop\<close>, \<^verbatim>\<open>closeSender\<close> and
  \<^verbatim>\<open>closeReceiver\<close> between which the other party can move. A \<^verbatim>\<open>set_value\<close> is one step: what it
  writes is read by nobody before its exchange (theory \<open>FutureWait\<close>).
\<close>

section \<open>The machine\<close>

text \<open>
  The channel hands a pointer to the sender's local variable \<^verbatim>\<open>val\<close> over. \<open>frame\<close> is that
  variable: it exists while the sender is inside \<^verbatim>\<open>push\<close>.
\<close>

datatype party = SenderParty | ReceiverParty

datatype ptr = NullPtr | FramePtr

text \<open>
  The sender: \<open>SSet\<close> is about to offer its value, \<open>SAwaitReady\<close>, \<open>SAwaitSuspend\<close>,
  \<open>SParked\<close> and \<open>SResume\<close> are \<^verbatim>\<open>co::await(*valueRead)\<close>. \<open>SRejected\<close> is a sender that was
  told the receiver is gone.
\<close>

datatype send_pc =
  SIdle | SSet | SAwaitReady | SAwaitSuspend | SParked | SResume | SRejected | SClosed

text \<open>
  The receiver, in \<^verbatim>\<open>pop\<close> or in \<^verbatim>\<open>closeReceiver\<close>: both await \<^verbatim>\<open>*value\<close>, renew it and answer
  the sender.
\<close>

datatype recv_call = Pop | Close

datatype recv_pc =
  RIdle | RAwaitReady recv_call | RAwaitSuspend recv_call | RParked recv_call | RResume recv_call
  | REmplace recv_call | RAnswer recv_call | RClosed

record 'a unbuffered =
  chValue :: "(party, ptr) light_future"
  chValueRead :: "(party, bool) light_future"
  frame :: "'a option"
  spc :: send_pc
  rpc :: recv_pc

definition unbuffered_init :: "'a unbuffered" where
  "unbuffered_init = \<lparr>chValue = LightFutureData, chValueRead = LightFutureData, frame = None,
     spc = SIdle, rpc = RIdle\<rparr>"

text \<open>Calling a continuation resumes the party it belongs to.\<close>

fun wake :: "party option \<Rightarrow> 'a unbuffered \<Rightarrow> 'a unbuffered" where
  "wake None s = s"
| "wake (Some SenderParty) s = s\<lparr>spc := SResume\<rparr>"
| "wake (Some ReceiverParty) s =
     (case rpc s of RParked c \<Rightarrow> s\<lparr>rpc := RResume c\<rparr> | _ \<Rightarrow> s)"

definition offer :: "ptr \<Rightarrow> send_pc \<Rightarrow> 'a unbuffered \<Rightarrow> 'a unbuffered outcome" where
  "offer p pc' s =
     (case set_value p (chValue s) of
        Inl e \<Rightarrow> Fault e
      | Inr (w, f) \<Rightarrow> Next (wake w (s\<lparr>chValue := f, spc := pc'\<rparr>)))"

definition closeSender :: "'a unbuffered \<Rightarrow> 'a unbuffered outcome" where
  "closeSender s = offer NullPtr SClosed s"

text \<open>The steps of \<^verbatim>\<open>push\<close>; the last one renews \<^verbatim>\<open>valueRead\<close> and returns the answer.\<close>

definition push_step :: "'a unbuffered \<Rightarrow> 'a unbuffered outcome" where
  "push_step s =
     (case spc s of
        SSet \<Rightarrow> offer FramePtr SAwaitReady s
      | SAwaitReady \<Rightarrow>
          (if await_ready (chValueRead s) then Next (s\<lparr>spc := SResume\<rparr>)
           else Next (s\<lparr>spc := SAwaitSuspend\<rparr>))
      | SAwaitSuspend \<Rightarrow>
          (case await_suspend SenderParty (chValueRead s) of
             Inl e \<Rightarrow> Fault e
           | Inr (True, f) \<Rightarrow> Next (s\<lparr>chValueRead := f, spc := SParked\<rparr>)
           | Inr (False, f) \<Rightarrow> Next (s\<lparr>chValueRead := f, spc := SResume\<rparr>))
      | SResume \<Rightarrow>
          (case await_resume (chValueRead s) of
             Inr (Inr res) \<Rightarrow>
               Next (s\<lparr>chValueRead := LightFutureData, frame := None,
                       spc := (if res then SIdle else SRejected)\<rparr>)
           | Inr (Inl ex) \<Rightarrow> Fault (AssertFailed ''push'')
           | Inl e \<Rightarrow> Fault e)
      | _ \<Rightarrow> Blocked)"

text \<open>
  The steps of \<^verbatim>\<open>pop\<close> and \<^verbatim>\<open>closeReceiver\<close>. \<open>RResume Pop\<close> is where \<^verbatim>\<open>await\<close> returns the
  pointer: a null pointer ends \<^verbatim>\<open>pop\<close> with nothing, otherwise \<^verbatim>\<open>*ptr\<close> is moved out.
\<close>

definition pop_step :: "'a unbuffered \<Rightarrow> 'a unbuffered outcome" where
  "pop_step s =
     (case rpc s of
        RAwaitReady c \<Rightarrow>
          (if await_ready (chValue s) then Next (s\<lparr>rpc := RResume c\<rparr>)
           else Next (s\<lparr>rpc := RAwaitSuspend c\<rparr>))
      | RAwaitSuspend c \<Rightarrow>
          (case await_suspend ReceiverParty (chValue s) of
             Inl e \<Rightarrow> Fault e
           | Inr (True, f) \<Rightarrow> Next (s\<lparr>chValue := f, rpc := RParked c\<rparr>)
           | Inr (False, f) \<Rightarrow> Next (s\<lparr>chValue := f, rpc := RResume c\<rparr>))
      | RResume Pop \<Rightarrow>
          (case await_resume (chValue s) of
             Inr (Inr NullPtr) \<Rightarrow> Next (s\<lparr>rpc := RIdle\<rparr>)
           | Inr (Inr FramePtr) \<Rightarrow>
               (case frame s of None \<Rightarrow> Fault UseAfterFree | Some v \<Rightarrow> Next (s\<lparr>rpc := REmplace Pop\<rparr>))
           | Inr (Inl ex) \<Rightarrow> Fault (AssertFailed ''pop'')
           | Inl e \<Rightarrow> Fault e)
      | RResume Close \<Rightarrow>
          (case await_resume (chValue s) of
             Inl e \<Rightarrow> Fault e | Inr r \<Rightarrow> Next (s\<lparr>rpc := REmplace Close\<rparr>))
      | REmplace c \<Rightarrow> Next (s\<lparr>chValue := LightFutureData, rpc := RAnswer c\<rparr>)
      | RAnswer c \<Rightarrow>
          (case set_value (c = Pop) (chValueRead s) of
             Inl e \<Rightarrow> Fault e
           | Inr (w, f) \<Rightarrow>
               Next (wake w (s\<lparr>chValueRead := f, rpc := (if c = Pop then RIdle else RClosed)\<rparr>)))
      | _ \<Rightarrow> Blocked)"

text \<open>
  The calls, under the contract of a single producer and a single consumer: one call at a
  time on each side, no push after a rejected one, each side closed once and last.
\<close>

datatype 'a channel_event =
  CallPush 'a | CallCloseSender | CallPop | CallCloseReceiver | GoSender | GoReceiver

fun unbuffered_step :: "('a channel_event, 'a unbuffered) machine" where
  "unbuffered_step (CallPush v) s =
     (if spc s = SIdle then Next (s\<lparr>frame := Some v, spc := SSet\<rparr>) else Blocked)"
| "unbuffered_step CallCloseSender s =
     (if spc s = SIdle \<or> spc s = SRejected then closeSender s else Blocked)"
| "unbuffered_step CallPop s = (if rpc s = RIdle then Next (s\<lparr>rpc := RAwaitReady Pop\<rparr>) else Blocked)"
| "unbuffered_step CallCloseReceiver s =
     (if rpc s = RIdle then Next (s\<lparr>rpc := RAwaitReady Close\<rparr>) else Blocked)"
| "unbuffered_step GoSender s = push_step s"
| "unbuffered_step GoReceiver s = pop_step s"

section \<open>The invariant\<close>

text \<open>A push between its offer and the receiver's answer, and between the answer and its return.\<close>

fun in_push :: "send_pc \<Rightarrow> bool" where
  "in_push SAwaitReady = True"
| "in_push SAwaitSuspend = True"
| "in_push SParked = True"
| "in_push SResume = True"
| "in_push p = False"

definition offered :: "'a unbuffered \<Rightarrow> bool" where
  "offered s \<longleftrightarrow> in_push (spc s) \<and> \<not> is_ready (chValueRead s)"

definition answered :: "'a unbuffered \<Rightarrow> bool" where
  "answered s \<longleftrightarrow> in_push (spc s) \<and> is_ready (chValueRead s)"

fun parked :: "recv_pc \<Rightarrow> bool" where
  "parked (RParked c) = True"
| "parked p = False"

fun taking :: "recv_pc \<Rightarrow> bool" where
  "taking (RResume c) = True"
| "taking (REmplace c) = True"
| "taking p = False"

fun answering :: "recv_pc \<Rightarrow> bool" where
  "answering (RAnswer c) = True"
| "answering p = False"

text \<open>What the two futures hold in each state.\<close>

definition value_ok :: "'a unbuffered \<Rightarrow> bool" where
  "value_ok s \<longleftrightarrow>
     (if offered s \<and> \<not> answering (rpc s)
      then chValue s = \<lparr>continuationPtr = InvalidHandle, val = Placeholder FramePtr\<rparr>
      else if spc s = SClosed \<and> \<not> answering (rpc s) \<and> rpc s \<noteq> RClosed
      then chValue s = \<lparr>continuationPtr = InvalidHandle, val = Placeholder NullPtr\<rparr>
      else spc s = SClosed \<and> rpc s = RClosed \<or>
        chValue s = \<lparr>continuationPtr = (if parked (rpc s) then Handle ReceiverParty else EmptyHandle),
                     val = Unset\<rparr>)"

definition valueRead_ok :: "'a unbuffered \<Rightarrow> bool" where
  "valueRead_ok s \<longleftrightarrow>
     (if answered s
      then chValueRead s = \<lparr>continuationPtr = InvalidHandle, val = Placeholder (rpc s \<noteq> RClosed)\<rparr> \<and>
           spc s \<noteq> SParked
      else spc s = SClosed \<and> rpc s = RClosed \<or>
        chValueRead s = \<lparr>continuationPtr = (if spc s = SParked then Handle SenderParty else EmptyHandle),
                         val = Unset\<rparr>)"

definition unbuffered_inv :: "'a unbuffered \<Rightarrow> bool" where
  "unbuffered_inv s \<longleftrightarrow> value_ok s \<and> valueRead_ok s \<and>
     (frame s \<noteq> None \<longleftrightarrow> spc s = SSet \<or> in_push (spc s)) \<and>
     (spc s = SResume \<longrightarrow> answered s) \<and>
     (taking (rpc s) \<or> answering (rpc s) \<longrightarrow> offered s \<or> spc s = SClosed) \<and>
     (rpc s = REmplace Pop \<or> rpc s = RAnswer Pop \<longrightarrow> offered s) \<and>
     (parked (rpc s) \<longrightarrow> \<not> offered s \<and> spc s \<noteq> SClosed \<and> spc s \<noteq> SRejected) \<and>
     (spc s = SRejected \<longrightarrow> rpc s = RClosed) \<and>
     (rpc s = RClosed \<longrightarrow> answered s \<or> spc s = SRejected \<or> spc s = SClosed)"

lemmas unbuffered_inv_defs = unbuffered_inv_def value_ok_def valueRead_ok_def offered_def answered_def

lemma unbuffered_inv_init: "unbuffered_inv unbuffered_init"
  by (simp add: unbuffered_inv_defs unbuffered_init_def LightFutureData_def is_ready_def)

lemma push_step_inv: "unbuffered_inv s \<Longrightarrow> safely unbuffered_inv (push_step s)"
  by (cases "spc s"; cases "rpc s")
    (auto simp: unbuffered_inv_defs push_step_def offer_def future_defs split: if_splits)

lemma pop_step_inv: "unbuffered_inv s \<Longrightarrow> safely unbuffered_inv (pop_step s)"
proof (cases "rpc s")
  case (RResume c)
  then show "unbuffered_inv s \<Longrightarrow> ?thesis"
    by (cases c; cases "spc s")
      (auto simp: unbuffered_inv_defs pop_step_def future_defs split: if_splits)
next
  case (RAnswer c)
  then show "unbuffered_inv s \<Longrightarrow> ?thesis"
    by (cases c; cases "spc s")
      (auto simp: unbuffered_inv_defs pop_step_def future_defs split: if_splits)
next
  case (REmplace c)
  then show "unbuffered_inv s \<Longrightarrow> ?thesis"
    by (cases c; cases "spc s")
      (auto simp: unbuffered_inv_defs pop_step_def future_defs split: if_splits)
qed (auto simp: unbuffered_inv_defs pop_step_def future_defs split: if_splits)

lemma close_sender_inv:
  "unbuffered_inv s \<Longrightarrow> spc s = SIdle \<or> spc s = SRejected \<Longrightarrow> safely unbuffered_inv (closeSender s)"
  by (cases "rpc s"; cases "spc s")
    (auto simp: unbuffered_inv_defs closeSender_def offer_def future_defs split: if_splits)

lemma unbuffered_step_inv: "unbuffered_inv s \<Longrightarrow> safely unbuffered_inv (unbuffered_step e s)"
proof (cases e)
  case (CallPush v)
  then show "unbuffered_inv s \<Longrightarrow> ?thesis"
    by (cases "rpc s"; cases "spc s") (auto simp: unbuffered_inv_defs)
next
  case CallPop
  then show "unbuffered_inv s \<Longrightarrow> ?thesis"
    by (cases "rpc s"; cases "spc s") (auto simp: unbuffered_inv_defs)
next
  case CallCloseReceiver
  then show "unbuffered_inv s \<Longrightarrow> ?thesis"
    by (cases "rpc s"; cases "spc s") (auto simp: unbuffered_inv_defs)
qed (simp_all add: push_step_inv pop_step_inv close_sender_inv)

interpretation unbuffered: safe_invariant unbuffered_step unbuffered_init unbuffered_inv
  by unfold_locales (simp_all add: unbuffered_inv_init unbuffered_step_inv safelyD(1)
      del: unbuffered_step.simps)

section \<open>What goes through the channel\<close>

text \<open>
  The observations of a run: a value is sent when its pointer is offered, received when it
  is moved out; \<^verbatim>\<open>pop\<close> may also report the end of the stream, and \<^verbatim>\<open>push\<close> returns its answer.
\<close>

datatype 'a stream_obs = Sent 'a | Received 'a | EndOfStream | Acked bool

definition push_obs :: "'a unbuffered \<Rightarrow> 'a stream_obs list" where
  "push_obs s =
     (case spc s of
        SSet \<Rightarrow> (case frame s of Some v \<Rightarrow> [Sent v] | None \<Rightarrow> [])
      | SResume \<Rightarrow> (case await_resume (chValueRead s) of Inr (Inr res) \<Rightarrow> [Acked res] | _ \<Rightarrow> [])
      | _ \<Rightarrow> [])"

definition pop_obs :: "'a unbuffered \<Rightarrow> 'a stream_obs list" where
  "pop_obs s =
     (if rpc s = RResume Pop
      then (case await_resume (chValue s) of
              Inr (Inr NullPtr) \<Rightarrow> [EndOfStream]
            | Inr (Inr FramePtr) \<Rightarrow> (case frame s of Some v \<Rightarrow> [Received v] | None \<Rightarrow> [])
            | _ \<Rightarrow> [])
      else [])"

fun unbuffered_obs :: "'a channel_event \<Rightarrow> 'a unbuffered \<Rightarrow> 'a stream_obs list" where
  "unbuffered_obs GoSender s = push_obs s"
| "unbuffered_obs GoReceiver s = pop_obs s"
| "unbuffered_obs e s = []"

fun sents :: "'a stream_obs list \<Rightarrow> 'a list" where
  "sents [] = []"
| "sents (Sent v # h) = v # sents h"
| "sents (x # h) = sents h"

fun recvs :: "'a stream_obs list \<Rightarrow> 'a list" where
  "recvs [] = []"
| "recvs (Received v # h) = v # recvs h"
| "recvs (x # h) = recvs h"

fun acks :: "'a stream_obs list \<Rightarrow> nat" where
  "acks [] = 0"
| "acks (Acked res # h) = (if res then Suc (acks h) else acks h)"
| "acks (x # h) = acks h"

lemma sents_append [simp]: "sents (h @ k) = sents h @ sents k"
  by (induction h rule: sents.induct) simp_all

lemma recvs_append [simp]: "recvs (h @ k) = recvs h @ recvs k"
  by (induction h rule: recvs.induct) simp_all

lemma acks_append [simp]: "acks (h @ k) = acks h + acks k"
  by (induction h rule: acks.induct) simp_all

fun closing :: "recv_pc \<Rightarrow> bool" where
  "closing (REmplace c) = (c = Close)"
| "closing (RAnswer c) = (c = Close)"
| "closing RClosed = True"
| "closing p = False"

fun took :: "recv_pc \<Rightarrow> bool" where
  "took (REmplace c) = (c = Pop)"
| "took (RAnswer c) = (c = Pop)"
| "took p = False"

definition in_flight :: "'a unbuffered \<Rightarrow> 'a list" where
  "in_flight s = (if offered s \<and> \<not> took (rpc s) then (case frame s of Some v \<Rightarrow> [v] | None \<Rightarrow> []) else [])"

text \<open>
  What was sent is what was received, followed by the one value in flight; the pushes that
  returned true are as many as the values received, up to the one whose answer is on its way.
  Once the receiver is closing, at most one value was sent and not received.
\<close>

definition lost_one :: "'a list \<Rightarrow> 'a list \<Rightarrow> bool" where
  "lost_one xs ys \<longleftrightarrow> (\<exists>zs. xs = ys @ zs \<and> length zs \<le> 1)"

lemma lost_one_simps [simp]: "lost_one xs xs" "lost_one (xs @ [x]) xs"
  by (auto simp: lost_one_def)

definition log_ok :: "'a unbuffered \<Rightarrow> 'a stream_obs list \<Rightarrow> bool" where
  "log_ok s h \<longleftrightarrow>
     (if closing (rpc s) then lost_one (sents h) (recvs h) \<and> acks h = length (recvs h)
      else sents h = recvs h @ in_flight s \<and>
           length (recvs h) = acks h + (if took (rpc s) \<or> answered s then 1 else 0))"

definition ended :: "'a unbuffered \<Rightarrow> 'a stream_obs list \<Rightarrow> bool" where
  "ended s h \<longleftrightarrow> (EndOfStream \<in> set h \<longrightarrow> spc s = SClosed \<and> sents h = recvs h)"

definition stream_inv :: "'a unbuffered \<times> 'a stream_obs list \<Rightarrow> bool" where
  "stream_inv sh \<longleftrightarrow> (case sh of (s, h) \<Rightarrow> unbuffered_inv s \<and> log_ok s h \<and> ended s h)"

lemma stream_inv_init: "stream_inv (unbuffered_init, [])"
  by (simp add: stream_inv_def unbuffered_inv_init log_ok_def ended_def)
    (simp add: unbuffered_init_def in_flight_def offered_def answered_def)

text \<open>What the invariant says about the sender and the receiver in the states that log something.\<close>

lemma push_resume_facts:
  assumes "unbuffered_inv s" "spc s = SResume"
  shows "chValueRead s = \<lparr>continuationPtr = InvalidHandle, val = Placeholder (rpc s \<noteq> RClosed)\<rparr>"
    "answered s" "\<not> offered s" "\<not> taking (rpc s)" "\<not> answering (rpc s)"
  using assms by (auto simp: unbuffered_inv_def valueRead_ok_def offered_def answered_def)

lemma log_push_resume:
  assumes inv: "unbuffered_inv s" and pc: "spc s = SResume" and log: "log_ok s h" "ended s h"
  shows "ensures (\<lambda>t. log_ok t (h @ push_obs s) \<and> ended t (h @ push_obs s)) (push_step s)"
proof -
  note f = push_resume_facts [OF inv pc]
  show ?thesis
    using log f(1-3) pc f(4,5)
    by (cases "rpc s")
      (auto simp: push_step_def push_obs_def future_defs log_ok_def ended_def in_flight_def
        offered_def answered_def)
qed

lemmas log_defs = log_ok_def ended_def in_flight_def offered_def answered_def

text \<open>Steps that leave the hand-over where it is leave the log as it is.\<close>

lemma log_cong:
  assumes "log_ok s h" "ended s h" "rpc t = rpc s" "frame t = frame s" "spc t = SClosed \<longleftrightarrow> spc s = SClosed"
    "in_push (spc t) \<longleftrightarrow> in_push (spc s)" "is_ready (chValueRead t) \<longleftrightarrow> is_ready (chValueRead s)"
  shows "log_ok t h \<and> ended t h"
  using assms by (simp add: log_defs)

lemma push_set_facts:
  assumes "unbuffered_inv s" "spc s = SSet"
  shows "\<exists>v. frame s = Some v" "\<not> taking (rpc s)" "\<not> answering (rpc s)" "rpc s \<noteq> RClosed"
    "chValue s = \<lparr>continuationPtr = (if parked (rpc s) then Handle ReceiverParty else EmptyHandle),
                  val = Unset\<rparr>"
    "chValueRead s = \<lparr>continuationPtr = EmptyHandle, val = Unset\<rparr>"
  using assms by (auto simp: unbuffered_inv_defs)

lemma log_push_set:
  assumes inv: "unbuffered_inv s" and pc: "spc s = SSet" and log: "log_ok s h" "ended s h"
  shows "ensures (\<lambda>t. log_ok t (h @ push_obs s) \<and> ended t (h @ push_obs s)) (push_step s)"
proof -
  note f = push_set_facts [OF inv pc]
  from f(1) obtain v where v: "frame s = Some v" ..
  show ?thesis
    using log f(2-4)
    by (cases "rpc s")
      (simp_all add: push_step_def push_obs_def offer_def future_defs log_defs f(5,6) v pc)
qed

lemma log_push_await:
  assumes pc: "spc s = SAwaitReady \<or> spc s = SAwaitSuspend" and log: "log_ok s h" "ended s h"
  shows "ensures (\<lambda>t. log_ok t (h @ push_obs s) \<and> ended t (h @ push_obs s)) (push_step s)"
  using pc log_cong [OF log]
  by (auto simp: push_step_def push_obs_def future_defs split: handle.splits)

lemma log_push:
  assumes "unbuffered_inv s" "log_ok s h" "ended s h"
  shows "ensures (\<lambda>t. log_ok t (h @ push_obs s) \<and> ended t (h @ push_obs s)) (push_step s)"
proof (cases "spc s")
  case SSet
  with assms show ?thesis by (simp add: log_push_set)
next
  case SResume
  with assms show ?thesis by (simp add: log_push_resume)
next
  case SAwaitReady
  with assms show ?thesis by (simp add: log_push_await)
next
  case SAwaitSuspend
  with assms show ?thesis by (simp add: log_push_await)
qed (simp_all add: push_step_def)

text \<open>The receiver's steps.\<close>

lemma taking_facts:
  assumes "unbuffered_inv s" "taking (rpc s)"
  shows "\<not> answered s \<and> (offered s \<or> spc s = SClosed) \<and> (spc s = SClosed \<longrightarrow> \<not> offered s) \<and>
    (offered s \<longrightarrow> frame s \<noteq> None) \<and>
    chValue s = \<lparr>continuationPtr = InvalidHandle,
      val = Placeholder (if offered s then FramePtr else NullPtr)\<rparr>"
  using assms
  by (cases "spc s"; cases "rpc s"; simp add: unbuffered_inv_defs)

lemma answering_facts:
  assumes "unbuffered_inv s" "rpc s = RAnswer c"
  shows "\<not> answered s \<and> (offered s \<or> c = Close \<and> spc s = SClosed) \<and> (spc s = SClosed \<longrightarrow> \<not> offered s) \<and>
    (offered s \<longrightarrow> frame s \<noteq> None) \<and>
    chValueRead s = \<lparr>continuationPtr = (if spc s = SParked then Handle SenderParty else EmptyHandle),
                     val = Unset\<rparr>"
  using assms
  by (cases c; cases "spc s"; simp add: unbuffered_inv_defs)

lemma emplace_facts:
  assumes "unbuffered_inv s" "rpc s = REmplace Pop"
  shows "offered s"
  using assms by (simp add: unbuffered_inv_def)

lemma log_pop_resume:
  assumes inv: "unbuffered_inv s" and pc: "rpc s = RResume c" and log: "log_ok s h" "ended s h"
  shows "ensures (\<lambda>t. log_ok t (h @ pop_obs s) \<and> ended t (h @ pop_obs s)) (pop_step s)"
proof -
  from inv pc have f: "\<not> answered s" "offered s \<or> spc s = SClosed" "spc s = SClosed \<longrightarrow> \<not> offered s"
    "offered s \<longrightarrow> frame s \<noteq> None" "chValue s = \<lparr>continuationPtr = InvalidHandle,
      val = Placeholder (if offered s then FramePtr else NullPtr)\<rparr>"
    using taking_facts [OF inv] by simp_all
  show ?thesis
  proof (cases "offered s")
    case True
    with f(4) obtain v where v: "frame s = Some v" by auto
    show ?thesis using True f(1,3) log pc
      by (cases c) (auto simp: pop_step_def pop_obs_def future_defs log_defs f(5) v)
  next
    case False
    with f(2) have "spc s = SClosed" by simp
    with False f(1) log pc show ?thesis
      by (cases c) (auto simp: pop_step_def pop_obs_def future_defs log_defs f(5))
  qed
qed

lemma log_pop_emplace:
  assumes inv: "unbuffered_inv s" and pc: "rpc s = REmplace c" and log: "log_ok s h" "ended s h"
  shows "ensures (\<lambda>t. log_ok t (h @ pop_obs s) \<and> ended t (h @ pop_obs s)) (pop_step s)"
  using log pc by (simp add: pop_step_def pop_obs_def log_defs)

lemma log_pop_answer:
  assumes inv: "unbuffered_inv s" and pc: "rpc s = RAnswer c" and log: "log_ok s h" "ended s h"
  shows "ensures (\<lambda>t. log_ok t (h @ pop_obs s) \<and> ended t (h @ pop_obs s)) (pop_step s)"
proof -
  note f = answering_facts [OF inv pc]
  show ?thesis using f log pc
    by (cases c; cases "spc s"; simp add: pop_step_def pop_obs_def future_defs log_defs)
qed

lemma log_pop:
  assumes "unbuffered_inv s" "log_ok s h" "ended s h"
  shows "ensures (\<lambda>t. log_ok t (h @ pop_obs s) \<and> ended t (h @ pop_obs s)) (pop_step s)"
proof (cases "rpc s")
  case (RResume c)
  with assms show ?thesis by (simp add: log_pop_resume)
next
  case (REmplace c)
  with assms show ?thesis by (simp add: log_pop_emplace)
next
  case (RAnswer c)
  with assms show ?thesis by (simp add: log_pop_answer)
next
  case (RAwaitReady c)
  with assms show ?thesis by (simp add: pop_step_def pop_obs_def log_defs)
next
  case (RAwaitSuspend c)
  with assms show ?thesis
    by (simp add: pop_step_def pop_obs_def log_defs await_suspend_def suspend_def split: handle.splits)
qed (simp_all add: pop_step_def)

lemma log_close_sender:
  assumes "unbuffered_inv s" "log_ok s h" "ended s h" "spc s = SIdle \<or> spc s = SRejected"
  shows "ensures (\<lambda>t. log_ok t h \<and> ended t h) (closeSender s)"
  using assms
  by (cases "rpc s"; cases "spc s";
      simp add: closeSender_def offer_def future_defs log_defs unbuffered_inv_def value_ok_def)

lemma log_calls:
  assumes "unbuffered_inv s" "log_ok s h" "ended s h" "e \<noteq> GoSender" "e \<noteq> GoReceiver"
  shows "ensures (\<lambda>t. log_ok t h \<and> ended t h) (unbuffered_step e s)"
proof (cases "e = CallCloseSender")
  case True
  then show ?thesis using log_close_sender [OF assms(1-3)] by simp
next
  case False
  with assms(2-5) show ?thesis by (cases e) (auto simp: log_defs)
qed

lemma stream_step:
  assumes "stream_inv sh"
  shows "ensures stream_inv (logged unbuffered_obs unbuffered_step e sh)"
proof -
  obtain s h where sh: "sh = (s, h)" by (cases sh)
  with assms have i: "unbuffered_inv s" "log_ok s h" "ended s h" by (simp_all add: stream_inv_def)
  have "ensures (\<lambda>t. log_ok t (h @ unbuffered_obs e s) \<and> ended t (h @ unbuffered_obs e s))
      (unbuffered_step e s)"
  proof (cases "e = GoSender \<or> e = GoReceiver")
    case True
    then show ?thesis using log_push [OF i] log_pop [OF i] by auto
  next
    case False
    then have "unbuffered_obs e s = []" by (cases e) simp_all
    with False log_calls [OF i] show ?thesis by simp
  qed
  moreover have "ensures unbuffered_inv (unbuffered_step e s)"
    by (rule unbuffered.preserve [OF i(1)])
  ultimately show ?thesis
    by (cases "unbuffered_step e s") (simp_all add: sh logged_def stream_inv_def)
qed

interpretation stream: invariant "logged unbuffered_obs unbuffered_step" "(unbuffered_init, [])" stream_inv
  by unfold_locales (simp_all add: stream_inv_init stream_step)

section \<open>Calls come to an end\<close>

text \<open>
  The parties moving on with the calls they are in, without new ones: each step makes the
  sum of what is left of the two calls smaller.
\<close>

fun go_step :: "('a channel_event, 'a unbuffered) machine" where
  "go_step GoSender s = push_step s"
| "go_step GoReceiver s = pop_step s"
| "go_step e s = Blocked"

fun send_left :: "send_pc \<Rightarrow> nat" where
  "send_left SSet = 5"
| "send_left SAwaitReady = 4"
| "send_left SAwaitSuspend = 3"
| "send_left SParked = 2"
| "send_left SResume = 1"
| "send_left p = 0"

fun recv_left :: "recv_pc \<Rightarrow> nat" where
  "recv_left (RAwaitReady c) = 6"
| "recv_left (RAwaitSuspend c) = 5"
| "recv_left (RParked c) = 4"
| "recv_left (RResume c) = 3"
| "recv_left (REmplace c) = 2"
| "recv_left (RAnswer c) = 1"
| "recv_left p = 0"

definition calls_left :: "'a unbuffered \<Rightarrow> nat" where
  "calls_left s = send_left (spc s) + recv_left (rpc s)"

fun send_rests :: "send_pc \<Rightarrow> bool" where
  "send_rests SIdle = True"
| "send_rests SParked = True"
| "send_rests SRejected = True"
| "send_rests SClosed = True"
| "send_rests p = False"

fun recv_rests :: "recv_pc \<Rightarrow> bool" where
  "recv_rests RIdle = True"
| "recv_rests (RParked c) = True"
| "recv_rests RClosed = True"
| "recv_rests p = False"

definition at_rest :: "'a unbuffered \<Rightarrow> bool" where
  "at_rest s \<longleftrightarrow> send_rests (spc s) \<and> recv_rests (rpc s)"

lemma calls_left_wake:
  "calls_left (wake w s) \<le> (if w = Some SenderParty then max 1 (send_left (spc s)) + recv_left (rpc s)
                            else calls_left s)"
  by (cases "(w, s)" rule: wake.cases) (auto simp: calls_left_def split: recv_pc.splits)

lemma push_step_left:
  "unbuffered_inv s \<Longrightarrow> ensures (\<lambda>t. calls_left t < calls_left s) (push_step s)"
proof (cases "spc s = SSet")
  case True
  moreover assume "unbuffered_inv s"
  ultimately show ?thesis using push_set_facts [of s]
    by (cases "rpc s") (simp_all add: push_step_def offer_def future_defs calls_left_def)
next
  case False
  then show ?thesis
    by (cases "spc s")
      (auto simp: push_step_def calls_left_def split: sum.splits handle.splits prod.splits bool.splits)
qed

lemma pop_step_left:
  "unbuffered_inv s \<Longrightarrow> ensures (\<lambda>t. calls_left t < calls_left s) (pop_step s)"
proof (cases "rpc s")
  case (RAnswer c)
  moreover assume "unbuffered_inv s"
  ultimately show ?thesis using answering_facts [of s c]
    by (simp add: pop_step_def future_defs calls_left_def)
next
  case (RResume c)
  then show ?thesis
    by (cases c)
      (auto simp: pop_step_def calls_left_def split: sum.splits ptr.splits option.splits)
qed (auto simp: pop_step_def calls_left_def split: sum.splits bool.splits prod.splits)

lemma pop_step_rests: "pop_step s = Blocked \<longleftrightarrow> recv_rests (rpc s)"
proof (cases "rpc s")
  case (RResume c)
  then show ?thesis
    by (cases c) (auto simp: pop_step_def split: sum.splits ptr.splits option.splits)
qed (auto simp: pop_step_def split: sum.splits bool.splits prod.splits)

lemma push_step_rests: "push_step s = Blocked \<longleftrightarrow> send_rests (spc s)"
  by (cases "spc s") (auto simp: push_step_def offer_def split: sum.splits bool.splits prod.splits)

lemma go_step_unbuffered: "unbuffered_inv s \<Longrightarrow> safely unbuffered_inv (go_step e s)"
  by (cases e) (simp_all add: push_step_inv pop_step_inv)

lemma go_step_progress:
  assumes "unbuffered_inv s" "\<not> at_rest s"
  shows "\<exists>e t. go_step e s = Next t"
proof -
  from assms(2) consider "push_step s \<noteq> Blocked" | "pop_step s \<noteq> Blocked"
    by (auto simp: at_rest_def push_step_rests pop_step_rests)
  then show ?thesis
  proof cases
    case 1
    with push_step_inv [OF assms(1)] obtain t where "go_step GoSender s = Next t"
      by (cases "push_step s") auto
    then show ?thesis by blast
  next
    case 2
    with pop_step_inv [OF assms(1)] obtain t where "go_step GoReceiver s = Next t"
      by (cases "pop_step s") auto
    then show ?thesis by blast
  qed
qed

lemma go_step_left: "unbuffered_inv s \<Longrightarrow> go_step e s = Next t \<Longrightarrow> calls_left t < calls_left s"
  using push_step_left [of s] pop_step_left [of s] by (cases e) auto

interpretation unbuffered_calls:
  terminating go_step unbuffered_init unbuffered_inv at_rest calls_left
  by unfold_locales
    (simp_all add: unbuffered_inv_init go_step_unbuffered safelyD(1) go_step_progress go_step_left
      del: go_step.simps)

lemma calls_left_bound: "calls_left s \<le> 11"
proof -
  have "send_left (spc s) \<le> 5" by (cases "spc s") simp_all
  moreover have "recv_left (rpc s) \<le> 6" by (cases "rpc s") simp_all
  ultimately show ?thesis by (simp add: calls_left_def)
qed

text \<open>A party that is left waiting waits for the call of a party that is still open.\<close>

lemma resting_waits:
  assumes "unbuffered_inv s" "at_rest s"
  shows "(spc s = SParked \<longrightarrow> rpc s = RIdle) \<and> (parked (rpc s) \<longrightarrow> spc s = SIdle)"
  using assms
  by (cases "spc s"; cases "rpc s"; simp add: at_rest_def unbuffered_inv_defs)

section \<open>Properties\<close>

text \<open>
  C19. The unbuffered channel is a stream. In every interleaving of the sender and the
  receiver, the values received are those sent, in order and each once, with at most one
  value sent and not yet received; when \<^verbatim>\<open>pop\<close> reports the end of the stream, nothing is
  missing; and the number of pushes that returned true is that of the values received, up to
  the one whose answer is on its way.
\<close>

theorem unbuffered_stream:
  assumes "run unbuffered_step es unbuffered_init = Next t"
    and "h = observe unbuffered_obs unbuffered_step es unbuffered_init"
  shows "(\<exists>zs. sents h = recvs h @ zs \<and> length zs \<le> 1 \<and> (EndOfStream \<in> set h \<longrightarrow> zs = [])) \<and>
    acks h \<le> length (recvs h) \<and> length (recvs h) \<le> acks h + 1"
proof -
  from logged_run [OF assms(1), of unbuffered_obs "[]"] assms(2)
  have "run (logged unbuffered_obs unbuffered_step) es (unbuffered_init, []) = Next (t, h)" by simp
  then have "stream_inv (t, h)" using stream.along_run [OF stream_inv_init] by blast
  then have log: "log_ok t h" and ended: "ended t h" by (simp_all add: stream_inv_def)
  have "length (in_flight t) \<le> 1" by (simp add: in_flight_def split: option.split)
  with log obtain zs where "sents h = recvs h @ zs" "length zs \<le> 1"
    by (auto simp: log_ok_def lost_one_def split: if_splits)
  moreover from ended this(1) have "EndOfStream \<in> set h \<longrightarrow> zs = []" by (simp add: ended_def)
  ultimately show ?thesis using log by (auto simp: log_ok_def split: if_splits)
qed

text \<open>A sender sends 7 and closes; the receiver takes it and sees the end of the stream.\<close>

definition send_one :: "nat channel_event list" where
  "send_one = [CallPush 7, CallPop, GoReceiver, GoReceiver, GoSender, GoReceiver, GoReceiver,
     GoSender, GoSender, GoReceiver, GoSender, CallCloseSender, CallPop, GoReceiver, GoReceiver]"

lemmas unbuffered_eval = send_one_def unbuffered_init_def push_step_def pop_step_def offer_def
  closeSender_def future_defs push_obs_def pop_obs_def numeral_eq_Suc

lemma unbuffered_stream_witness:
  "\<exists>t h. run unbuffered_step send_one unbuffered_init = Next t \<and>
     h = [Sent 7, Received 7, Acked True, EndOfStream] \<and> sents h = recvs h"
proof -
  obtain t where t: "run unbuffered_step send_one unbuffered_init = Next t"
    by (simp add: unbuffered_eval)
  have h: "observe unbuffered_obs unbuffered_step send_one unbuffered_init =
      [Sent 7, Received 7, Acked True, EndOfStream]"
    by (simp add: unbuffered_eval)
  from unbuffered_stream [OF t h [symmetric]] t show ?thesis by auto
qed

text \<open>
  C26. The unbuffered channel is a rendezvous: whenever the sender is back from a push that
  was not rejected, everything it sent has been received, by as many pushes that returned
  true; and a push is rejected only after the receiver was closed. No step is undefined: no
  assertion fails, and the pointer the receiver dereferences points to the value of a sender
  that is still inside its push.
\<close>

theorem unbuffered_rendezvous:
  assumes "run unbuffered_step es unbuffered_init = Next t"
    and "h = observe unbuffered_obs unbuffered_step es unbuffered_init"
  shows "(spc t = SIdle \<longrightarrow> sents h = recvs h \<and> length (recvs h) = acks h) \<and>
    (spc t = SRejected \<longrightarrow> rpc t = RClosed) \<and>
    unbuffered_step e t \<noteq> Fault f \<and> (in_push (spc t) \<longrightarrow> frame t \<noteq> None)"
proof -
  from logged_run [OF assms(1), of unbuffered_obs "[]"] assms(2)
  have "run (logged unbuffered_obs unbuffered_step) es (unbuffered_init, []) = Next (t, h)" by simp
  then have "stream_inv (t, h)" using stream.along_run [OF stream_inv_init] by blast
  then have inv: "unbuffered_inv t" and log: "log_ok t h" by (simp_all add: stream_inv_def)
  have "\<not> closing (rpc t) \<and> \<not> took (rpc t)" if "spc t = SIdle"
    using that inv by (cases "rpc t") (auto simp: unbuffered_inv_def offered_def answered_def)
  moreover have "unbuffered_step e t \<noteq> Fault f"
    by (rule unbuffered.no_fault [OF run_reach [OF assms(1)]])
  ultimately show ?thesis using log inv
    by (auto simp: log_ok_def in_flight_def offered_def answered_def unbuffered_inv_def)
qed

lemma unbuffered_rendezvous_witness:
  "\<exists>t h. run unbuffered_step (take 11 send_one) unbuffered_init = Next t \<and> spc t = SIdle \<and>
     h = [Sent 7, Received 7, Acked True] \<and> sents h = recvs h"
proof -
  obtain t where t: "run unbuffered_step (take 11 send_one) unbuffered_init = Next t"
    and pc: "spc t = SIdle"
    by (simp add: unbuffered_eval)
  have h: "observe unbuffered_obs unbuffered_step (take 11 send_one) unbuffered_init =
      [Sent 7, Received 7, Acked True]"
    by (simp add: unbuffered_eval)
  from unbuffered_rendezvous [OF t h [symmetric], of GoReceiver NullDeref] t pc show ?thesis by auto
qed

text \<open>
  Using the unbuffered channel as intended never fails an assertion (no future is
  completed twice or awaited by two parties) and the pointer the receiver dereferences always
  points to the value of a sender that is still inside its push.
\<close>

lemma unbuffered_no_fault:
  assumes "reach unbuffered_step unbuffered_init s"
  shows "unbuffered_step e s \<noteq> Fault f \<and> (in_push (spc s) \<longrightarrow> frame s \<noteq> None)"
  using unbuffered.no_fault [OF assms] unbuffered.reachable [OF assms]
  by (simp add: unbuffered_inv_def)

lemma unbuffered_no_fault_witness:
  "\<exists>s. run unbuffered_step (take 5 send_one) unbuffered_init = Next s \<and> rpc s = RResume Pop \<and>
     unbuffered_step GoReceiver s \<noteq> Fault UseAfterFree \<and> frame s = Some 7"
proof -
  obtain s where s: "run unbuffered_step (take 5 send_one) unbuffered_init = Next s"
    and pc: "rpc s = RResume Pop" "frame s = Some 7"
    by (simp add: unbuffered_eval)
  from unbuffered_no_fault [OF run_reach [OF s]] s pc show ?thesis by blast
qed

text \<open>
  C25. Calls on the unbuffered channel come to an end: from every reachable state, the steps
  of the calls under way number at most 11, and they lead to a state in which a sender still
  inside a push waits for a receiver that is between two calls, and a receiver still inside a
  call waits for a sender that is between two calls; neither waits for a closed party.
\<close>

theorem unbuffered_calls_end:
  assumes "reach unbuffered_step unbuffered_init s"
  shows "(run go_step es s = Next u \<longrightarrow> length es \<le> 11) \<and>
    (\<exists>fs t. run go_step fs s = Next t \<and> at_rest t \<and>
      (spc t = SParked \<longrightarrow> rpc t = RIdle) \<and> (parked (rpc t) \<longrightarrow> spc t = SIdle))"
proof -
  have inv: "unbuffered_inv s" by (rule unbuffered.reachable [OF assms])
  have "run go_step es s = Next u \<longrightarrow> length es \<le> 11"
    using unbuffered_calls.bounded [OF inv] calls_left_bound [of s] le_trans add_leE by meson
  moreover obtain fs t where t: "run go_step fs s = Next t" "at_rest t"
    using unbuffered_calls.completes [OF inv] by blast
  moreover have "unbuffered_inv t" by (rule unbuffered_calls.along_run [OF inv t(1)])
  ultimately show ?thesis using resting_waits by blast
qed

lemma unbuffered_calls_end_witness:
  "\<exists>s. run unbuffered_step (take 2 send_one) unbuffered_init = Next s \<and> spc s = SSet \<and>
     rpc s = RAwaitReady Pop \<and> (\<exists>fs t. run go_step fs s = Next t \<and> at_rest t)"
proof -
  obtain s where s: "run unbuffered_step (take 2 send_one) unbuffered_init = Next s"
    and pc: "spc s = SSet" "rpc s = RAwaitReady Pop"
    by (simp add: unbuffered_eval)
  from unbuffered_calls_end [OF run_reach [OF s]] s pc show ?thesis by blast
qed

end
