(* ===== verification/Waiting.thy ===== *)
theory Waiting
  imports Future
begin

text \<open>
  What \<^verbatim>\<open>BufferedChannel\<close> does with futures on the stacks of its callers: a deque of pointers
  to the futures of callers that wait (\<^verbatim>\<open>mWaitingSender\<close>, \<^verbatim>\<open>mWaitingReceiver\<close>), the local
  variables \<^verbatim>\<open>notify\<close>, \<^verbatim>\<open>sender\<close> and \<^verbatim>\<open>receiver\<close> that hold pointers taken from it until their
  \<^verbatim>\<open>set_value\<close>, and the caller's \<^verbatim>\<open>co::await(self)\<close>. The central fact is the invariant
  \<open>room_inv\<close>: every future that is awaited and not completed is pointed to from exactly one
  place, and nothing else is.
\<close>

section \<open>State\<close>

text \<open>
  Where a caller is in \<^verbatim>\<open>co::await(self)\<close>; \<open>Out\<close> is a caller without such a future.
\<close>

datatype await_pc = Out | AwReady | AwSuspend | AwParked | AwResume

text \<open>
  \<open>notices\<close> holds the local pointer variables of all threads: \<open>(j, i, v)\<close> says that thread
  \<open>j\<close> has a pointer to the future of \<open>i\<close> and is going to set it to \<open>v\<close>; a thread goes through
  its own entries in order.
\<close>

record 'v room =
  waiting :: "nat list"
  notices :: "(nat \<times> nat \<times> 'v) list"
  selfs :: "nat \<Rightarrow> (nat, 'v) light_future"
  apc :: "nat \<Rightarrow> await_pc"

definition room_init :: "'v room" where
  "room_init = \<lparr>waiting = [], notices = [], selfs = (\<lambda>i. LightFutureData), apc = (\<lambda>i. Out)\<rparr>"

lemma room_init_simps [simp]:
  "waiting room_init = []" "notices room_init = []" "apc room_init i = Out"
  by (simp_all add: room_init_def)

section \<open>Operations\<close>

text \<open>A caller whose future is completed by itself, and one that puts it into the deque.\<close>

definition enter_set :: "nat \<Rightarrow> 'v \<Rightarrow> 'v room \<Rightarrow> 'v room outcome" where
  "enter_set i v r =
     (case set_value v (LightFutureData :: (nat, 'v) light_future) of
        Inl e \<Rightarrow> Fault e
      | Inr (w, f) \<Rightarrow> Next (r\<lparr>selfs := (selfs r)(i := f), apc := (apc r)(i := AwReady)\<rparr>))"

definition enter_wait :: "nat \<Rightarrow> 'v room \<Rightarrow> 'v room outcome" where
  "enter_wait i r =
     Next (r\<lparr>waiting := waiting r @ [i], selfs := (selfs r)(i := LightFutureData),
             apc := (apc r)(i := AwReady)\<rparr>)"

text \<open>Taking the first pointer out of the deque, the first \<open>n\<close>, and all of them.\<close>

definition grab :: "nat \<Rightarrow> 'v \<Rightarrow> 'v room \<Rightarrow> 'v room outcome" where
  "grab j v r =
     (case waiting r of
        [] \<Rightarrow> Fault PopEmpty
      | i # w \<Rightarrow> Next (r\<lparr>waiting := w, notices := notices r @ [(j, i, v)]\<rparr>))"

fun grab_upto :: "nat \<Rightarrow> nat \<Rightarrow> 'v \<Rightarrow> 'v room \<Rightarrow> 'v room outcome" where
  "grab_upto 0 j v r = Next r"
| "grab_upto (Suc n) j v r =
     (if waiting r = [] then Next r else bind_outcome (grab j v r) (grab_upto n j v))"

definition grab_all :: "nat \<Rightarrow> 'v \<Rightarrow> 'v room \<Rightarrow> 'v room outcome" where
  "grab_all j v r =
     Next (r\<lparr>waiting := [], notices := notices r @ map (\<lambda>i. (j, i, v)) (waiting r)\<rparr>)"

text \<open>
  One \<^verbatim>\<open>set_value\<close> of thread \<open>j\<close>. The future has to exist: its owner is still in its call.
\<close>

definition resume_caller :: "nat option \<Rightarrow> 'v room \<Rightarrow> 'v room" where
  "resume_caller w r =
     (case w of None \<Rightarrow> r | Some i \<Rightarrow> r\<lparr>apc := (apc r)(i := AwResume)\<rparr>)"

definition notice_of :: "nat \<Rightarrow> 'v room \<Rightarrow> (nat \<times> nat \<times> 'v) option" where
  "notice_of j r = find (\<lambda>m. fst m = j) (notices r)"

definition deliver :: "nat \<Rightarrow> 'v room \<Rightarrow> 'v room outcome" where
  "deliver j r =
     (case notice_of j r of
        None \<Rightarrow> Blocked
      | Some (k, i, v) \<Rightarrow>
          if apc r i = Out then Fault UseAfterFree
          else case set_value v (selfs r i) of
                 Inl e \<Rightarrow> Fault e
               | Inr (w, f) \<Rightarrow>
                   Next (resume_caller w
                     (r\<lparr>notices := remove1 (k, i, v) (notices r), selfs := (selfs r)(i := f)\<rparr>)))"

text \<open>The steps of \<^verbatim>\<open>co::await(self)\<close>; the last one returns from the call.\<close>

definition await_step :: "nat \<Rightarrow> 'v room \<Rightarrow> 'v room outcome" where
  "await_step i r =
     (case apc r i of
        AwReady \<Rightarrow>
          (if await_ready (selfs r i) then Next (r\<lparr>apc := (apc r)(i := AwResume)\<rparr>)
           else Next (r\<lparr>apc := (apc r)(i := AwSuspend)\<rparr>))
      | AwSuspend \<Rightarrow>
          (case await_suspend i (selfs r i) of
             Inl e \<Rightarrow> Fault e
           | Inr (True, f) \<Rightarrow>
               Next (r\<lparr>selfs := (selfs r)(i := f), apc := (apc r)(i := AwParked)\<rparr>)
           | Inr (False, f) \<Rightarrow>
               Next (r\<lparr>selfs := (selfs r)(i := f), apc := (apc r)(i := AwResume)\<rparr>))
      | AwResume \<Rightarrow>
          (case await_resume (selfs r i) of
             Inr (Inr v) \<Rightarrow> Next (r\<lparr>apc := (apc r)(i := Out)\<rparr>)
           | Inr (Inl ex) \<Rightarrow> Fault (AssertFailed ''await'')
           | Inl e \<Rightarrow> Fault e)
      | _ \<Rightarrow> Blocked)"

text \<open>What the last step of a call returns.\<close>

definition await_result :: "nat \<Rightarrow> 'v room \<Rightarrow> 'v option" where
  "await_result i r =
     (if apc r i = AwResume
      then (case await_resume (selfs r i) of Inr (Inr v) \<Rightarrow> Some v | _ \<Rightarrow> None)
      else None)"

section \<open>The invariant\<close>

fun self_ok :: "nat \<Rightarrow> await_pc \<Rightarrow> (nat, 'v) light_future \<Rightarrow> bool" where
  "self_ok i Out f = True"
| "self_ok i AwReady f = (f = LightFutureData \<or> (\<exists>v. f = LightFutureData_of v))"
| "self_ok i AwSuspend f = (f = LightFutureData \<or> (\<exists>v. f = LightFutureData_of v))"
| "self_ok i AwParked f = (f = \<lparr>continuationPtr = Handle i, val = Unset\<rparr>)"
| "self_ok i AwResume f = (\<exists>v. f = LightFutureData_of v)"

definition expects :: "'v room \<Rightarrow> nat \<Rightarrow> bool" where
  "expects r i \<longleftrightarrow> apc r i \<noteq> Out \<and> \<not> is_ready (selfs r i)"

definition owed :: "'v room \<Rightarrow> nat list" where
  "owed r = waiting r @ map (\<lambda>m. fst (snd m)) (notices r)"

definition room_inv :: "'v room \<Rightarrow> bool" where
  "room_inv r \<longleftrightarrow> distinct (owed r) \<and> (\<forall>i. i \<in> set (owed r) \<longleftrightarrow> expects r i) \<and>
     (\<forall>i. self_ok i (apc r i) (selfs r i))"

lemma room_invI:
  assumes "distinct (owed r)" "\<And>i. i \<in> set (owed r) \<longleftrightarrow> expects r i"
    "\<And>i. self_ok i (apc r i) (selfs r i)"
  shows "room_inv r"
  using assms by (simp add: room_inv_def)

lemma room_invD:
  assumes "room_inv r"
  shows "distinct (owed r)" "i \<in> set (owed r) \<longleftrightarrow> expects r i" "self_ok i (apc r i) (selfs r i)"
  using assms by (simp_all add: room_inv_def)

lemma room_inv_init: "room_inv room_init"
  by (simp add: room_inv_def room_init_def owed_def expects_def)

lemma enter_set_inv:
  assumes "room_inv r" "apc r i = Out"
  shows "safely room_inv (enter_set i v r)"
proof -
  have "i \<notin> set (owed r)" using assms by (simp add: room_invD(2) expects_def)
  then show ?thesis using assms(1)
    by (auto simp: room_inv_def enter_set_def future_defs owed_def expects_def)
qed

lemma enter_wait_inv:
  assumes "room_inv r" "apc r i = Out"
  shows "safely room_inv (enter_wait i r)"
proof -
  have "i \<notin> set (owed r)" using assms by (simp add: room_invD(2) expects_def)
  then show ?thesis using assms(1)
    by (auto simp: room_inv_def enter_wait_def future_defs owed_def expects_def)
qed

text \<open>Moving pointers from the deque into local variables keeps what is owed, up to order.\<close>

lemma room_inv_moved:
  assumes "room_inv r" "mset (owed r') = mset (owed r)" "selfs r' = selfs r" "apc r' = apc r"
  shows "room_inv r'"
proof -
  from assms(2) have "distinct (owed r') = distinct (owed r)" "set (owed r') = set (owed r)"
    by (rule mset_eq_imp_distinct_iff, rule mset_eq_setD)
  with assms show ?thesis by (simp add: room_inv_def expects_def)
qed

lemma grab_inv:
  assumes "room_inv r" "waiting r \<noteq> []"
  shows "safely room_inv (grab j v r)"
  using assms by (auto simp: grab_def owed_def intro: room_inv_moved split: list.split)

lemma grab_upto_inv: "room_inv r \<Longrightarrow> safely room_inv (grab_upto n j v r)"
proof (induction n arbitrary: r)
  case 0
  then show ?case by simp
next
  case (Suc n)
  show ?case
  proof (cases "waiting r = []")
    case False
    then obtain i w where "waiting r = i # w" by (cases "waiting r") simp_all
    with Suc.prems grab_inv [of r j v] obtain r' where "grab j v r = Next r'" "room_inv r'"
      by (simp add: grab_def)
    with Suc.IH False show ?thesis by simp
  qed (use Suc.prems in simp)
qed

lemma grab_all_inv: "room_inv r \<Longrightarrow> safely room_inv (grab_all j v r)"
  by (auto simp: grab_all_def owed_def comp_def intro: room_inv_moved)

lemma notice_of_SomeD: "notice_of j r = Some m \<Longrightarrow> m \<in> set (notices r) \<and> fst m = j"
  by (auto simp: notice_of_def find_Some_iff)

lemma owed_notice: "(k, i, v) \<in> set (notices r) \<Longrightarrow> i \<in> set (owed r)"
  by (force simp: owed_def)

lemma owed_remove:
  assumes "(k, i, v) \<in> set (notices r)"
  shows "mset (owed r) =
    add_mset i (mset (waiting r @ map (\<lambda>m. fst (snd m)) (remove1 (k, i, v) (notices r))))"
proof -
  from assms have "mset (notices r) = add_mset (k, i, v) (mset (remove1 (k, i, v) (notices r)))" by simp
  then have "mset (map (\<lambda>m. fst (snd m)) (notices r)) =
      add_mset i (mset (map (\<lambda>m. fst (snd m)) (remove1 (k, i, v) (notices r))))"
    by (metis (no_types, lifting) fst_conv image_mset_add_mset mset_map snd_conv)
  then show ?thesis by (simp add: owed_def)
qed

lemma is_ready_new [simp]: "is_ready (LightFutureData_of v)" "\<not> is_ready LightFutureData"
  by (simp_all add: future_defs)

lemma self_ok_unset:
  "self_ok i pc f \<Longrightarrow> pc \<noteq> Out \<Longrightarrow> \<not> is_ready f \<Longrightarrow>
    f = \<lparr>continuationPtr = (if pc = AwParked then Handle i else EmptyHandle), val = Unset\<rparr>"
  by (cases pc) (auto simp: LightFutureData_def)

text \<open>
  A delivery, once the invariant has told what it meets: an existing future that is not
  completed. \<open>delivered\<close> is the state it leads to.
\<close>

definition delivered :: "nat \<Rightarrow> nat \<Rightarrow> 'v \<Rightarrow> 'v room \<Rightarrow> 'v room" where
  "delivered j i v r =
     r\<lparr>notices := remove1 (j, i, v) (notices r), selfs := (selfs r)(i := LightFutureData_of v),
       apc := (if apc r i = AwParked then (apc r)(i := AwResume) else apc r)\<rparr>"

lemma deliver_eq:
  assumes "room_inv r"
  shows "deliver j r =
    (case notice_of j r of None \<Rightarrow> Blocked | Some (k, i, v) \<Rightarrow> Next (delivered j i v r))"
proof (cases "notice_of j r")
  case None
  then show ?thesis by (simp add: deliver_def)
next
  case (Some m)
  obtain k i v where m: "m = (k, i, v)" by (cases m)
  with Some have n: "(j, i, v) \<in> set (notices r)" "k = j" by (auto dest: notice_of_SomeD)
  have "expects r i" using room_invD(2) [OF assms, of i] owed_notice [OF n(1)] by simp
  then have x: "apc r i \<noteq> Out" "\<not> is_ready (selfs r i)" by (simp_all add: expects_def)
  have "self_ok i (apc r i) (selfs r i)" using assms by (rule room_invD)
  note f = self_ok_unset [OF this x]
  show ?thesis
    by (simp add: deliver_def Some m n(2) x(1) f delivered_def resume_caller_def set_value_def
        on_ready_def LightFutureData_of_def)
qed

lemma delivered_inv:
  assumes inv: "room_inv r" and n: "(j, i, v) \<in> set (notices r)"
  shows "room_inv (delivered j i v r)"
proof (rule room_invI)
  have ow: "mset (owed r) = add_mset i (mset (owed (delivered j i v r)))"
    using owed_remove [OF n] by (simp add: owed_def delivered_def)
  then have "mset (owed r) = mset (i # owed (delivered j i v r))" by simp
  moreover have "distinct (owed r)" by (rule room_invD [OF inv])
  ultimately have d: "distinct (i # owed (delivered j i v r))"
    by (metis mset_eq_imp_distinct_iff)
  then show "distinct (owed (delivered j i v r))" by simp
  from ow have st: "set (owed r) = insert i (set (owed (delivered j i v r)))"
    by (metis set_mset_add_mset_insert set_mset_mset)
  fix k
  show "k \<in> set (owed (delivered j i v r)) \<longleftrightarrow> expects (delivered j i v r) k"
  proof (cases "k = i")
    case True
    with d show ?thesis by (simp add: expects_def delivered_def future_defs)
  next
    case False
    then have "k \<in> set (owed (delivered j i v r)) \<longleftrightarrow> expects r k"
      using st room_invD(2) [OF inv, of k] by simp
    with False show ?thesis by (simp add: expects_def delivered_def)
  qed
  have "expects r i" using room_invD(2) [OF inv, of i] owed_notice [OF n] by blast
  then show "self_ok k (apc (delivered j i v r) k) (selfs (delivered j i v r) k)"
    using room_invD(3) [OF inv, of k] by (cases "apc r i") (auto simp: delivered_def expects_def)
qed

lemma deliver_inv: "room_inv r \<Longrightarrow> safely room_inv (deliver j r)"
  using delivered_inv [of r j] notice_of_SomeD [of j r]
  by (fastforce simp: deliver_eq split: option.split)

lemma room_inv_upd:
  assumes "room_inv r" "waiting r' = waiting r" "notices r' = notices r"
    "\<And>k. k \<noteq> i \<Longrightarrow> apc r' k = apc r k \<and> selfs r' k = selfs r k"
    "expects r' i \<longleftrightarrow> expects r i" "self_ok i (apc r' i) (selfs r' i)"
  shows "room_inv r'"
proof (rule room_invI)
  have o: "owed r' = owed r" using assms(2,3) by (simp add: owed_def)
  then show "distinct (owed r')" using room_invD(1) [OF assms(1)] by simp
  fix k
  show "k \<in> set (owed r') \<longleftrightarrow> expects r' k"
    using room_invD(2) [OF assms(1), of k] assms(4) [of k] assms(5) o
    by (cases "k = i") (simp_all add: expects_def)
  show "self_ok k (apc r' k) (selfs r' k)"
    using room_invD(3) [OF assms(1), of k] assms(4) [of k] assms(6) by (cases "k = i") simp_all
qed

text \<open>What a step of \<^verbatim>\<open>co::await\<close> does, under the invariant.\<close>

definition awaited :: "nat \<Rightarrow> 'v room \<Rightarrow> 'v room" where
  "awaited i r =
     (case apc r i of
        AwReady \<Rightarrow> r\<lparr>apc := (apc r)(i := if is_ready (selfs r i) then AwResume else AwSuspend)\<rparr>
      | AwSuspend \<Rightarrow>
          (if is_ready (selfs r i) then r\<lparr>apc := (apc r)(i := AwResume)\<rparr>
           else r\<lparr>selfs := (selfs r)(i := \<lparr>continuationPtr = Handle i, val = Unset\<rparr>),
                  apc := (apc r)(i := AwParked)\<rparr>)
      | _ \<Rightarrow> r\<lparr>apc := (apc r)(i := Out)\<rparr>)"

lemma await_step_eq:
  assumes "room_inv r"
  shows "await_step i r =
    (if apc r i = Out \<or> apc r i = AwParked then Blocked else Next (awaited i r))"
proof (cases "apc r i")
  case AwReady
  then show ?thesis by (simp add: await_step_def awaited_def await_ready_def is_ready_weak_def is_ready_def)
next
  case AwSuspend
  with room_invD(3) [OF assms, of i]
  have "selfs r i = LightFutureData \<or> (\<exists>v. selfs r i = LightFutureData_of v)" by simp
  with AwSuspend show ?thesis
    by (auto simp: await_step_def awaited_def future_defs fun_upd_idem)
next
  case AwResume
  with room_invD(3) [OF assms, of i] obtain v where "selfs r i = LightFutureData_of v" by auto
  with AwResume show ?thesis by (simp add: await_step_def awaited_def future_defs)
qed (simp_all add: await_step_def)

lemma awaited_inv:
  assumes inv: "room_inv r" and pc: "apc r i \<noteq> Out" "apc r i \<noteq> AwParked"
  shows "room_inv (awaited i r)"
proof (rule room_inv_upd [OF inv])
  have ok: "self_ok i (apc r i) (selfs r i)" by (rule room_invD [OF inv])
  show "expects (awaited i r) i \<longleftrightarrow> expects r i"
    using pc ok by (cases "apc r i") (auto simp: awaited_def expects_def future_defs)
  show "self_ok i (apc (awaited i r) i) (selfs (awaited i r) i)"
    using pc ok by (cases "apc r i") (auto simp: awaited_def future_defs)
qed (use pc in \<open>auto simp: awaited_def split: await_pc.split\<close>)

lemma await_step_inv: "room_inv r \<Longrightarrow> safely room_inv (await_step i r)"
  by (simp add: await_step_eq awaited_inv)

section \<open>The result that is coming to a caller\<close>

text \<open>
  A caller whose future is completed, or to be completed by a pointer some thread holds,
  knows its result: deliveries and the steps of \<^verbatim>\<open>co::await\<close> do not change it, until the call
  returns it.
\<close>

fun stored :: "'v variant \<Rightarrow> 'v option" where
  "stored (Placeholder v) = Some v"
| "stored x = None"

definition noticed :: "'v room \<Rightarrow> nat \<Rightarrow> 'v option" where
  "noticed r i = map_of (map snd (notices r)) i"

definition coming :: "'v room \<Rightarrow> nat \<Rightarrow> 'v option" where
  "coming r i =
     (if apc r i = Out then None
      else if is_ready (selfs r i) then stored (val (selfs r i))
      else noticed r i)"

lemma noticed_owed: "noticed r i = Some v \<Longrightarrow> i \<in> set (owed r)"
  by (force simp: noticed_def owed_def dest!: map_of_SomeD)

lemma noticed_not_owed: "i \<notin> set (map (\<lambda>m. fst (snd m)) (notices r)) \<Longrightarrow> noticed r i = None"
  by (force simp: noticed_def map_of_eq_None_iff)

lemma coming_init [simp]: "coming room_init i = None"
  by (simp add: coming_def room_init_def)

lemma coming_enter_set:
  "ensures (\<lambda>r'. coming r' = (coming r)(i := Some v) \<and> waiting r' = waiting r \<and>
     notices r' = notices r \<and> apc r' = (apc r)(i := AwReady)) (enter_set i v r)"
  by (auto simp: enter_set_def coming_def noticed_def future_defs)

lemma coming_enter_wait:
  assumes "room_inv r" "apc r i = Out"
  shows "ensures (\<lambda>r'. coming r' = coming r \<and> waiting r' = waiting r @ [i] \<and>
     notices r' = notices r \<and> apc r' = (apc r)(i := AwReady)) (enter_wait i r)"
proof -
  have "i \<notin> set (owed r)" using assms by (simp add: room_invD(2) expects_def)
  then have "noticed r i = None" by (simp add: owed_def noticed_not_owed)
  with assms show ?thesis
    by (auto simp: enter_wait_def coming_def noticed_def future_defs)
qed

lemma coming_grab:
  assumes "room_inv r"
  shows "ensures (\<lambda>r'. coming r' = (coming r)(hd (waiting r) := Some v) \<and>
     waiting r' = tl (waiting r) \<and> notices r' = notices r @ [(j, hd (waiting r), v)] \<and> apc r' = apc r)
    (grab j v r)"
proof (cases "waiting r")
  case Nil
  then show ?thesis by (simp add: grab_def)
next
  case (Cons i w)
  have x: "expects r i" using room_invD(2) [OF assms, of i] by (simp add: owed_def Cons)
  have "i \<notin> set (map (\<lambda>m. fst (snd m)) (notices r))"
    using room_invD(1) [OF assms] by (simp add: owed_def Cons)
  then have "noticed r i = None" by (rule noticed_not_owed)
  with x show ?thesis
    by (auto simp: grab_def Cons coming_def noticed_def expects_def map_add_def fun_eq_iff
        split: option.split)
qed

lemma coming_moved:
  assumes "room_inv r" "set xs \<subseteq> set (waiting r)"
  shows "coming (r\<lparr>waiting := w, notices := notices r @ map (\<lambda>i. (j, i, v)) xs\<rparr>) k =
    (if k \<in> set xs then Some v else coming r k)"
proof -
  have "expects r k \<and> noticed r k = None" if "k \<in> set xs" for k
  proof -
    have "k \<in> set (waiting r)" using that assms(2) by blast
    then have "expects r k" using room_invD(2) [OF assms(1), of k] by (simp add: owed_def)
    moreover have "k \<notin> set (map (\<lambda>m. fst (snd m)) (notices r))"
      using room_invD(1) [OF assms(1)] \<open>k \<in> set (waiting r)\<close> by (auto simp: owed_def)
    ultimately show ?thesis using noticed_not_owed by blast
  qed
  then show ?thesis
    by (auto simp: coming_def noticed_def expects_def map_add_def comp_def map_of_const
        split: option.split)
qed

lemma coming_grab_all:
  assumes "room_inv r"
  shows "ensures (\<lambda>r'. (\<forall>k. coming r' k = (if k \<in> set (waiting r) then Some v else coming r k)) \<and>
     waiting r' = [] \<and> notices r' = notices r @ map (\<lambda>i. (j, i, v)) (waiting r) \<and> apc r' = apc r)
    (grab_all j v r)"
  using coming_moved [OF assms subset_refl, where w = "[]" and j = j and v = v] by (simp add: grab_all_def)

lemma grab_upto_eq:
  "grab_upto n j v r =
    Next (r\<lparr>waiting := drop n (waiting r),
            notices := notices r @ map (\<lambda>i. (j, i, v)) (take n (waiting r))\<rparr>)"
proof (induction n arbitrary: r)
  case 0
  then show ?case by simp
next
  case (Suc n)
  then show ?case by (cases "waiting r") (simp_all add: grab_def)
qed

lemma coming_delivered:
  assumes inv: "room_inv r" and n: "(j, i, v) \<in> set (notices r)"
  shows "coming (delivered j i v r) = coming r"
proof
  fix k
  have d: "distinct (map (\<lambda>m. fst (snd m)) (notices r))"
    using room_invD(1) [OF inv] by (simp add: owed_def)
  have x: "expects r i" using room_invD(2) [OF inv, of i] owed_notice [OF n] by blast
  show "coming (delivered j i v r) k = coming r k"
  proof (cases "k = i")
    case True
    have "(i, v) \<in> set (map snd (notices r))" using n by force
    with d have "noticed r i = Some v"
      by (simp add: noticed_def comp_def map_of_eq_Some_iff [of "map snd (notices r)"])
    with True x show ?thesis
      by (auto simp: coming_def delivered_def expects_def LightFutureData_of_def is_ready_def)
  next
    case False
    have "map_of (map snd (remove1 (j, i, v) ms)) k = map_of (map snd ms) k" for ms
      using False by (induction ms) auto
    with False show ?thesis by (simp add: coming_def delivered_def noticed_def)
  qed
qed

lemma coming_awaited:
  assumes inv: "room_inv r" and pc: "apc r i \<noteq> Out" "apc r i \<noteq> AwParked"
  shows "coming (awaited i r) = (if apc r i = AwResume then (coming r)(i := None) else coming r)"
    "await_result i r = (if apc r i = AwResume then coming r i else None)"
    "apc r i = AwResume \<Longrightarrow> \<exists>v. coming r i = Some v"
proof -
  have ok: "self_ok i (apc r i) (selfs r i)" by (rule room_invD [OF inv])
  show "coming (awaited i r) = (if apc r i = AwResume then (coming r)(i := None) else coming r)"
    using pc ok by (cases "apc r i") (auto simp: coming_def awaited_def noticed_def fun_eq_iff is_ready_def)
  show "await_result i r = (if apc r i = AwResume then coming r i else None)"
    "apc r i = AwResume \<Longrightarrow> \<exists>v. coming r i = Some v"
    using pc ok by (auto simp: await_result_def coming_def future_defs)
qed

lemma notice_of_None: "notice_of j r = None \<longleftrightarrow> (\<forall>m \<in> set (notices r). fst m \<noteq> j)"
  by (auto simp: notice_of_def find_None_iff)

section \<open>What the operations do, in one place\<close>

lemma specI:
  "safely P x \<Longrightarrow> ensures Q x \<Longrightarrow> x \<noteq> Blocked \<Longrightarrow> \<exists>t. x = Next t \<and> P t \<and> Q t"
  by (cases x) simp_all

lemma enter_set_spec:
  assumes "room_inv r" "apc r i = Out"
  shows "\<exists>r'. enter_set i v r = Next r' \<and> room_inv r' \<and> coming r' = (coming r)(i := Some v) \<and>
    waiting r' = waiting r \<and> notices r' = notices r \<and> apc r' = (apc r)(i := AwReady)"
proof (rule specI)
  show "safely room_inv (enter_set i v r)" by (rule enter_set_inv [OF assms])
  show "enter_set i v r \<noteq> Blocked" by (simp add: enter_set_def split: sum.split prod.split)
qed (rule coming_enter_set)

lemma enter_wait_spec:
  assumes "room_inv r" "apc r i = Out"
  shows "\<exists>r'. enter_wait i r = Next r' \<and> room_inv r' \<and> coming r' = coming r \<and>
    waiting r' = waiting r @ [i] \<and> notices r' = notices r \<and> apc r' = (apc r)(i := AwReady)"
proof (rule specI)
  show "safely room_inv (enter_wait i r)" by (rule enter_wait_inv [OF assms])
  show "enter_wait i r \<noteq> Blocked" by (simp add: enter_wait_def)
qed (rule coming_enter_wait [OF assms])

lemma grab_spec:
  assumes "room_inv r" "waiting r \<noteq> []"
  shows "\<exists>r'. grab j v r = Next r' \<and> room_inv r' \<and> coming r' = (coming r)(hd (waiting r) := Some v) \<and>
    waiting r' = tl (waiting r) \<and> notices r' = notices r @ [(j, hd (waiting r), v)] \<and> apc r' = apc r"
proof (rule specI)
  show "safely room_inv (grab j v r)" by (rule grab_inv [OF assms])
  show "grab j v r \<noteq> Blocked" by (simp add: grab_def split: list.split)
qed (rule coming_grab [OF assms(1)])

lemma grab_all_spec:
  assumes "room_inv r"
  shows "\<exists>r'. grab_all j v r = Next r' \<and> room_inv r' \<and>
    (\<forall>k. coming r' k = (if k \<in> set (waiting r) then Some v else coming r k)) \<and>
    waiting r' = [] \<and> notices r' = notices r @ map (\<lambda>i. (j, i, v)) (waiting r) \<and> apc r' = apc r"
proof (rule specI)
  show "safely room_inv (grab_all j v r)" by (rule grab_all_inv [OF assms])
  show "grab_all j v r \<noteq> Blocked" by (simp add: grab_all_def)
qed (rule coming_grab_all [OF assms])

lemma grab_upto_spec:
  assumes "room_inv r"
  shows "\<exists>r'. grab_upto n j v r = Next r' \<and> room_inv r' \<and> waiting r' = drop n (waiting r) \<and>
    notices r' = notices r @ map (\<lambda>i. (j, i, v)) (take n (waiting r)) \<and> apc r' = apc r \<and>
    (\<forall>k. coming r' k = (if k \<in> set (take n (waiting r)) then Some v else coming r k))"
  using grab_upto_inv [OF assms, of n j v]
    coming_moved [OF assms set_take_subset, where w = "drop n (waiting r)" and j = j and v = v]
  by (simp add: grab_upto_eq)

lemma deliver_spec:
  assumes "room_inv r" "notice_of j r = Some m"
  shows "\<exists>r' i v. deliver j r = Next r' \<and> room_inv r' \<and> m = (j, i, v) \<and> coming r' = coming r \<and>
    waiting r' = waiting r \<and> notices r' = remove1 (j, i, v) (notices r) \<and>
    apc r' = (if apc r i = AwParked then (apc r)(i := AwResume) else apc r)"
proof -
  obtain k i v where m: "m = (k, i, v)" by (cases m)
  with assms(2) have n: "k = j" "(j, i, v) \<in> set (notices r)" by (auto dest: notice_of_SomeD)
  with assms m show ?thesis
    using delivered_inv [OF assms(1) n(2)] coming_delivered [OF assms(1) n(2)]
    by (simp add: deliver_eq) (simp add: delivered_def)
qed

lemma await_spec:
  assumes "room_inv r" "apc r i \<noteq> Out" "apc r i \<noteq> AwParked"
  shows "\<exists>r'. await_step i r = Next r' \<and> room_inv r' \<and>
    coming r' = (if apc r i = AwResume then (coming r)(i := None) else coming r) \<and>
    waiting r' = waiting r \<and> notices r' = notices r \<and>
    (\<forall>k. k \<noteq> i \<longrightarrow> apc r' k = apc r k) \<and> (apc r' i = Out \<longleftrightarrow> apc r i = AwResume)"
  using awaited_inv [OF assms] coming_awaited(1) [OF assms] assms(2,3)
  by (simp add: await_step_eq [OF assms(1)]) (auto simp: awaited_def split: await_pc.splits)

lemma deliver_none: "notice_of j r = None \<Longrightarrow> deliver j r = Blocked"
  by (simp add: deliver_def)

text \<open>A caller that is parked for good has its pointer in the deque.\<close>

lemma parked_waits:
  assumes "room_inv r" "apc r i = AwParked" "notices r = []"
  shows "i \<in> set (waiting r)"
  using room_invD(2,3) [OF assms(1), of i] assms(2,3) by (simp add: owed_def expects_def is_ready_def)

lemma waiting_inside: "room_inv r \<Longrightarrow> i \<in> set (waiting r) \<Longrightarrow> apc r i \<noteq> Out"
  using room_invD(2) [of r i] by (simp add: owed_def expects_def)

lemma noticed_inside: "room_inv r \<Longrightarrow> m \<in> set (notices r) \<Longrightarrow> apc r (fst (snd m)) \<noteq> Out"
  using room_invD(2) [of r "fst (snd m)"] by (simp add: owed_def expects_def)

end
