(* ===== verification/Buffered.thy ===== *)
theory Buffered
  imports Waiting
begin

text \<open>
  \<^verbatim>\<open>BufferedChannel\<close> of \<^verbatim>\<open>include/co/channel.hpp\<close>: any number of senders and receivers around
  a deque of values. Every operation has a critical section under \<^verbatim>\<open>mMutex\<close>, which is one
  step here, then sets the futures it took out of the deques, one step each, and then awaits
  its own future; threads interleave between these steps.
\<close>

section \<open>State and critical sections\<close>

record 'a buffered =
  mReadyData :: "'a list"
  senders :: "bool room"
  receivers :: "'a option room"
  mSenderClosed :: bool
  mReceiverClosed :: bool
  mMaxQueueSize :: nat

definition BufferedChannel :: "'a buffered" where
  "BufferedChannel = \<lparr>mReadyData = [], senders = room_init, receivers = room_init,
     mSenderClosed = False, mReceiverClosed = False, mMaxQueueSize = 2\<rparr>"

abbreviation mWaitingSender :: "'a buffered \<Rightarrow> nat list" where
  "mWaitingSender s \<equiv> waiting (senders s)"

abbreviation mWaitingReceiver :: "'a buffered \<Rightarrow> nat list" where
  "mWaitingReceiver s \<equiv> waiting (receivers s)"

definition on_senders :: "(bool room \<Rightarrow> bool room outcome) \<Rightarrow> 'a buffered \<Rightarrow> 'a buffered outcome" where
  "on_senders f s = bind_outcome (f (senders s)) (\<lambda>r. Next (s\<lparr>senders := r\<rparr>))"

definition on_receivers ::
    "('a option room \<Rightarrow> 'a option room outcome) \<Rightarrow> 'a buffered \<Rightarrow> 'a buffered outcome" where
  "on_receivers f s = bind_outcome (f (receivers s)) (\<lambda>r. Next (s\<lparr>receivers := r\<rparr>))"

definition setMaxQueueSize :: "nat \<Rightarrow> nat \<Rightarrow> 'a buffered \<Rightarrow> 'a buffered outcome" where
  "setMaxQueueSize i cnt s =
     (if cnt = 0 then Fault (AssertFailed ''setMaxQueueSize'')
      else bind_outcome
        (if length (mReadyData s) < cnt
         then on_senders (grab_upto (cnt - mMaxQueueSize s) i False) s else Next s)
        (\<lambda>s. Next (s\<lparr>mMaxQueueSize := cnt\<rparr>)))"

definition buffered_closeSender :: "nat \<Rightarrow> 'a buffered \<Rightarrow> 'a buffered outcome" where
  "buffered_closeSender i s =
     (if mSenderClosed s \<or> mWaitingSender s \<noteq> [] then Fault (AssertFailed ''closeSender'')
      else let s = s\<lparr>mSenderClosed := True\<rparr> in
        if mWaitingReceiver s \<noteq> []
        then if mReadyData s \<noteq> [] then Fault (AssertFailed ''closeSender'')
             else on_receivers (grab_all i None) s
        else Next s)"

definition buffered_push :: "nat \<Rightarrow> 'a \<Rightarrow> 'a buffered \<Rightarrow> 'a buffered outcome" where
  "buffered_push i v s =
     (if mSenderClosed s then Fault (AssertFailed ''push'')
      else if mWaitingReceiver s \<noteq> []
      then if mReceiverClosed s then Fault (AssertFailed ''push'')
           else bind_outcome (on_receivers (grab i (Some v)) s) (on_senders (enter_set i True))
      else if mReceiverClosed s then on_senders (enter_set i False) s
      else let s = s\<lparr>mReadyData := mReadyData s @ [v]\<rparr> in
        if length (mReadyData s) \<ge> mMaxQueueSize s then on_senders (enter_wait i) s
        else on_senders (enter_set i True) s)"

definition buffered_closeReceiver :: "nat \<Rightarrow> 'a buffered \<Rightarrow> 'a buffered outcome" where
  "buffered_closeReceiver i s =
     (if mReceiverClosed s \<or> mWaitingReceiver s \<noteq> [] then Fault (AssertFailed ''closeReceiver'')
      else on_senders (grab_all i False) (s\<lparr>mReceiverClosed := True\<rparr>))"

definition buffered_pop :: "nat \<Rightarrow> 'a buffered \<Rightarrow> 'a buffered outcome" where
  "buffered_pop i s =
     (if mReceiverClosed s then Fault (AssertFailed ''pop'')
      else case mReadyData s of
        v # q \<Rightarrow>
          bind_outcome (on_receivers (enter_set i (Some v)) (s\<lparr>mReadyData := q\<rparr>))
            (\<lambda>s. if mWaitingSender s \<noteq> [] then on_senders (grab i True) s else Next s)
      | [] \<Rightarrow>
          if mSenderClosed s
          then if mWaitingSender s \<noteq> [] then Fault (AssertFailed ''pop'')
               else on_receivers (enter_set i None) s
          else on_receivers (enter_wait i) s)"

section \<open>The machine\<close>

text \<open>
  After its critical section a thread sets the futures it holds pointers to, then awaits
  its own.
\<close>

fun or_else :: "'s outcome \<Rightarrow> 's outcome \<Rightarrow> 's outcome" where
  "or_else Blocked y = y"
| "or_else x y = x"

definition thread_step :: "nat \<Rightarrow> 'a buffered \<Rightarrow> 'a buffered outcome" where
  "thread_step i s =
     or_else (on_receivers (deliver i) s) (or_else (on_senders (deliver i) s)
       (or_else (on_senders (await_step i) s) (on_receivers (await_step i) s)))"

datatype 'a buffered_event =
  Push nat 'a | PopCall nat | SetMax nat nat | CloseSenders nat | CloseReceivers nat | Go nat

definition notifies :: "nat \<Rightarrow> 'a buffered \<Rightarrow> bool" where
  "notifies i s \<longleftrightarrow> notice_of i (senders s) \<noteq> None \<or> notice_of i (receivers s) \<noteq> None"

definition idle :: "nat \<Rightarrow> 'a buffered \<Rightarrow> bool" where
  "idle i s \<longleftrightarrow> apc (senders s) i = Out \<and> apc (receivers s) i = Out \<and> \<not> notifies i s"

definition nobody_in :: "nat \<Rightarrow> 'v room \<Rightarrow> bool" where
  "nobody_in n r \<longleftrightarrow> list_all (\<lambda>i. apc r i = Out) [0..<n]"

text \<open>
  \<open>n\<close> threads call the channel, under its contract: the last sender closes the sending side
  when no push is under way and there is no push afterwards, likewise for the receivers, and
  the queue size is not 0.
\<close>

fun buffered_step :: "nat \<Rightarrow> ('a buffered_event, 'a buffered) machine" where
  "buffered_step n (Push i v) s =
     (if i < n \<and> idle i s \<and> \<not> mSenderClosed s then buffered_push i v s else Blocked)"
| "buffered_step n (PopCall i) s =
     (if i < n \<and> idle i s \<and> \<not> mReceiverClosed s then buffered_pop i s else Blocked)"
| "buffered_step n (SetMax i cnt) s =
     (if i < n \<and> idle i s \<and> 0 < cnt then setMaxQueueSize i cnt s else Blocked)"
| "buffered_step n (CloseSenders i) s =
     (if i < n \<and> idle i s \<and> \<not> mSenderClosed s \<and> nobody_in n (senders s)
      then buffered_closeSender i s else Blocked)"
| "buffered_step n (CloseReceivers i) s =
     (if i < n \<and> idle i s \<and> \<not> mReceiverClosed s \<and> nobody_in n (receivers s)
      then buffered_closeReceiver i s else Blocked)"
| "buffered_step n (Go i) s = thread_step i s"

section \<open>The invariant\<close>

definition rooms_inv :: "nat \<Rightarrow> 'v room \<Rightarrow> bool" where
  "rooms_inv n r \<longleftrightarrow> room_inv r \<and> (\<forall>i. apc r i \<noteq> Out \<longrightarrow> i < n) \<and> (\<forall>m \<in> set (notices r). fst m < n)"

definition buffered_inv :: "nat \<Rightarrow> 'a buffered \<Rightarrow> bool" where
  "buffered_inv n s \<longleftrightarrow> rooms_inv n (senders s) \<and> rooms_inv n (receivers s) \<and>
     0 < mMaxQueueSize s \<and>
     length (mWaitingSender s) \<le> length (mReadyData s) \<and>
     (mWaitingReceiver s \<noteq> [] \<longrightarrow> mReadyData s = [] \<and> \<not> mSenderClosed s) \<and>
     (mReceiverClosed s \<longrightarrow> mWaitingSender s = [] \<and> nobody_in n (receivers s)) \<and>
     (mSenderClosed s \<longrightarrow> nobody_in n (senders s)) \<and>
     (\<forall>i. apc (senders s) i = Out \<or> apc (receivers s) i = Out)"

text \<open>The room operations as the channel uses them: callers and notifiers are among the \<open>n\<close> threads.\<close>

lemma rooms_invD:
  assumes "rooms_inv n r"
  shows "room_inv r" "apc r i \<noteq> Out \<Longrightarrow> i < n" "m \<in> set (notices r) \<Longrightarrow> fst m < n"
  using assms by (auto simp: rooms_inv_def)

lemma rooms_enter_set:
  assumes "rooms_inv n r" "apc r i = Out" "i < n"
  shows "\<exists>r'. enter_set i v r = Next r' \<and> rooms_inv n r' \<and> coming r' = (coming r)(i := Some v) \<and>
    waiting r' = waiting r \<and> notices r' = notices r \<and> apc r' = (apc r)(i := AwReady)"
  using assms enter_set_spec [of r i v] by (auto simp: rooms_inv_def)

lemma rooms_enter_wait:
  assumes "rooms_inv n r" "apc r i = Out" "i < n"
  shows "\<exists>r'. enter_wait i r = Next r' \<and> rooms_inv n r' \<and> coming r' = coming r \<and>
    waiting r' = waiting r @ [i] \<and> notices r' = notices r \<and> apc r' = (apc r)(i := AwReady)"
  using assms enter_wait_spec [of r i] by (auto simp: rooms_inv_def)

lemma rooms_grab:
  assumes "rooms_inv n r" "waiting r \<noteq> []" "j < n"
  shows "\<exists>r'. grab j v r = Next r' \<and> rooms_inv n r' \<and>
    coming r' = (coming r)(hd (waiting r) := Some v) \<and>
    waiting r' = tl (waiting r) \<and> notices r' = notices r @ [(j, hd (waiting r), v)] \<and> apc r' = apc r"
  using assms grab_spec [of r j v] by (auto simp: rooms_inv_def)

lemma rooms_grab_all:
  assumes "rooms_inv n r" "j < n"
  shows "\<exists>r'. grab_all j v r = Next r' \<and> rooms_inv n r' \<and>
    (\<forall>k. coming r' k = (if k \<in> set (waiting r) then Some v else coming r k)) \<and>
    waiting r' = [] \<and> notices r' = notices r @ map (\<lambda>i. (j, i, v)) (waiting r) \<and> apc r' = apc r"
  using assms grab_all_spec [of r j v] by (fastforce simp: rooms_inv_def)

lemma rooms_grab_upto:
  assumes "rooms_inv n r" "j < n"
  shows "\<exists>r'. grab_upto k j v r = Next r' \<and> rooms_inv n r' \<and> waiting r' = drop k (waiting r) \<and>
    notices r' = notices r @ map (\<lambda>i. (j, i, v)) (take k (waiting r)) \<and> apc r' = apc r \<and>
    (\<forall>l. coming r' l = (if l \<in> set (take k (waiting r)) then Some v else coming r l))"
  using assms grab_upto_spec [of r k j v] by (fastforce simp: rooms_inv_def)

lemma rooms_deliver:
  assumes "rooms_inv n r" "notice_of j r = Some m"
  shows "\<exists>r' i v. deliver j r = Next r' \<and> rooms_inv n r' \<and> m = (j, i, v) \<and> coming r' = coming r \<and>
    waiting r' = waiting r \<and> notices r' = remove1 (j, i, v) (notices r) \<and>
    apc r' = (if apc r i = AwParked then (apc r)(i := AwResume) else apc r)"
proof -
  obtain r' i v where d: "deliver j r = Next r'" "room_inv r'" "m = (j, i, v)" "coming r' = coming r"
    "waiting r' = waiting r" "notices r' = remove1 (j, i, v) (notices r)"
    "apc r' = (if apc r i = AwParked then (apc r)(i := AwResume) else apc r)"
    using deliver_spec [OF rooms_invD(1) [OF assms(1)] assms(2)] by blast
  moreover have "rooms_inv n r'"
    using d assms(1) by (auto simp: rooms_inv_def dest: in_set_remove1 [THEN iffD1] notin_set_remove1)
  ultimately show ?thesis by blast
qed

lemma rooms_await:
  assumes "rooms_inv n r" "apc r i \<noteq> Out" "apc r i \<noteq> AwParked"
  shows "\<exists>r'. await_step i r = Next r' \<and> rooms_inv n r' \<and>
    coming r' = (if apc r i = AwResume then (coming r)(i := None) else coming r) \<and>
    waiting r' = waiting r \<and> notices r' = notices r \<and>
    (\<forall>k. k \<noteq> i \<longrightarrow> apc r' k = apc r k) \<and> (apc r' i = Out \<longleftrightarrow> apc r i = AwResume)"
proof -
  obtain r' where r': "await_step i r = Next r'" "room_inv r'"
    "coming r' = (if apc r i = AwResume then (coming r)(i := None) else coming r)"
    "waiting r' = waiting r" "notices r' = notices r"
    "\<forall>k. k \<noteq> i \<longrightarrow> apc r' k = apc r k" "apc r' i = Out \<longleftrightarrow> apc r i = AwResume"
    using await_spec [OF rooms_invD(1) [OF assms(1)] assms(2,3)] by blast
  then have "rooms_inv n r'"
    using assms(1,2) by (auto simp: rooms_inv_def)
  with r' show ?thesis by blast
qed

lemma nobody_waits:
  assumes "rooms_inv n r" "nobody_in n r"
  shows "waiting r = [] \<and> (\<forall>i. apc r i = Out)"
proof -
  have "apc r i = Out" for i
    using assms(2) rooms_invD(2) [OF assms(1), of i]
    by (cases "i < n") (auto simp: nobody_in_def list_all_iff)
  moreover from this have "waiting r = []"
    using waiting_inside [OF rooms_invD(1) [OF assms(1)], of "hd (waiting r)"]
    by (cases "waiting r") simp_all
  ultimately show ?thesis by blast
qed

lemma nobody_upd: "nobody_in n r \<Longrightarrow> apc r' = apc r \<Longrightarrow> nobody_in n r'"
  by (simp add: nobody_in_def)

lemma buffered_invD:
  assumes "buffered_inv n s"
  shows "rooms_inv n (senders s)" "rooms_inv n (receivers s)" "0 < mMaxQueueSize s"
    "length (mWaitingSender s) \<le> length (mReadyData s)"
    "mWaitingReceiver s \<noteq> [] \<Longrightarrow> mReadyData s = [] \<and> \<not> mSenderClosed s"
    "mReceiverClosed s \<Longrightarrow> mWaitingSender s = [] \<and> nobody_in n (receivers s)"
    "mSenderClosed s \<Longrightarrow> nobody_in n (senders s)"
    "apc (senders s) i = Out \<or> apc (receivers s) i = Out"
  using assms by (simp_all add: buffered_inv_def)

lemma BufferedChannel_inv: "buffered_inv n BufferedChannel"
  by (simp add: buffered_inv_def BufferedChannel_def rooms_inv_def room_inv_init)

lemma buffered_push_inv:
  assumes inv: "buffered_inv n s" and i: "i < n" "idle i s" "\<not> mSenderClosed s"
  shows "safely (buffered_inv n) (buffered_push i v s)"
proof -
  note I = buffered_invD [OF inv]
  have out: "apc (senders s) i = Out" "apc (receivers s) i = Out" using i(2) by (simp_all add: idle_def)
  show ?thesis
  proof (cases "mWaitingReceiver s = []")
    case True
    show ?thesis
    proof (cases "mReceiverClosed s \<or> length (mReadyData s) + 1 < mMaxQueueSize s")
      case set: True
      obtain r1 where "enter_set i True (senders s) = Next r1" "rooms_inv n r1" "waiting r1 = mWaitingSender s"
        "apc r1 = (apc (senders s))(i := AwReady)"
        using rooms_enter_set [OF I(1) out(1) i(1), of True] by blast
      moreover obtain r2 where "enter_set i False (senders s) = Next r2" "rooms_inv n r2" "waiting r2 = mWaitingSender s"
        "apc r2 = (apc (senders s))(i := AwReady)"
        using rooms_enter_set [OF I(1) out(1) i(1), of False] by blast
      ultimately show ?thesis using set True inv i out
        by (auto simp: buffered_push_def on_senders_def buffered_inv_def)
    next
      case wait: False
      obtain r1 where "enter_wait i (senders s) = Next r1" "rooms_inv n r1" "waiting r1 = mWaitingSender s @ [i]"
        "apc r1 = (apc (senders s))(i := AwReady)"
        using rooms_enter_wait [OF I(1) out(1) i(1)] by blast
      then show ?thesis using wait True inv i out
        by (auto simp: buffered_push_def on_senders_def buffered_inv_def)
    qed
  next
    case False
    with nobody_waits [OF I(2)] I(6) have "\<not> mReceiverClosed s" by blast
    obtain r0 where "grab i (Some v) (receivers s) = Next r0" "rooms_inv n r0"
      "waiting r0 = tl (mWaitingReceiver s)" "apc r0 = apc (receivers s)"
      using rooms_grab [OF I(2) False i(1), of "Some v"] by blast
    moreover obtain r1 where "enter_set i True (senders s) = Next r1" "rooms_inv n r1"
      "waiting r1 = mWaitingSender s" "apc r1 = (apc (senders s))(i := AwReady)"
      using rooms_enter_set [OF I(1) out(1) i(1), of True] by blast
    ultimately show ?thesis using False \<open>\<not> mReceiverClosed s\<close> inv i out
      by (auto simp: buffered_push_def on_senders_def on_receivers_def buffered_inv_def)
  qed
qed

lemma buffered_pop_inv:
  assumes inv: "buffered_inv n s" and i: "i < n" "idle i s" "\<not> mReceiverClosed s"
  shows "safely (buffered_inv n) (buffered_pop i s)"
proof -
  note I = buffered_invD [OF inv]
  have out: "apc (senders s) i = Out" "apc (receivers s) i = Out" using i(2) by (simp_all add: idle_def)
  show ?thesis
  proof (cases "mReadyData s")
    case (Cons v q)
    obtain r1 where r1: "enter_set i (Some v) (receivers s) = Next r1" "rooms_inv n r1"
      "waiting r1 = mWaitingReceiver s" "apc r1 = (apc (receivers s))(i := AwReady)"
      using rooms_enter_set [OF I(2) out(2) i(1), of "Some v"] by blast
    show ?thesis
    proof (cases "mWaitingSender s = []")
      case True
      with r1 Cons inv i out show ?thesis
        by (auto simp: buffered_pop_def on_receivers_def buffered_inv_def)
    next
      case False
      then obtain r0 where "grab i True (senders s) = Next r0" "rooms_inv n r0"
        "waiting r0 = tl (mWaitingSender s)" "apc r0 = apc (senders s)"
        using rooms_grab [OF I(1) False i(1), of True] by blast
      with r1 False Cons inv i out show ?thesis
        by (auto simp: buffered_pop_def on_receivers_def on_senders_def buffered_inv_def nobody_in_def)
    qed
  next
    case Nil
    then have ws: "mWaitingSender s = []" using I(4) by simp
    show ?thesis
    proof (cases "mSenderClosed s")
      case True
      with I(5) have wr: "mWaitingReceiver s = []" by blast
      obtain r1 where "enter_set i None (receivers s) = Next r1" "rooms_inv n r1"
        "waiting r1 = mWaitingReceiver s" "apc r1 = (apc (receivers s))(i := AwReady)"
        using rooms_enter_set [OF I(2) out(2) i(1), of None] by blast
      with Nil True ws wr inv i out show ?thesis
        by (auto simp: buffered_pop_def on_receivers_def buffered_inv_def)
    next
      case False
      obtain r1 where "enter_wait i (receivers s) = Next r1" "rooms_inv n r1"
        "waiting r1 = mWaitingReceiver s @ [i]" "apc r1 = (apc (receivers s))(i := AwReady)"
        using rooms_enter_wait [OF I(2) out(2) i(1)] by blast
      with Nil False ws inv i out show ?thesis
        by (auto simp: buffered_pop_def on_receivers_def buffered_inv_def)
    qed
  qed
qed

lemma setMax_inv:
  assumes inv: "buffered_inv n s" and i: "i < n" "0 < cnt"
  shows "safely (buffered_inv n) (setMaxQueueSize i cnt s)"
proof -
  note I = buffered_invD [OF inv]
  obtain r1 where "grab_upto (cnt - mMaxQueueSize s) i False (senders s) = Next r1" "rooms_inv n r1"
    "waiting r1 = drop (cnt - mMaxQueueSize s) (mWaitingSender s)" "apc r1 = apc (senders s)"
    using rooms_grab_upto [OF I(1) i(1), of "cnt - mMaxQueueSize s" False] by blast
  with inv i show ?thesis
    by (auto simp: setMaxQueueSize_def on_senders_def buffered_inv_def nobody_in_def)
qed

lemma closeSender_inv:
  assumes inv: "buffered_inv n s" and i: "i < n" "\<not> mSenderClosed s" "nobody_in n (senders s)"
  shows "safely (buffered_inv n) (buffered_closeSender i s)"
proof -
  note I = buffered_invD [OF inv]
  have ws: "mWaitingSender s = []" using nobody_waits [OF I(1) i(3)] by blast
  obtain r1 where "grab_all i None (receivers s) = Next r1" "rooms_inv n r1" "waiting r1 = []"
    "apc r1 = apc (receivers s)"
    using rooms_grab_all [OF I(2) i(1), of None] by blast
  with inv i ws show ?thesis
    by (auto simp: buffered_closeSender_def on_receivers_def buffered_inv_def nobody_in_def Let_def)
qed

lemma closeReceiver_inv:
  assumes inv: "buffered_inv n s" and i: "i < n" "\<not> mReceiverClosed s" "nobody_in n (receivers s)"
  shows "safely (buffered_inv n) (buffered_closeReceiver i s)"
proof -
  note I = buffered_invD [OF inv]
  have wr: "mWaitingReceiver s = []" using nobody_waits [OF I(2) i(3)] by blast
  obtain r1 where "grab_all i False (senders s) = Next r1" "rooms_inv n r1" "waiting r1 = []"
    "apc r1 = apc (senders s)"
    using rooms_grab_all [OF I(1) i(1), of False] by blast
  with inv i wr show ?thesis
    by (auto simp: buffered_closeReceiver_def on_senders_def buffered_inv_def nobody_in_def)
qed

text \<open>
  What a thread does after its critical section: it delivers its first notice, to a receiver
  or else to a sender, or makes a step of its own \<^verbatim>\<open>co::await\<close>. The cases carry what each
  leaves unchanged.
\<close>

definition same_data :: "'a buffered \<Rightarrow> 'a buffered \<Rightarrow> bool" where
  "same_data s t \<longleftrightarrow> mReadyData t = mReadyData s \<and> mSenderClosed t = mSenderClosed s \<and>
     mReceiverClosed t = mReceiverClosed s \<and> mMaxQueueSize t = mMaxQueueSize s \<and>
     mWaitingSender t = mWaitingSender s \<and> mWaitingReceiver t = mWaitingReceiver s"

definition still_out :: "'v room \<Rightarrow> 'v room \<Rightarrow> bool" where
  "still_out r r' \<longleftrightarrow> (\<forall>k. apc r k = Out \<longrightarrow> apc r' k = Out)"

lemma still_out_refl [simp]: "still_out r r"
  by (simp add: still_out_def)

text \<open>
  What a thread's step does beside: notices are delivered, or its own call goes on, and returns
  from \<open>AwResume\<close>.
\<close>

definition thread_effect :: "nat \<Rightarrow> nat \<Rightarrow> 'a buffered \<Rightarrow> 'a buffered \<Rightarrow> bool" where
  "thread_effect n i s t \<longleftrightarrow> same_data s t \<and> rooms_inv n (senders t) \<and> rooms_inv n (receivers t) \<and>
     still_out (senders s) (senders t) \<and> still_out (receivers s) (receivers t) \<and>
     (coming (senders t) = coming (senders s) \<and> coming (receivers t) = coming (receivers s) \<and>
        (notifies i s \<or> apc (senders s) i \<noteq> AwResume \<and> apc (receivers s) i \<noteq> AwResume) \<or>
      \<not> notifies i s \<and> apc (senders s) i = AwResume \<and> apc (senders t) i = Out \<and>
        coming (senders t) = (coming (senders s))(i := None) \<and>
        coming (receivers t) = coming (receivers s) \<or>
      \<not> notifies i s \<and> apc (senders s) i = Out \<and> apc (receivers s) i = AwResume \<and>
        coming (senders t) = coming (senders s) \<and>
        coming (receivers t) = (coming (receivers s))(i := None))"

lemma deliver_receivers:
  assumes inv: "buffered_inv n s" and r: "notice_of i (receivers s) = Some m"
  shows "\<exists>t. thread_step i s = Next t \<and> thread_effect n i s t"
proof -
  note I = buffered_invD [OF inv]
  have room: "room_inv (senders s)" "room_inv (receivers s)"
    using I(1,2) by (simp_all add: rooms_inv_def)
  have one: "apc (senders s) i = Out \<or> apc (receivers s) i = Out" by (rule I(8))
  obtain r' k v where "deliver i (receivers s) = Next r'" "rooms_inv n r'"
    "coming r' = coming (receivers s)" "waiting r' = waiting (receivers s)"
    "apc r' = (if apc (receivers s) k = AwParked then (apc (receivers s))(k := AwResume)
               else apc (receivers s))"
    using rooms_deliver [OF I(2) r] by blast
  with r I(1) show ?thesis
    by (simp add: thread_effect_def thread_step_def on_receivers_def same_data_def still_out_def
      notifies_def)
qed

lemma deliver_senders:
  assumes inv: "buffered_inv n s" and s: "notice_of i (receivers s) = None" "notice_of i (senders s) = Some m"
  shows "\<exists>t. thread_step i s = Next t \<and> thread_effect n i s t"
proof -
  note I = buffered_invD [OF inv]
  have room: "room_inv (senders s)" "room_inv (receivers s)"
    using I(1,2) by (simp_all add: rooms_inv_def)
  have one: "apc (senders s) i = Out \<or> apc (receivers s) i = Out" by (rule I(8))
  obtain r' k v where "deliver i (senders s) = Next r'" "rooms_inv n r'"
    "coming r' = coming (senders s)" "waiting r' = waiting (senders s)"
    "apc r' = (if apc (senders s) k = AwParked then (apc (senders s))(k := AwResume)
               else apc (senders s))"
    using rooms_deliver [OF I(1) s(2)] by blast
  with s I(2) show ?thesis
    by (simp add: thread_effect_def thread_step_def on_receivers_def on_senders_def deliver_none
      same_data_def still_out_def notifies_def)
qed

lemma await_senders:
  assumes inv: "buffered_inv n s" and as: "notice_of i (receivers s) = None" "notice_of i (senders s) = None"
      "apc (senders s) i \<noteq> Out" "apc (senders s) i \<noteq> AwParked"
  shows "\<exists>t. thread_step i s = Next t \<and> thread_effect n i s t"
proof -
  note I = buffered_invD [OF inv]
  have room: "room_inv (senders s)" "room_inv (receivers s)"
    using I(1,2) by (simp_all add: rooms_inv_def)
  have one: "apc (senders s) i = Out \<or> apc (receivers s) i = Out" by (rule I(8))
  obtain r' where "await_step i (senders s) = Next r'" "rooms_inv n r'"
    "coming r' = (if apc (senders s) i = AwResume then (coming (senders s))(i := None)
                  else coming (senders s))"
    "waiting r' = waiting (senders s)" "\<forall>k. k \<noteq> i \<longrightarrow> apc r' k = apc (senders s) k"
    "apc r' i = Out \<longleftrightarrow> apc (senders s) i = AwResume"
    using rooms_await [OF I(1) as(3,4)] by blast
  with as I(2) one show ?thesis
    by (auto simp add: thread_effect_def thread_step_def on_receivers_def on_senders_def deliver_none
      same_data_def still_out_def notifies_def)
qed

lemma await_receivers:
  assumes inv: "buffered_inv n s" and ar: "notice_of i (receivers s) = None" "notice_of i (senders s) = None"
      "apc (senders s) i = Out \<or> apc (senders s) i = AwParked"
      "apc (receivers s) i \<noteq> Out" "apc (receivers s) i \<noteq> AwParked"
  shows "\<exists>t. thread_step i s = Next t \<and> thread_effect n i s t"
proof -
  note I = buffered_invD [OF inv]
  have room: "room_inv (senders s)" "room_inv (receivers s)"
    using I(1,2) by (simp_all add: rooms_inv_def)
  have one: "apc (senders s) i = Out \<or> apc (receivers s) i = Out" by (rule I(8))
  obtain r' where "await_step i (receivers s) = Next r'" "rooms_inv n r'"
    "coming r' = (if apc (receivers s) i = AwResume then (coming (receivers s))(i := None)
                  else coming (receivers s))"
    "waiting r' = waiting (receivers s)" "\<forall>k. k \<noteq> i \<longrightarrow> apc r' k = apc (receivers s) k"
    using rooms_await [OF I(2) ar(4,5)] by blast
  moreover have "await_step i (senders s) = Blocked" using ar(3) room by (simp add: await_step_eq)
  ultimately show ?thesis using ar I(1) one
    by (auto simp add: thread_effect_def thread_step_def on_receivers_def on_senders_def deliver_none
      same_data_def still_out_def notifies_def)
qed

lemma thread_step_effect:
  assumes inv: "buffered_inv n s"
  shows "thread_step i s = Blocked \<and> \<not> notifies i s \<and>
      (apc (senders s) i = Out \<or> apc (senders s) i = AwParked) \<and>
      (apc (receivers s) i = Out \<or> apc (receivers s) i = AwParked) \<or>
    (\<exists>t. thread_step i s = Next t \<and> thread_effect n i s t)"
proof -
  have room: "room_inv (senders s)" "room_inv (receivers s)"
    using buffered_invD(1,2) [OF inv] by (simp_all add: rooms_inv_def)
  consider (r) m where "notice_of i (receivers s) = Some m"
    | (s) m where "notice_of i (receivers s) = None" "notice_of i (senders s) = Some m"
    | (as) "notice_of i (receivers s) = None" "notice_of i (senders s) = None"
        "apc (senders s) i \<noteq> Out" "apc (senders s) i \<noteq> AwParked"
    | (ar) "notice_of i (receivers s) = None" "notice_of i (senders s) = None"
        "apc (senders s) i = Out \<or> apc (senders s) i = AwParked"
        "apc (receivers s) i \<noteq> Out" "apc (receivers s) i \<noteq> AwParked"
    | (n) "notice_of i (receivers s) = None" "notice_of i (senders s) = None"
        "apc (senders s) i = Out \<or> apc (senders s) i = AwParked"
        "apc (receivers s) i = Out \<or> apc (receivers s) i = AwParked"
    by blast
  then show ?thesis
  proof cases
    case r
    then show ?thesis by (intro disjI2) (rule deliver_receivers [OF inv])
  next
    case s
    then show ?thesis by (intro disjI2) (rule deliver_senders [OF inv])
  next
    case as
    then show ?thesis by (intro disjI2) (rule await_senders [OF inv])
  next
    case ar
    then show ?thesis by (intro disjI2) (rule await_receivers [OF inv])
  next
    case n
    then show ?thesis using room
      by (intro disjI1) (simp add: thread_step_def on_receivers_def on_senders_def deliver_none
        await_step_eq notifies_def)
  qed
qed

lemmas thread_step_spec = thread_step_effect [unfolded thread_effect_def]

lemma still_out_nobody: "still_out r r' \<Longrightarrow> nobody_in n r \<Longrightarrow> nobody_in n r'"
  by (auto simp: still_out_def nobody_in_def list_all_iff)

lemma thread_step_inv:
  assumes inv: "buffered_inv n s"
  shows "safely (buffered_inv n) (thread_step i s)"
proof (cases "thread_step i s = Blocked")
  case False
  with thread_step_spec [OF inv, of i] obtain t where t: "thread_step i s = Next t"
    and d: "same_data s t" "rooms_inv n (senders t)" "rooms_inv n (receivers t)"
    and o: "still_out (senders s) (senders t)" "still_out (receivers s) (receivers t)"
    by blast
  have "\<forall>k. apc (senders t) k = Out \<or> apc (receivers t) k = Out"
    using o buffered_invD(8) [OF inv] by (auto simp: still_out_def)
  with d inv show ?thesis
    using o [THEN still_out_nobody] by (simp add: t buffered_inv_def same_data_def)
qed simp

lemma buffered_step_inv: "buffered_inv n s \<Longrightarrow> safely (buffered_inv n) (buffered_step n e s)"
  by (cases e) (auto simp: buffered_push_inv buffered_pop_inv setMax_inv closeSender_inv closeReceiver_inv thread_step_inv)

definition buffered_new :: "nat \<Rightarrow> 'a buffered" where
  "buffered_new m = BufferedChannel\<lparr>mMaxQueueSize := m\<rparr>"

lemma buffered_new_inv: "0 < m \<Longrightarrow> buffered_inv n (buffered_new m)"
  by (simp add: buffered_inv_def buffered_new_def BufferedChannel_def rooms_inv_def room_inv_init)

interpretation buffered: safe_invariant "buffered_step n" "buffered_new (Suc m)" "buffered_inv n"
  by unfold_locales
    (simp_all add: buffered_new_inv buffered_step_inv safelyD(1) del: buffered_step.simps)

section \<open>What goes through the channel\<close>

text \<open>
  A value is accepted in the critical section of a push that hands it over or queues it, and
  assigned to a receiver in the critical section that takes it out of the queue or hands it
  over; calls return their results in the last step of their \<^verbatim>\<open>co::await\<close>.
\<close>

datatype 'a traffic =
  Accepted nat 'a | Assigned nat 'a | PushReturned nat bool | PopReturned nat "'a option" | Resized

fun buffered_obs :: "'a buffered_event \<Rightarrow> 'a buffered \<Rightarrow> 'a traffic list" where
  "buffered_obs (Push i v) s =
     (if mWaitingReceiver s \<noteq> [] then [Accepted i v, Assigned (hd (mWaitingReceiver s)) v]
      else if mReceiverClosed s then [] else [Accepted i v])"
| "buffered_obs (PopCall i) s = (case mReadyData s of v # q \<Rightarrow> [Assigned i v] | [] \<Rightarrow> [])"
| "buffered_obs (SetMax i cnt) s = [Resized]"
| "buffered_obs (Go i) s =
     (if notifies i s then []
      else if apc (senders s) i \<noteq> Out
      then (case await_result i (senders s) of Some b \<Rightarrow> [PushReturned i b] | None \<Rightarrow> [])
      else (case await_result i (receivers s) of Some x \<Rightarrow> [PopReturned i x] | None \<Rightarrow> []))"
| "buffered_obs e s = []"

fun accepted :: "'a traffic list \<Rightarrow> 'a list" where
  "accepted [] = []"
| "accepted (Accepted i v # h) = v # accepted h"
| "accepted (x # h) = accepted h"

fun assigned :: "'a traffic list \<Rightarrow> 'a list" where
  "assigned [] = []"
| "assigned (Assigned i v # h) = v # assigned h"
| "assigned (x # h) = assigned h"

fun assigned_to :: "nat \<Rightarrow> 'a traffic list \<Rightarrow> 'a list" where
  "assigned_to k [] = []"
| "assigned_to k (Assigned i v # h) = (if i = k then v # assigned_to k h else assigned_to k h)"
| "assigned_to k (x # h) = assigned_to k h"

fun popped_by :: "nat \<Rightarrow> 'a traffic list \<Rightarrow> 'a list" where
  "popped_by k [] = []"
| "popped_by k (PopReturned i x # h) =
     (case x of Some v \<Rightarrow> if i = k then v # popped_by k h else popped_by k h | None \<Rightarrow> popped_by k h)"
| "popped_by k (x # h) = popped_by k h"

fun accepted_by :: "nat \<Rightarrow> 'a traffic list \<Rightarrow> nat" where
  "accepted_by k [] = 0"
| "accepted_by k (Accepted i v # h) = (if i = k then Suc (accepted_by k h) else accepted_by k h)"
| "accepted_by k (x # h) = accepted_by k h"

fun true_pushes :: "nat \<Rightarrow> 'a traffic list \<Rightarrow> nat" where
  "true_pushes k [] = 0"
| "true_pushes k (PushReturned i b # h) =
     (if i = k \<and> b then Suc (true_pushes k h) else true_pushes k h)"
| "true_pushes k (x # h) = true_pushes k h"

lemma log_append [simp]:
  "accepted (h @ h') = accepted h @ accepted h'"
  "assigned (h @ h') = assigned h @ assigned h'"
  "assigned_to k (h @ h') = assigned_to k h @ assigned_to k h'"
  "popped_by k (h @ h') = popped_by k h @ popped_by k h'"
  "accepted_by k (h @ h') = accepted_by k h + accepted_by k h'"
  "true_pushes k (h @ h') = true_pushes k h + true_pushes k h'"
       apply (induction h rule: accepted.induct; simp)
      apply (induction h rule: assigned.induct; simp)
     apply (induction k h rule: assigned_to.induct; simp)
    apply (induction k h rule: popped_by.induct; simp split: option.split)
   apply (induction k h rule: accepted_by.induct; simp)
  apply (induction k h rule: true_pushes.induct; simp)
  done

section \<open>The stream invariant\<close>

definition on_its_way :: "nat \<Rightarrow> 'a buffered \<Rightarrow> 'a list" where
  "on_its_way i s = (case coming (receivers s) i of Some (Some v) \<Rightarrow> [v] | _ \<Rightarrow> [])"

definition push_open :: "nat \<Rightarrow> 'a buffered \<Rightarrow> nat" where
  "push_open i s = (if apc (senders s) i \<noteq> Out \<and> coming (senders s) i \<noteq> Some False then 1 else 0)"

definition fifo_log :: "'a buffered \<Rightarrow> 'a traffic list \<Rightarrow> bool" where
  "fifo_log s h \<longleftrightarrow> accepted h = assigned h @ mReadyData s \<and>
     (\<forall>i. assigned_to i h = popped_by i h @ on_its_way i s) \<and>
     (\<forall>i. true_pushes i h + push_open i s \<le> accepted_by i h)"

definition end_log :: "'a buffered \<Rightarrow> 'a traffic list \<Rightarrow> bool" where
  "end_log s h \<longleftrightarrow>
     (\<forall>i. coming (receivers s) i = Some None \<or> PopReturned i None \<in> set h \<longrightarrow>
        mSenderClosed s \<and> mReadyData s = [])"

definition sized_log :: "nat \<Rightarrow> 'a buffered \<Rightarrow> 'a traffic list \<Rightarrow> bool" where
  "sized_log m s h \<longleftrightarrow> Resized \<notin> set h \<longrightarrow>
     mMaxQueueSize s = m \<and>
     (\<not> mReceiverClosed s \<longrightarrow>
        length (mWaitingSender s) = length (mReadyData s) + 1 - mMaxQueueSize s) \<and>
     (\<forall>i. coming (senders s) i = Some False \<or> PushReturned i False \<in> set h \<longrightarrow> mReceiverClosed s)"

definition logs :: "nat \<Rightarrow> 'a buffered \<Rightarrow> 'a traffic list \<Rightarrow> bool" where
  "logs m s h \<longleftrightarrow> fifo_log s h \<and> end_log s h \<and> sized_log m s h"

lemmas logs_defs = logs_def fifo_log_def end_log_def sized_log_def on_its_way_def push_open_def

lemma coming_Out: "apc r i = Out \<Longrightarrow> coming r i = None"
  by (simp add: coming_def)

lemma coming_waiting:
  assumes "rooms_inv n r" "i \<in> set (waiting r)"
  shows "coming r i = None"
proof -
  have inv: "room_inv r" using assms(1) by (rule rooms_invD)
  have "expects r i" using room_invD(2) [OF inv, of i] assms(2) by (simp add: owed_def)
  moreover have "noticed r i = None"
    using room_invD(1) [OF inv] assms(2) by (intro noticed_not_owed) (auto simp: owed_def)
  ultimately show ?thesis by (simp add: coming_def expects_def)
qed

lemma logs_pushes: "logs m s h \<Longrightarrow> true_pushes i h \<le> accepted_by i h"
  unfolding logs_def fifo_log_def using add_leD1 by blast

lemma logs_open:
  assumes "logs m s h" "apc (senders s) i \<noteq> Out" "coming (senders s) i \<noteq> Some False"
  shows "Suc (true_pushes i h) \<le> accepted_by i h"
proof -
  have "true_pushes i h + push_open i s \<le> accepted_by i h"
    using assms(1) by (simp add: logs_def fifo_log_def)
  with assms(2,3) show ?thesis by (simp add: push_open_def)
qed

lemma push_logs:
  assumes inv: "buffered_inv n s" and i: "i < n" "idle i s" "\<not> mSenderClosed s"
    and log: "logs m s h"
  shows "ensures (\<lambda>t. logs m t (h @ buffered_obs (Push i v) s)) (buffered_push i v s)"
proof -
  note I = buffered_invD [OF inv]
  have out: "apc (senders s) i = Out" "apc (receivers s) i = Out" using i(2) by (simp_all add: idle_def)
  have none: "coming (senders s) i = None" using out(1) by (rule coming_Out)
  obtain rt where rt: "enter_set i True (senders s) = Next rt"
    "coming rt = (coming (senders s))(i := Some True)" "waiting rt = mWaitingSender s"
    "apc rt = (apc (senders s))(i := AwReady)"
    using rooms_enter_set [OF I(1) out(1) i(1), of True] by blast
  obtain rf where rf: "enter_set i False (senders s) = Next rf"
    "coming rf = (coming (senders s))(i := Some False)" "waiting rf = mWaitingSender s"
    "apc rf = (apc (senders s))(i := AwReady)"
    using rooms_enter_set [OF I(1) out(1) i(1), of False] by blast
  obtain rw where rw: "enter_wait i (senders s) = Next rw" "coming rw = coming (senders s)"
    "waiting rw = mWaitingSender s @ [i]" "apc rw = (apc (senders s))(i := AwReady)"
    using rooms_enter_wait [OF I(1) out(1) i(1)] by blast
  show ?thesis
  proof (cases "mWaitingReceiver s")
    case (Cons k w)
    with I(5) have e: "mReadyData s = []" by simp
    from Cons nobody_waits [OF I(2)] I(6) have o: "\<not> mReceiverClosed s" by force
    obtain r0 where r0: "grab i (Some v) (receivers s) = Next r0"
      "coming r0 = (coming (receivers s))(k := Some (Some v))"
      using rooms_grab [OF I(2) _ i(1), of "Some v"] Cons by auto
    have "coming (receivers s) k = None" using coming_waiting [OF I(2)] Cons by simp
    with log Cons e o i none out logs_pushes [OF log, of i] show ?thesis
      by (simp add: buffered_push_def on_senders_def on_receivers_def r0 rt logs_defs)
  next
    case Nil
    show ?thesis using log Nil i none out logs_pushes [OF log]
      by (auto simp: buffered_push_def on_senders_def rt rf rw logs_defs Let_def logs_open [OF log])
  qed
qed

lemma pop_logs:
  assumes inv: "buffered_inv n s" and i: "i < n" "idle i s" "\<not> mReceiverClosed s"
    and log: "logs m s h"
  shows "ensures (\<lambda>t. logs m t (h @ buffered_obs (PopCall i) s)) (buffered_pop i s)"
proof -
  note I = buffered_invD [OF inv]
  have out: "apc (receivers s) i = Out" using i(2) by (simp add: idle_def)
  have none: "coming (receivers s) i = None" using out by (rule coming_Out)
  show ?thesis
  proof (cases "mReadyData s")
    case (Cons v q)
    obtain r1 where r1: "enter_set i (Some v) (receivers s) = Next r1"
      "coming r1 = (coming (receivers s))(i := Some (Some v))"
      using rooms_enter_set [OF I(2) out i(1), of "Some v"] by blast
    show ?thesis
    proof (cases "mWaitingSender s")
      case Nil
      with log r1 Cons i none show ?thesis
        by (auto simp: buffered_pop_def on_receivers_def logs_defs)
    next
      case ws: (Cons k w)
      then obtain r0 where r0: "grab i True (senders s) = Next r0"
        "coming r0 = (coming (senders s))(k := Some True)" "waiting r0 = w" "apc r0 = apc (senders s)"
        using rooms_grab [OF I(1) _ i(1), of True] by auto
      have "coming (senders s) k = None" using coming_waiting [OF I(1)] ws by simp
      with log logs_pushes [OF log] r0 r1 Cons ws i none show ?thesis
        by (auto simp: buffered_pop_def on_receivers_def on_senders_def logs_defs logs_open [OF log])
    qed
  next
    case Nil
    then have ws: "mWaitingSender s = []" using I(4) by simp
    obtain r1 where "enter_set i None (receivers s) = Next r1"
      "coming r1 = (coming (receivers s))(i := Some None)"
      using rooms_enter_set [OF I(2) out i(1), of None] by blast
    moreover obtain r2 where "enter_wait i (receivers s) = Next r2" "coming r2 = coming (receivers s)"
      using rooms_enter_wait [OF I(2) out i(1)] by blast
    ultimately show ?thesis using log Nil ws i none
      by (auto simp: buffered_pop_def on_receivers_def logs_defs)
  qed
qed

lemma setMax_logs:
  assumes inv: "buffered_inv n s" and i: "i < n" and log: "logs m s h"
  shows "ensures (\<lambda>t. logs m t (h @ [Resized])) (setMaxQueueSize i cnt s)"
proof -
  note I = buffered_invD [OF inv]
  let ?k = "cnt - mMaxQueueSize s"
  obtain r1 where r1: "grab_upto ?k i False (senders s) = Next r1" "apc r1 = apc (senders s)"
    "\<And>l. coming r1 l = (if l \<in> set (take ?k (mWaitingSender s)) then Some False
                     else coming (senders s) l)"
    using rooms_grab_upto [OF I(1) i, of ?k False] by blast
  show ?thesis using log logs_pushes [OF log]
    by (auto simp: setMaxQueueSize_def on_senders_def r1 logs_defs logs_open [OF log])
qed

lemma closeSender_logs:
  assumes inv: "buffered_inv n s" and i: "i < n" and log: "logs m s h"
  shows "ensures (\<lambda>t. logs m t h) (buffered_closeSender i s)"
proof -
  note I = buffered_invD [OF inv]
  obtain r1 where "grab_all i None (receivers s) = Next r1"
    "\<And>k. coming r1 k = (if k \<in> set (mWaitingReceiver s) then Some None else coming (receivers s) k)"
    using rooms_grab_all [OF I(2) i, of None] by blast
  moreover have "k \<in> set (mWaitingReceiver s) \<Longrightarrow> coming (receivers s) k = None" for k
    using coming_waiting [OF I(2)] by blast
  ultimately show ?thesis using log
    by (auto simp: buffered_closeSender_def on_receivers_def logs_defs Let_def)
qed

lemma closeReceiver_logs:
  assumes inv: "buffered_inv n s" and i: "i < n" and log: "logs m s h"
  shows "ensures (\<lambda>t. logs m t h) (buffered_closeReceiver i s)"
proof -
  note I = buffered_invD [OF inv]
  obtain r1 where "grab_all i False (senders s) = Next r1" "apc r1 = apc (senders s)"
    "\<And>k. coming r1 k = (if k \<in> set (mWaitingSender s) then Some False else coming (senders s) k)"
    using rooms_grab_all [OF I(1) i, of False] by blast
  then show ?thesis using log logs_pushes [OF log]
    by (auto simp: buffered_closeReceiver_def on_senders_def logs_defs logs_open [OF log])
qed

lemma thread_logs:
  assumes inv: "buffered_inv n s" and log: "logs m s h"
  shows "ensures (\<lambda>t. logs m t (h @ buffered_obs (Go i) s)) (thread_step i s)"
proof (cases "thread_step i s = Blocked")
  case False
  note I = buffered_invD [OF inv]
  from False thread_step_spec [OF inv, of i] obtain t where t: "thread_step i s = Next t"
    and d: "same_data s t" and o: "still_out (senders s) (senders t)"
    and c: "coming (senders t) = coming (senders s) \<and> coming (receivers t) = coming (receivers s) \<and>
          (notifies i s \<or> apc (senders s) i \<noteq> AwResume \<and> apc (receivers s) i \<noteq> AwResume) \<or>
        \<not> notifies i s \<and> apc (senders s) i = AwResume \<and> apc (senders t) i = Out \<and>
          coming (senders t) = (coming (senders s))(i := None) \<and>
          coming (receivers t) = coming (receivers s) \<or>
        \<not> notifies i s \<and> apc (senders s) i = Out \<and> apc (receivers s) i = AwResume \<and>
          coming (senders t) = coming (senders s) \<and>
          coming (receivers t) = (coming (receivers s))(i := None)"
    by blast
  have o': "apc (senders s) k \<noteq> Out" if "apc (senders t) k \<noteq> Out" for k
    using o that by (auto simp: still_out_def)
  have room: "room_inv (senders s)" "room_inv (receivers s)" using I(1,2) by (auto simp: rooms_inv_def)
  from c show ?thesis
  proof (elim disjE conjE)
    assume a: "coming (senders t) = coming (senders s)" "coming (receivers t) = coming (receivers s)"
      and "notifies i s"
    then show ?thesis using log logs_pushes [OF log] d o'
      by (auto simp: t logs_defs same_data_def logs_open [OF log])
  next
    assume a: "coming (senders t) = coming (senders s)" "coming (receivers t) = coming (receivers s)"
      and "apc (senders s) i \<noteq> AwResume" "apc (receivers s) i \<noteq> AwResume"
    then show ?thesis using log logs_pushes [OF log] d o'
      by (auto simp: t logs_defs same_data_def await_result_def logs_open [OF log])
  next
    assume a: "\<not> notifies i s" "apc (senders s) i = AwResume" "apc (senders t) i = Out"
      "coming (senders t) = (coming (senders s))(i := None)"
      "coming (receivers t) = coming (receivers s)"
    have p: "apc (senders s) i \<noteq> Out" "apc (senders s) i \<noteq> AwParked" using a(2) by simp_all
    from coming_awaited(2,3) [OF room(1) p] a(2)
    obtain b where b: "await_result i (senders s) = Some b" "coming (senders s) i = Some b" by auto
    then show ?thesis using a log logs_pushes [OF log] d o' logs_open [OF log p(1)]
      by (cases b) (auto simp: t logs_defs same_data_def logs_open [OF log])
  next
    assume a: "\<not> notifies i s" "apc (senders s) i = Out" "apc (receivers s) i = AwResume"
      "coming (senders t) = coming (senders s)"
      "coming (receivers t) = (coming (receivers s))(i := None)"
    have p: "apc (receivers s) i \<noteq> Out" "apc (receivers s) i \<noteq> AwParked" using a(3) by simp_all
    from coming_awaited(2,3) [OF room(2) p] a(3)
    obtain x where x: "await_result i (receivers s) = Some x" "coming (receivers s) i = Some x" by auto
    then show ?thesis using a log logs_pushes [OF log] d o'
      by (cases x) (auto simp: t logs_defs same_data_def logs_open [OF log])
  qed
qed simp

lemma step_logs:
  assumes inv: "buffered_inv n s" and log: "logs m s h"
  shows "ensures (\<lambda>t. logs m t (h @ buffered_obs e s)) (buffered_step n e s)"
proof (cases e)
  case (Push i v)
  then show ?thesis using push_logs [OF inv _ _ _ log, of i v] by auto
next
  case (PopCall i)
  then show ?thesis using pop_logs [OF inv _ _ _ log, of i] by auto
next
  case (SetMax i cnt)
  then show ?thesis using setMax_logs [OF inv _ log, of i cnt] by auto
next
  case (CloseSenders i)
  then show ?thesis using closeSender_logs [OF inv _ log, of i] by auto
next
  case (CloseReceivers i)
  then show ?thesis using closeReceiver_logs [OF inv _ log, of i] by auto
next
  case (Go i)
  then show ?thesis using thread_logs [OF inv log, of i] by (simp del: buffered_obs.simps)
qed

definition stream_log :: "nat \<Rightarrow> nat \<Rightarrow> 'a buffered \<times> 'a traffic list \<Rightarrow> bool" where
  "stream_log n m sh \<longleftrightarrow> buffered_inv n (fst sh) \<and> logs m (fst sh) (snd sh)"

lemma stream_log_init: "stream_log n (Suc m) (buffered_new (Suc m), [])"
  by (simp add: stream_log_def buffered_new_inv logs_defs)
    (simp add: buffered_new_def BufferedChannel_def)

lemma stream_log_step:
  assumes "stream_log n m sh"
  shows "ensures (stream_log n m) (logged buffered_obs (buffered_step n) e sh)"
proof -
  have i: "buffered_inv n (fst sh)" "logs m (fst sh) (snd sh)"
    using assms by (simp_all add: stream_log_def)
  show ?thesis
    using step_logs [OF i, of e] safelyD(1) [OF buffered_step_inv [OF i(1), of e]]
    by (cases "buffered_step n e (fst sh)") (simp_all add: logged_def stream_log_def)
qed

interpretation buffered_log:
  invariant "logged buffered_obs (buffered_step n)" "(buffered_new (Suc m), [])" "stream_log n (Suc m)"
  by unfold_locales (simp_all add: stream_log_init stream_log_step)

section \<open>Calls come to an end\<close>

fun await_left :: "await_pc \<Rightarrow> nat" where
  "await_left AwReady = 4"
| "await_left AwSuspend = 3"
| "await_left AwParked = 2"
| "await_left AwResume = 1"
| "await_left Out = 0"

definition room_left :: "nat \<Rightarrow> 'v room \<Rightarrow> nat" where
  "room_left n r = length (notices r) + (\<Sum>i<n. await_left (apc r i))"

definition buffered_left :: "nat \<Rightarrow> 'a buffered \<Rightarrow> nat" where
  "buffered_left n s = room_left n (senders s) + room_left n (receivers s)"

definition threads_step :: "nat \<Rightarrow> (nat, 'a buffered) machine" where
  "threads_step n i s = (if i < n then thread_step i s else Blocked)"

definition rests :: "nat \<Rightarrow> 'a buffered \<Rightarrow> bool" where
  "rests i s \<longleftrightarrow> \<not> notifies i s \<and> (apc (senders s) i = Out \<or> apc (senders s) i = AwParked) \<and>
     (apc (receivers s) i = Out \<or> apc (receivers s) i = AwParked)"

definition all_rest :: "nat \<Rightarrow> 'a buffered \<Rightarrow> bool" where
  "all_rest n s \<longleftrightarrow> list_all (\<lambda>i. rests i s) [0..<n]"

lemma deliver_left:
  assumes "rooms_inv n r" "deliver j r = Next r'"
  shows "room_left n r' < room_left n r"
proof -
  from assms(2) obtain m where m: "notice_of j r = Some m"
    by (cases "notice_of j r") (simp_all add: deliver_none)
  with rooms_deliver [OF assms(1) m] assms(2) obtain i v where d: "m = (j, i, v)"
    "notices r' = remove1 (j, i, v) (notices r)"
    "apc r' = (if apc r i = AwParked then (apc r)(i := AwResume) else apc r)"
    by auto
  have "m \<in> set (notices r)" using notice_of_SomeD [OF m] by blast
  then have "length (notices r') < length (notices r)"
    using d(1,2) length_pos_if_in_set [of m "notices r"] by (simp add: length_remove1)
  moreover have "(\<Sum>k<n. await_left (apc r' k)) \<le> (\<Sum>k<n. await_left (apc r k))"
    by (rule sum_mono) (simp add: d(3))
  ultimately show ?thesis by (simp add: room_left_def)
qed

lemma await_step_left:
  assumes "rooms_inv n r" "await_step i r = Next r'"
  shows "room_left n r' < room_left n r"
proof -
  have inv: "room_inv r" using assms(1) by (rule rooms_invD)
  with assms(2) have pc: "apc r i \<noteq> Out" "apc r i \<noteq> AwParked" and r': "r' = awaited i r"
    by (auto simp: await_step_eq split: if_splits)
  have "i < n" using rooms_invD(2) [OF assms(1) pc(1)] .
  have "(\<Sum>k<n. await_left (apc r' k)) < (\<Sum>k<n. await_left (apc r k))"
  proof (rule sum_strict_mono_ex1)
    show "\<forall>k \<in> {..<n}. await_left (apc r' k) \<le> await_left (apc r k)"
      using pc by (auto simp: r' awaited_def split: await_pc.split)
    show "\<exists>k \<in> {..<n}. await_left (apc r' k) < await_left (apc r k)"
      using pc \<open>i < n\<close> by (intro bexI [of _ i]) (auto simp: r' awaited_def split: await_pc.split)
  qed simp
  moreover have "notices r' = notices r"
    by (simp add: r' awaited_def split: await_pc.split)
  ultimately show ?thesis by (simp add: room_left_def)
qed

lemma or_else_Next: "or_else x y = Next t \<longleftrightarrow> x = Next t \<or> x = Blocked \<and> y = Next t"
  by (cases x) simp_all

lemma thread_step_left:
  assumes "buffered_inv n s" "thread_step i s = Next t"
  shows "buffered_left n t < buffered_left n s"
  using assms(2) deliver_left [OF buffered_invD(1) [OF assms(1)], of i]
    deliver_left [OF buffered_invD(2) [OF assms(1)], of i]
    await_step_left [OF buffered_invD(1) [OF assms(1)], of i]
    await_step_left [OF buffered_invD(2) [OF assms(1)], of i]
  by (auto simp: thread_step_def or_else_Next on_senders_def on_receivers_def buffered_left_def)

lemma not_rests_progress:
  assumes "buffered_inv n s" "\<not> all_rest n s"
  shows "\<exists>i t. threads_step n i s = Next t"
proof -
  from assms(2) obtain i where i: "i < n" "\<not> rests i s" by (auto simp: all_rest_def list_all_iff)
  with thread_step_spec [OF assms(1), of i] obtain t where "thread_step i s = Next t"
    unfolding rests_def by blast
  with i have "threads_step n i s = Next t" by (simp add: threads_step_def)
  then show ?thesis by blast
qed

interpretation buffered_calls:
  terminating "threads_step n" "buffered_new (Suc m)" "buffered_inv n" "all_rest n" "buffered_left n"
proof unfold_locales
  fix s :: "'a buffered" and i t
  assume inv: "buffered_inv n s"
  show "ensures (buffered_inv n) (threads_step n i s)"
    using thread_step_inv [OF inv] by (simp add: threads_step_def safelyD(1))
  assume "threads_step n i s = Next t"
  then show "buffered_left n t < buffered_left n s"
    using thread_step_left [OF inv] by (simp add: threads_step_def split: if_splits)
qed (simp_all add: buffered_new_inv not_rests_progress)

lemma room_left_bound:
  assumes "rooms_inv n r"
  shows "length (notices r) \<le> n"
proof -
  have inv: "room_inv r" using assms by (rule rooms_invD)
  have "length (notices r) \<le> length (owed r)" by (simp add: owed_def)
  also have "\<dots> = card (set (owed r))" using room_invD(1) [OF inv] by (simp add: distinct_card)
  also have "\<dots> \<le> card {..<n}"
    using room_invD(2) [OF inv] rooms_invD(2) [OF assms]
    by (intro card_mono) (auto simp: expects_def)
  finally show ?thesis by simp
qed

lemma buffered_left_bound:
  assumes "buffered_inv n s"
  shows "buffered_left n s \<le> 6 * n"
proof -
  have "await_left (apc (senders s) i) + await_left (apc (receivers s) i) \<le> 4" for i
    using buffered_invD(8) [OF assms, of i]
    by (cases "apc (senders s) i"; cases "apc (receivers s) i"; simp)
  then have "(\<Sum>i<n. await_left (apc (senders s) i) + await_left (apc (receivers s) i)) \<le> (\<Sum>i<n. 4)"
    by (intro sum_mono)
  moreover have "length (notices (senders s)) \<le> n" "length (notices (receivers s)) \<le> n"
    using room_left_bound buffered_invD(1,2) [OF assms] by blast+
  ultimately show ?thesis by (simp add: buffered_left_def room_left_def sum.distrib)
qed

lemma no_notices:
  assumes "rooms_inv n r" "\<And>i. i < n \<Longrightarrow> notice_of i r = None"
  shows "notices r = []"
proof (rule ccontr)
  assume "notices r \<noteq> []"
  then have m: "hd (notices r) \<in> set (notices r)" by simp
  then have "fst (hd (notices r)) < n" using rooms_invD(3) [OF assms(1)] by blast
  from assms(2) [OF this] m show False unfolding notice_of_None by blast
qed

lemma all_rest_notices:
  assumes "buffered_inv n s" "all_rest n s"
  shows "notices (senders s) = [] \<and> notices (receivers s) = []"
proof -
  have "notice_of i (senders s) = None" "notice_of i (receivers s) = None" if "i < n" for i
  proof -
    have "rests i s" using that assms(2) by (simp add: all_rest_def list_all_iff)
    then show "notice_of i (senders s) = None" "notice_of i (receivers s) = None"
      unfolding rests_def notifies_def by blast+
  qed
  then show ?thesis
    using no_notices [OF buffered_invD(1) [OF assms(1)]] no_notices [OF buffered_invD(2) [OF assms(1)]]
    by blast
qed

text \<open>Callers left waiting wait for the other side, and only one side can.\<close>

lemma all_rest_waits:
  assumes inv: "buffered_inv n s" and rest: "all_rest n s"
  shows "(apc (senders s) i = AwParked \<longrightarrow> i \<in> set (mWaitingSender s) \<and> mReadyData s \<noteq> [] \<and> \<not> mReceiverClosed s) \<and>
    (apc (receivers s) j = AwParked \<longrightarrow> j \<in> set (mWaitingReceiver s) \<and> mReadyData s = [] \<and> \<not> mSenderClosed s)"
proof -
  note N = all_rest_notices [OF assms]
  note I = buffered_invD [OF inv]
  have "i \<in> set (mWaitingSender s)" if "apc (senders s) i = AwParked"
    using parked_waits [OF rooms_invD(1) [OF I(1)] that] N by simp
  moreover have "j \<in> set (mWaitingReceiver s)" if "apc (receivers s) j = AwParked"
    using parked_waits [OF rooms_invD(1) [OF I(2)] that] N by simp
  moreover have "mReadyData s \<noteq> [] \<and> \<not> mReceiverClosed s" if "i \<in> set (mWaitingSender s)"
  proof -
    from that have "mWaitingSender s \<noteq> []" by auto
    with I(4) I(6) show ?thesis by auto
  qed
  moreover have "mReadyData s = [] \<and> \<not> mSenderClosed s" if "j \<in> set (mWaitingReceiver s)"
  proof -
    from that have "mWaitingReceiver s \<noteq> []" by auto
    with I(5) show ?thesis by simp
  qed
  ultimately show ?thesis by blast
qed

section \<open>Making and destroying the channel\<close>

definition makeBufferedChannel :: "nat \<Rightarrow> 'a buffered outcome" where
  "makeBufferedChannel maxQueueSize = setMaxQueueSize 0 maxQueueSize BufferedChannel"

definition buffered_destroy :: "'a buffered \<Rightarrow> 'a buffered outcome" where
  "buffered_destroy s =
     (if mSenderClosed s \<and> mReceiverClosed s \<and> mWaitingSender s = [] \<and> mWaitingReceiver s = []
      then Next s else Fault (AssertFailed ''~BufferedChannel''))"

lemma grab_upto_empty: "waiting r = [] \<Longrightarrow> grab_upto n j v r = Next r"
  by (cases n) simp_all

lemma makeBufferedChannel_eq:
  "makeBufferedChannel m =
    (if m = 0 then Fault (AssertFailed ''setMaxQueueSize'') else Next (buffered_new m))"
  by (simp add: makeBufferedChannel_def setMaxQueueSize_def on_senders_def buffered_new_def
      BufferedChannel_def grab_upto_empty)

lemma made_channel:
  assumes "makeBufferedChannel m = Next s0"
  obtains k where "m = Suc k" "s0 = buffered_new (Suc k)"
  using assms by (cases m) (simp_all add: makeBufferedChannel_eq)

lemma made_invariant: "makeBufferedChannel m = Next s0 \<Longrightarrow> reach (buffered_step n) s0 s \<Longrightarrow> buffered_inv n s"
  by (erule made_channel) (auto intro: buffered.reachable)

lemma made_log:
  assumes "makeBufferedChannel m = Next s0" "run (buffered_step n) es s0 = Next t"
    and "h = observe buffered_obs (buffered_step n) es s0"
  shows "buffered_inv n t \<and> logs m t h"
proof -
  from assms(1) obtain k where k: "m = Suc k" "s0 = buffered_new (Suc k)" by (rule made_channel)
  from logged_run [OF assms(2), of buffered_obs "[]"]
  have "run (logged buffered_obs (buffered_step n)) es (s0, []) = Next (t, h)" by (simp add: assms(3))
  then have "stream_log n m (t, h)"
    using buffered_log.along_run [OF stream_log_init] k by blast
  then show ?thesis by (simp add: stream_log_def)
qed

section \<open>Properties\<close>

text \<open>
  C11. The buffered channel is a queue that loses and duplicates nothing. With any number of
  senders and receivers in any interleaving, the values accepted from pushes are, in order,
  those assigned to pops and then those in the deque; and what the pops of a receiver return
  is what was assigned to it, in order, up to one value on its way to a pop that has not
  returned yet.
\<close>

theorem buffered_queue:
  assumes "makeBufferedChannel m = Next s0" "run (buffered_step n) es s0 = Next t"
    and "h = observe buffered_obs (buffered_step n) es s0"
  shows "accepted h = assigned h @ mReadyData t \<and>
    (\<exists>zs. assigned_to i h = popped_by i h @ zs \<and> length zs \<le> 1 \<and>
       (apc (receivers t) i = Out \<longrightarrow> zs = []))"
proof -
  from made_log [OF assms] have f: "fifo_log t h" by (simp add: logs_def)
  have "length (on_its_way i t) \<le> 1" by (simp add: on_its_way_def split: option.split)
  moreover have "apc (receivers t) i = Out \<Longrightarrow> on_its_way i t = []"
    by (simp add: on_its_way_def coming_Out)
  ultimately show ?thesis using f unfolding fifo_log_def by blast
qed

text \<open>
  Thread 0 sends 5, 6 and 7 on a channel of size 2, the third push when thread 1 has taken
  the first two; thread 1 pops three times, the last time before there is a value.
\<close>

definition exchange3 :: "nat buffered_event list" where
  "exchange3 = [Push 0 5, Go 0, Go 0, Push 0 6, Go 0, Go 0, PopCall 1, Go 1, Go 0, Go 1, Go 1,
     PopCall 1, Go 1, Go 1, PopCall 1, Go 1, Go 1, Push 0 7, Go 0, Go 1, Go 0]"

lemmas room_eval = enter_set_def enter_wait_def grab_def grab_all_def deliver_def notice_of_def
  await_step_def await_result_def resume_caller_def room_init_def future_defs

lemmas buffered_eval = exchange3_def buffered_new_def BufferedChannel_def idle_def notifies_def
  nobody_in_def buffered_push_def buffered_pop_def setMaxQueueSize_def buffered_closeSender_def
  buffered_closeReceiver_def on_senders_def on_receivers_def thread_step_def room_eval
  makeBufferedChannel_eq numeral_eq_Suc

lemma buffered_queue_witness:
  "\<exists>s0 t h. makeBufferedChannel 2 = Next s0 \<and> run (buffered_step 2) exchange3 s0 = Next t \<and>
     h = observe buffered_obs (buffered_step 2) exchange3 s0 \<and> accepted h = [5, 6, 7] \<and>
     assigned h = [5, 6, 7] \<and> mReadyData t = []"
proof -
  obtain s0 :: "nat buffered" where s0: "makeBufferedChannel 2 = Next s0" "s0 = buffered_new 2"
    by (simp add: makeBufferedChannel_eq)
  obtain t where t: "run (buffered_step 2) exchange3 s0 = Next t" "mReadyData t = []"
    by (simp add: s0 buffered_eval)
  have "accepted (observe buffered_obs (buffered_step 2) exchange3 s0) = [5, 6, 7]"
    by (simp add: s0 buffered_eval)
  with buffered_queue [OF s0(1) t(1) refl] s0(1) t show ?thesis by simp
qed

text \<open>
  The end of the stream is real. When a pop has returned nothing, the senders are closed,
  the deque is empty and stays so, and everything accepted has been assigned to a pop.
\<close>

lemma buffered_end_of_stream:
  assumes "makeBufferedChannel m = Next s0" "run (buffered_step n) es s0 = Next t"
    and "h = observe buffered_obs (buffered_step n) es s0"
    and "PopReturned i None \<in> set h"
  shows "mSenderClosed t \<and> mReadyData t = [] \<and> accepted h = assigned h"
  using made_log [OF assms(1-3)] assms(4) unfolding logs_def fifo_log_def end_log_def by fastforce

definition exchange1 :: "nat buffered_event list" where
  "exchange1 = [Push 0 5, Go 0, Go 0, CloseSenders 0, PopCall 1, Go 1, Go 1, PopCall 1, Go 1, Go 1]"

lemma buffered_end_of_stream_witness:
  "\<exists>s0 t h. makeBufferedChannel 2 = Next s0 \<and> run (buffered_step 2) exchange1 s0 = Next t \<and>
     h = [Accepted 0 5, PushReturned 0 True, Assigned 1 5, PopReturned 1 (Some 5), PopReturned 1 None] \<and>
     mSenderClosed t \<and> mReadyData t = []"
proof -
  obtain s0 :: "nat buffered" where s0: "makeBufferedChannel 2 = Next s0" "s0 = buffered_new 2"
    by (simp add: makeBufferedChannel_eq)
  obtain t where t: "run (buffered_step 2) exchange1 s0 = Next t"
    by (simp add: s0 exchange1_def buffered_eval)
  have h: "observe buffered_obs (buffered_step 2) exchange1 s0 =
      [Accepted 0 5, PushReturned 0 True, Assigned 1 5, PopReturned 1 (Some 5), PopReturned 1 None]"
    by (simp add: s0 exchange1_def buffered_eval)
  from buffered_end_of_stream [OF s0(1) t h [symmetric], of 1] s0(1) t show ?thesis by auto
qed

text \<open>
  What a push returns. No more pushes of a sender have returned true than values of that
  sender were accepted; and as long as \<^verbatim>\<open>setMaxQueueSize\<close> is not called again, a push returns
  false only when the receivers are closed.
\<close>

lemma buffered_push_result:
  assumes "makeBufferedChannel m = Next s0" "run (buffered_step n) es s0 = Next t"
    and "h = observe buffered_obs (buffered_step n) es s0"
  shows "true_pushes i h \<le> accepted_by i h \<and>
    (Resized \<notin> set h \<and> PushReturned i False \<in> set h \<longrightarrow> mReceiverClosed t)"
proof -
  from made_log [OF assms] have l: "logs m t h" by blast
  then have "sized_log m t h" by (simp add: logs_def)
  with logs_pushes [OF l, of i] show ?thesis unfolding sized_log_def by blast
qed

definition rejected1 :: "nat buffered_event list" where
  "rejected1 = [Push 0 5, Go 0, Go 0, CloseReceivers 1, Push 0 6, Go 0, Go 0]"

lemma buffered_push_result_witness:
  "\<exists>s0 t h. makeBufferedChannel 2 = Next s0 \<and> run (buffered_step 2) rejected1 s0 = Next t \<and>
     h = [Accepted 0 5, PushReturned 0 True, PushReturned 0 False] \<and> mReceiverClosed t"
proof -
  obtain s0 :: "nat buffered" where s0: "makeBufferedChannel 2 = Next s0" "s0 = buffered_new 2"
    by (simp add: makeBufferedChannel_eq)
  obtain t where t: "run (buffered_step 2) rejected1 s0 = Next t"
    by (simp add: s0 rejected1_def buffered_eval)
  have h: "observe buffered_obs (buffered_step 2) rejected1 s0 =
      [Accepted 0 5, PushReturned 0 True, PushReturned 0 False]"
    by (simp add: s0 rejected1_def buffered_eval)
  from buffered_push_result [OF s0(1) t h [symmetric], of 0] s0(1) t show ?thesis by auto
qed

definition resize_run :: "nat buffered_event list" where
  "resize_run = [Push 0 5, Go 0, Go 0, SetMax 1 2, Go 1, Go 0, PopCall 1, Go 1, Go 1]"

text \<open>
  A push returns false for a value that is delivered. On a channel of size 1 thread 0
  pushes 5 and is suspended, thread 1 raises the size to 2: the push returns false, as if the
  receivers were gone, and the next pop returns 5.
\<close>

lemma resize_rejects_a_queued_value:
  "\<exists>s0 t. makeBufferedChannel 1 = Next s0 \<and> run (buffered_step 2) resize_run s0 = Next t \<and>
     observe buffered_obs (buffered_step 2) resize_run s0 =
       [Accepted 0 5, Resized, PushReturned 0 False, Assigned 1 5, PopReturned 1 (Some 5)] \<and>
     \<not> mReceiverClosed t"
  by (simp add: makeBufferedChannel_eq) (simp add: resize_run_def buffered_eval)


definition full2 :: "nat buffered_event list" where
  "full2 = [Push 0 5, Go 0, Go 0, Push 0 6, Go 0, Go 0]"


text \<open>
  C27. Under its contract no assertion of the channel fails, no empty deque is popped and no
  future is set that does not exist any more; and once both sides are closed, the assertions
  of the destructor hold.
\<close>

theorem buffered_no_fault:
  assumes "makeBufferedChannel m = Next s0" "reach (buffered_step n) s0 s"
  shows "buffered_step n e s \<noteq> Fault f \<and>
    (mSenderClosed s \<and> mReceiverClosed s \<longrightarrow> buffered_destroy s = Next s)"
proof -
  have inv: "buffered_inv n s" by (rule made_invariant [OF assms])
  have "buffered_destroy s = Next s" if "mSenderClosed s" "mReceiverClosed s"
    using that nobody_waits [OF buffered_invD(2) [OF inv]] buffered_invD(6) [OF inv]
      nobody_waits [OF buffered_invD(1) [OF inv]] buffered_invD(7) [OF inv]
    by (simp add: buffered_destroy_def)
  with safelyD(2) [OF buffered_step_inv [OF inv]] show ?thesis by blast
qed

lemma buffered_no_fault_witness:
  "\<exists>s0 s. makeBufferedChannel 2 = Next s0 \<and>
     run (buffered_step 2) (full2 @ [CloseReceivers 1, Go 1, Go 0, CloseSenders 0]) s0 = Next s \<and>
     buffered_destroy s = Next s"
proof -
  let ?es = "full2 @ [CloseReceivers 1, Go 1, Go 0, CloseSenders 0]"
  obtain s0 :: "nat buffered" where s0: "makeBufferedChannel 2 = Next s0" "s0 = buffered_new 2"
    by (simp add: makeBufferedChannel_eq)
  obtain s where s: "run (buffered_step 2) ?es s0 = Next s" "mSenderClosed s" "mReceiverClosed s"
    by (simp add: s0 full2_def buffered_eval)
  from buffered_no_fault [OF s0(1) run_reach [OF s(1)]] s0(1) s show ?thesis by blast
qed

text \<open>
  C12. No lost wake-up. From every reachable state the calls of \<open>n\<close> threads go on for at most
  \<open>6 * n\<close> steps, and they come to rest in a state where a push still suspended has its
  pointer in the deque, values are ready and the receivers open, and a pop still suspended
  has its pointer in the deque, no value is ready and the senders are open: never both.
\<close>

theorem buffered_calls_end:
  assumes "makeBufferedChannel m = Next s0" "reach (buffered_step n) s0 s"
  shows "(run (threads_step n) is s = Next u \<longrightarrow> length is \<le> 6 * n) \<and>
    (\<exists>js t. run (threads_step n) js s = Next t \<and> all_rest n t \<and>
      (\<forall>i. (apc (senders t) i = AwParked \<longrightarrow>
              i \<in> set (mWaitingSender t) \<and> mReadyData t \<noteq> [] \<and> \<not> mReceiverClosed t) \<and>
           (apc (receivers t) i = AwParked \<longrightarrow>
              i \<in> set (mWaitingReceiver t) \<and> mReadyData t = [] \<and> \<not> mSenderClosed t)))"
proof -
  have inv: "buffered_inv n s" by (rule made_invariant [OF assms])
  have "run (threads_step n) is s = Next u \<longrightarrow> length is \<le> 6 * n"
    using buffered_calls.bounded [OF inv] buffered_left_bound [OF inv] le_trans add_leE by meson
  moreover obtain js t where t: "run (threads_step n) js s = Next t" "all_rest n t"
    using buffered_calls.completes [OF inv] by blast
  moreover have "buffered_inv n t" by (rule buffered_calls.along_run [OF inv t(1)])
  ultimately show ?thesis using all_rest_waits by blast
qed

lemma buffered_calls_end_witness:
  "\<exists>s0 s. makeBufferedChannel 2 = Next s0 \<and>
     run (buffered_step 2) (full2 @ [PopCall 1]) s0 = Next s \<and> notifies 1 s \<and>
     (\<exists>js t. run (threads_step 2) js s = Next t \<and> all_rest 2 t)"
proof -
  obtain s0 :: "nat buffered" where s0: "makeBufferedChannel 2 = Next s0" "s0 = buffered_new 2"
    by (simp add: makeBufferedChannel_eq)
  obtain s where s: "run (buffered_step 2) (full2 @ [PopCall 1]) s0 = Next s" "notifies 1 s"
    by (auto simp: s0 full2_def buffered_eval)
  from buffered_calls_end [OF s0(1) run_reach [OF s(1)]] s0(1) s show ?thesis by blast
qed

end
