(* ===== verification/Handles.thy ===== *)
theory Handles
  imports Prelude
begin

text \<open>
  The handles of a channel in \<^verbatim>\<open>include/co/channel.hpp\<close>: \<^verbatim>\<open>Sender\<close> and \<^verbatim>\<open>Receiver\<close>, which
  own the duty to close their side and pass it on when they are moved, and the input iterator
  of \<^verbatim>\<open>Receiver\<close>. The two handle classes have the same code up to the name of the side, so
  one model serves both; \<open>closed\<close> records the calls of \<^verbatim>\<open>closeSender()\<close> or
  \<^verbatim>\<open>closeReceiver()\<close>.
\<close>

section \<open>Sender and Receiver\<close>

text \<open>
  \<open>handles\<close> maps the handle objects that exist to their \<^verbatim>\<open>mChannel\<close>, null or a channel.
  \<open>opened\<close> lists the channels that were given a handle.
\<close>

record side =
  handles :: "nat \<Rightarrow> nat option option"
  closed :: "nat list"
  opened :: "nat list"

definition side_init :: side where
  "side_init = \<lparr>handles = (\<lambda>i. None), closed = [], opened = []\<rparr>"

definition handle_new :: "nat \<Rightarrow> nat \<Rightarrow> side \<Rightarrow> side" where
  "handle_new i c s = s\<lparr>handles := (handles s)(i := Some (Some c)), opened := opened s @ [c]\<rparr>"

definition handle_close :: "nat \<Rightarrow> side \<Rightarrow> side outcome" where
  "handle_close i s =
     (case handles s i of
        None \<Rightarrow> Fault UseAfterFree
      | Some None \<Rightarrow> Next s
      | Some (Some c) \<Rightarrow>
          Next (s\<lparr>handles := (handles s)(i := Some None), closed := closed s @ [c]\<rparr>))"

definition handle_move :: "nat \<Rightarrow> nat \<Rightarrow> side \<Rightarrow> side outcome" where
  "handle_move i other s =
     (case handles s other of
        None \<Rightarrow> Fault UseAfterFree
      | Some p \<Rightarrow> Next (s\<lparr>handles := (handles s)(i := Some p, other := Some None)\<rparr>))"

text \<open>
  \<^verbatim>\<open>operator=(Sender&&)\<close> closes, swaps and then ends without the \<^verbatim>\<open>return\<close> its result type
  asks for; \<open>handle_assigned\<close> is what it has done by then.
\<close>

definition handle_assigned :: "nat \<Rightarrow> nat \<Rightarrow> side \<Rightarrow> side outcome" where
  "handle_assigned i other s =
     bind_outcome (handle_close i s)
       (\<lambda>s. case (handles s i, handles s other) of
          (Some p, Some q) \<Rightarrow> Next (s\<lparr>handles := (handles s)(i := Some q, other := Some p)\<rparr>)
        | _ \<Rightarrow> Fault UseAfterFree)"

definition handle_assign :: "nat \<Rightarrow> nat \<Rightarrow> side \<Rightarrow> side outcome" where
  "handle_assign i other s = bind_outcome (handle_assigned i other s) (\<lambda>s. Fault MissingReturn)"

definition handle_destroy :: "nat \<Rightarrow> side \<Rightarrow> side outcome" where
  "handle_destroy i s =
     bind_outcome (handle_close i s) (\<lambda>s. Next (s\<lparr>handles := (handles s)(i := None)\<rparr>))"

text \<open>
  \<^verbatim>\<open>operator()\<close> forwards to the channel's \<^verbatim>\<open>push\<close>, as \<^verbatim>\<open>pop\<close> does in the iterator: which
  channel, if the handle still has one.
\<close>

definition handle_channel :: "nat \<Rightarrow> side \<Rightarrow> fault + nat" where
  "handle_channel i s =
     (case handles s i of
        None \<Rightarrow> Inl UseAfterFree | Some None \<Rightarrow> Inl NullDeref | Some (Some c) \<Rightarrow> Inr c)"

datatype handle_event =
  New nat nat | Move nat nat | CloseHandle nat | Destroy nat

text \<open>
  Programs that use the handles: a new handle gets a new channel, handles are moved into new
  handles, closed and destroyed, always while they exist.
\<close>

fun handles_step :: "(handle_event, side) machine" where
  "handles_step (New i c) s =
     (if handles s i = None \<and> c \<notin> set (opened s) then Next (handle_new i c s) else Blocked)"
| "handles_step (Move i other) s =
     (if handles s i = None \<and> handles s other \<noteq> None then handle_move i other s else Blocked)"
| "handles_step (CloseHandle i) s =
     (if handles s i \<noteq> None then handle_close i s else Blocked)"
| "handles_step (Destroy i) s =
     (if handles s i \<noteq> None then handle_destroy i s else Blocked)"

definition owns :: "side \<Rightarrow> nat \<Rightarrow> nat \<Rightarrow> bool" where
  "owns s i c \<longleftrightarrow> handles s i = Some (Some c)"

definition side_inv :: "side \<Rightarrow> bool" where
  "side_inv s \<longleftrightarrow> distinct (closed s) \<and> distinct (opened s) \<and>
     (\<forall>c. c \<in> set (opened s) \<longleftrightarrow> c \<in> set (closed s) \<or> (\<exists>i. owns s i c)) \<and>
     (\<forall>i c. owns s i c \<longrightarrow> c \<notin> set (closed s)) \<and>
     (\<forall>i j c. owns s i c \<and> owns s j c \<longrightarrow> i = j)"

lemma owns_upd [simp]:
  "owns (s\<lparr>handles := (handles s)(i := p), closed := xs\<rparr>) j c =
    (if j = i then p = Some (Some c) else owns s j c)"
  "owns (s\<lparr>handles := (handles s)(i := p), opened := xs\<rparr>) j c =
    (if j = i then p = Some (Some c) else owns s j c)"
  "owns (s\<lparr>handles := (handles s)(i := p)\<rparr>) j c = (if j = i then p = Some (Some c) else owns s j c)"
  "owns (s\<lparr>handles := (handles s)(i := p, k := q)\<rparr>) j c =
    (if j = k then q = Some (Some c) else if j = i then p = Some (Some c) else owns s j c)"
  by (simp_all add: owns_def)

lemma side_invI:
  assumes "distinct (closed s)" "distinct (opened s)"
    "\<And>c. c \<in> set (opened s) \<longleftrightarrow> c \<in> set (closed s) \<or> (\<exists>i. owns s i c)"
    "\<And>i c. owns s i c \<Longrightarrow> c \<notin> set (closed s)"
    "\<And>i j c. owns s i c \<Longrightarrow> owns s j c \<Longrightarrow> i = j"
  shows "side_inv s"
  using assms unfolding side_inv_def by blast

lemma side_invD:
  assumes "side_inv s"
  shows "distinct (closed s)" "distinct (opened s)"
    "c \<in> set (opened s) \<longleftrightarrow> c \<in> set (closed s) \<or> (\<exists>i. owns s i c)"
    "owns s i c \<Longrightarrow> c \<notin> set (closed s)"
    "owns s i c \<Longrightarrow> owns s j c \<Longrightarrow> i = j"
  using assms unfolding side_inv_def by blast+

text \<open>
  A change of who owns what that keeps the set of owned channels, up to those that are
  closed or opened on the way.
\<close>

lemma handle_new_inv:
  assumes "side_inv s" "handles s i = None" "c \<notin> set (opened s)"
  shows "side_inv (handle_new i c s)"
proof (rule side_invI)
  note I = side_invD [OF assms(1)]
  have n: "\<not> owns s i d" for d using assms(2) by (simp add: owns_def)
  have c: "c \<notin> set (closed s)" "\<not> owns s j c" for j using I(3) assms(3) by blast+
  have t: "owns (handle_new i c s) j d \<longleftrightarrow> j = i \<and> d = c \<or> owns s j d" for j d
    using n by (auto simp: handle_new_def)
  show "d \<in> set (opened (handle_new i c s)) \<longleftrightarrow>
      d \<in> set (closed (handle_new i c s)) \<or> (\<exists>j. owns (handle_new i c s) j d)" for d
    using I(3) [of d] unfolding t by (auto simp: handle_new_def)
  show "owns (handle_new i c s) j d \<Longrightarrow> d \<notin> set (closed (handle_new i c s))" for j d
    using I(4) c by (auto simp: handle_new_def split: if_splits)
  show "owns (handle_new i c s) j d \<Longrightarrow> owns (handle_new i c s) k d \<Longrightarrow> j = k" for j k d
    using I(5) c by (auto simp: handle_new_def split: if_splits)
qed (use side_invD(1,2) [OF assms(1)] assms(3) in \<open>simp_all add: handle_new_def\<close>)

lemma close_owned_inv:
  assumes "side_inv s" "handles s i = Some (Some c)"
  shows "side_inv (s\<lparr>handles := (handles s)(i := Some None), closed := closed s @ [c]\<rparr>)"
    (is "side_inv ?t")
proof (rule side_invI)
  note I = side_invD [OF assms(1)]
  have o: "owns s i c" using assms(2) by (simp add: owns_def)
  have u: "d = c" if "owns s i d" for d using that o by (simp add: owns_def)
  have t: "owns ?t j d \<longleftrightarrow> owns s j d \<and> j \<noteq> i" for j d by simp
  have ex: "(\<exists>j. owns s j d \<and> j \<noteq> i) \<longleftrightarrow> (\<exists>j. owns s j d) \<and> d \<noteq> c" for d
    using o u I(5) by blast
  show "d \<in> set (opened ?t) \<longleftrightarrow> d \<in> set (closed ?t) \<or> (\<exists>j. owns ?t j d)" for d
    using I(3) [of d] o unfolding t ex by auto
  show "owns ?t j d \<Longrightarrow> d \<notin> set (closed ?t)" for j d
    using I(4) [of j d] I(5) [of j d i] o unfolding t by auto
  show "owns ?t j d \<Longrightarrow> owns ?t k d \<Longrightarrow> j = k" for j k d
    using I(5) unfolding t by blast
qed (use side_invD(1,2) [OF assms(1)] side_invD(4) [OF assms(1)] assms(2) in \<open>simp_all add: owns_def\<close>)

lemma pass_on_inv:
  assumes "side_inv s" "handles s i = None" "handles s other = Some p"
  shows "side_inv (s\<lparr>handles := (handles s)(i := Some p, other := Some None)\<rparr>)"
    (is "side_inv ?t")
proof (rule side_invI)
  note I = side_invD [OF assms(1)]
  have n: "\<not> owns s i d" for d using assms(2) by (simp add: owns_def)
  have ne: "i \<noteq> other" using assms(2,3) by auto
  have o: "owns s other d \<longleftrightarrow> p = Some d" for d using assms(3) by (simp add: owns_def)
  have t: "owns ?t j d \<longleftrightarrow> (if j = i then owns s other d else j \<noteq> other \<and> owns s j d)" for j d
    using ne o by simp
  show "d \<in> set (opened ?t) \<longleftrightarrow> d \<in> set (closed ?t) \<or> (\<exists>j. owns ?t j d)" for d
    using I(3) [of d] n unfolding t by (simp, metis)
  show "owns ?t j d \<Longrightarrow> d \<notin> set (closed ?t)" for j d
    using I(4) unfolding t by (auto split: if_splits)
  show "owns ?t j d \<Longrightarrow> owns ?t k d \<Longrightarrow> j = k" for j k d
    using I(5) unfolding t by (auto split: if_splits)
qed (use side_invD(1,2) [OF assms(1)] in simp_all)

lemma forget_inv:
  assumes "side_inv s" "handles s i = Some None"
  shows "side_inv (s\<lparr>handles := (handles s)(i := None)\<rparr>)" (is "side_inv ?t")
proof -
  have "owns ?t = owns s" using assms(2) by (auto simp: fun_eq_iff owns_def)
  with assms(1) show ?thesis by (simp add: side_inv_def)
qed

lemma handle_close_inv:
  assumes "side_inv s" "handles s i \<noteq> None"
  shows "safely (\<lambda>t. side_inv t \<and> handles t i = Some None) (handle_close i s)"
  using assms close_owned_inv [OF assms(1)]
  by (auto simp: handle_close_def split: option.split)

lemma handle_move_inv:
  "side_inv s \<Longrightarrow> handles s i = None \<Longrightarrow> handles s other \<noteq> None \<Longrightarrow> safely side_inv (handle_move i other s)"
  by (auto simp: handle_move_def pass_on_inv)

lemma handle_destroy_inv:
  assumes "side_inv s" "handles s i \<noteq> None"
  shows "safely side_inv (handle_destroy i s)"
proof -
  have "safely (\<lambda>t. side_inv t \<and> handles t i = Some None) (handle_close i s)"
    by (rule handle_close_inv [OF assms])
  moreover have "side_inv (t\<lparr>handles := (handles t)(i := None)\<rparr>)"
    if "side_inv t \<and> handles t i = Some None" for t
    using that by (simp add: forget_inv)
  ultimately show ?thesis by (cases "handle_close i s") (simp_all add: handle_destroy_def)
qed

lemma handles_step_inv: "side_inv s \<Longrightarrow> safely side_inv (handles_step e s)"
proof (cases e)
  case (CloseHandle i)
  show "side_inv s \<Longrightarrow> ?thesis"
  proof (cases "handles s i = None")
    case False
    moreover assume "side_inv s"
    ultimately show ?thesis
      using handle_close_inv [of s i] CloseHandle by (cases "handle_close i s") simp_all
  qed (simp add: CloseHandle)
qed (simp_all add: handle_new_inv handle_move_inv handle_destroy_inv)

interpretation side: safe_invariant handles_step side_init side_inv
  by unfold_locales
    (simp_all add: handles_step_inv safelyD(1) side_init_def side_inv_def owns_def
      del: handles_step.simps)

section \<open>Receiver::iterator\<close>

text \<open>
  The iterator holds what the last \<^verbatim>\<open>pop\<close> returned. \<open>pop\<close> is the channel's: it takes the
  state of the channel to a result and a new state.
\<close>

type_synonym ('a, 's) pop = "'s \<Rightarrow> 'a option \<times> 's"

definition itr_begin :: "('a, 's) pop \<Rightarrow> 's \<Rightarrow> 'a option \<times> 's" where
  "itr_begin pop s = pop s"

definition itr_at_end :: "'a option \<Rightarrow> bool" where
  "itr_at_end mCurrent \<longleftrightarrow> mCurrent = None"

definition itr_deref :: "'a option \<Rightarrow> fault + 'a" where
  "itr_deref mCurrent = (case mCurrent of None \<Rightarrow> Inl NullDeref | Some v \<Rightarrow> Inr v)"

definition itr_inc :: "('a, 's) pop \<Rightarrow> 'a option \<times> 's \<Rightarrow> 'a option \<times> 's" where
  "itr_inc pop it = pop (snd it)"

definition itr_post_inc :: "('a, 's) pop \<Rightarrow> 'a option \<times> 's \<Rightarrow> 'a option \<times> ('a option \<times> 's)" where
  "itr_post_inc pop it = (fst it, itr_inc pop it)"

text \<open>
  \<^verbatim>\<open>for (auto& v : receiver)\<close>: what the loop body sees, in order, and the state of the
  channel afterwards. The fuel bounds the number of tests for the end.
\<close>

fun range_for :: "nat \<Rightarrow> ('a, 's) pop \<Rightarrow> 'a option \<times> 's \<Rightarrow> (fault + 'a list \<times> 's) option" where
  "range_for 0 pop it = None"
| "range_for (Suc n) pop it =
     (if itr_at_end (fst it) then Some (Inr ([], snd it))
      else case itr_deref (fst it) of
             Inl e \<Rightarrow> Some (Inl e)
           | Inr v \<Rightarrow>
               (case range_for n pop (itr_inc pop it) of
                  Some (Inr (vs, s)) \<Rightarrow> Some (Inr (v # vs, s))
                | r \<Rightarrow> r))"

fun pops :: "nat \<Rightarrow> ('a, 's) pop \<Rightarrow> 's \<Rightarrow> 'a option list \<times> 's" where
  "pops 0 pop s = ([], s)"
| "pops (Suc n) pop s = (let (x, s) = pop s; (xs, s) = pops n pop s in (x # xs, s))"

lemma range_for_pops:
  "pops (Suc (length vs)) pop s = (map Some vs @ [None], t) \<Longrightarrow>
    range_for (Suc (length vs)) pop (itr_begin pop s) = Some (Inr (vs, t))"
proof (induction vs arbitrary: s)
  case Nil
  then show ?case by (auto simp: itr_begin_def itr_at_end_def split: prod.splits)
next
  case (Cons v vs)
  from Cons.prems obtain u where u: "pop s = (Some v, u)"
    and r: "pops (Suc (length vs)) pop u = (map Some vs @ [None], t)"
    by (auto simp: Let_def split: prod.splits)
  from Cons.IH [OF r] show ?case
    by (simp add: itr_begin_def u itr_at_end_def itr_deref_def itr_inc_def)
qed

section \<open>Properties\<close>

text \<open>
  C31. Every channel side is closed exactly once. Whatever a program does with handles of the
  senders, or of the receivers: new ones for new channels, moves, explicit closing and
  destruction, no channel is closed twice, none is closed while a handle has it, and when no
  handle is left each channel has been closed exactly once.
\<close>

theorem closed_exactly_once:
  assumes "run handles_step es side_init = Next t"
  shows "distinct (closed t) \<and> (handles t i = Some (Some c) \<longrightarrow> c \<notin> set (closed t)) \<and>
    ((\<forall>j. handles t j = None) \<longrightarrow> mset (closed t) = mset (opened t)) \<and>
    handles_step e t \<noteq> Fault f"
proof -
  have inv: "side_inv t"
    by (rule side.along_run [OF side.init assms])
  note I = side_invD [OF inv]
  have "mset (closed t) = mset (opened t)" if "\<forall>j. handles t j = None"
    using that I(1-3) by (auto simp: owns_def set_eq_iff_mset_eq_distinct [symmetric])
  moreover have "c \<notin> set (closed t)" if "handles t i = Some (Some c)"
    using I(4) that by (simp add: owns_def)
  ultimately show ?thesis using I(1) safelyD(2) [OF handles_step_inv [OF inv]] by blast
qed

lemma closed_exactly_once_witness:
  "\<exists>t. run handles_step [New 0 7, Move 1 0, Destroy 0, New 2 8, CloseHandle 2, Destroy 2, Destroy 1] side_init = Next t \<and>
     closed t = [8, 7] \<and> mset (closed t) = mset (opened t)"
proof -
  let ?es = "[New 0 7, Move 1 0, Destroy 0, New 2 8, CloseHandle 2, Destroy 2, Destroy 1]"
  obtain t where t: "run handles_step ?es side_init = Next t" "closed t = [8, 7]" "\<forall>j. handles t j = None"
    by (simp add: side_init_def handle_new_def handle_close_def handle_move_def handle_destroy_def)
  from closed_exactly_once [OF t(1)] t show ?thesis by blast
qed

text \<open>
  A range-based for loop over a receiver sees exactly the values that pops return before
  the first that returns nothing, in order, pops once more than that, and never dereferences
  an empty iterator.
\<close>

lemma range_for_sees_the_stream:
  assumes "pops (Suc (length vs)) pop s = (map Some vs @ [None], t)"
  shows "range_for (Suc (length vs)) pop (itr_begin pop s) = Some (Inr (vs, t))"
  by (rule range_for_pops [OF assms])

lemma range_for_sees_the_stream_witness:
  "range_for 3 (\<lambda>xs. case xs of [] \<Rightarrow> (None, []) | x # ys \<Rightarrow> (x, ys))
     (itr_begin (\<lambda>xs. case xs of [] \<Rightarrow> (None, []) | x # ys \<Rightarrow> (x, ys)) [Some 4, Some (5 :: nat)]) =
   Some (Inr ([4, 5], []))"
  using range_for_sees_the_stream [of "[4, 5 :: nat]" "\<lambda>xs. case xs of [] \<Rightarrow> (None, []) | x # ys \<Rightarrow> (x, ys)"
      "[Some 4, Some 5]" "[]"]
  by (simp add: numeral_eq_Suc)

end
