(* ===== verification/RoutineJoin.thy ===== *)
theory RoutineJoin
  imports Future
begin

text \<open>
  A coroutine awaiting a routine while the routine finishes on another thread
  (\<^verbatim>\<open>Routine::await_suspend\<close>, \<^verbatim>\<open>Runner::operator()\<close>, \<^verbatim>\<open>Data::resume\<close> and
  \<^verbatim>\<open>ResultSetter::operator()\<close> of \<^verbatim>\<open>include/co/routine.hpp\<close>), cut at the atomic accesses of the
  three words the two threads share: the runner's \<^verbatim>\<open>mCaller\<close>, the continuation of
  \<^verbatim>\<open>mResult\<close> and the \<^verbatim>\<open>mContinuation\<close> of the routine. The question is who resumes the
  awaiting coroutine: the finishing thread, through the pointer \<^verbatim>\<open>resume()\<close> returns, or the
  awaiting thread, whose \<^verbatim>\<open>await_suspend\<close> returns false.
\<close>

section \<open>State\<close>

datatype awaiter = Awaiter

text \<open>
  The thread of the awaiting coroutine: \<^verbatim>\<open>co::await\<close> tests the result and leaves the
  coroutine, then \<^verbatim>\<open>await_suspend\<close> runs on the thread's own stack. \<open>ALeft\<close> is a thread that
  has gone on to other work; \<open>AResumed\<close> is the coroutine running again on either thread, and
  \<open>AGot\<close> what its \<^verbatim>\<open>await_resume()\<close> gave.
\<close>

datatype await_thread =
  ACheck | ATake | ASuspend | ACas "awaiter data_ptr" | ASpin | ALeft | AResumed
  | AGot "exception + unit"

text \<open>The thread that runs the routine to its end, with the \<^verbatim>\<open>res\<close> of \<^verbatim>\<open>resume()\<close>.\<close>

datatype finish_thread =
  FRunning | FExchange | FDisable "awaiter data_ptr" | FSetResult "awaiter data_ptr"
  | FRunner "awaiter data_ptr" | FLoop "awaiter data_ptr" "awaiter data_ptr"
  | FReturn "awaiter data_ptr" | FDone

record join =
  mCaller :: "awaiter data_ptr"
  mResult :: "(awaiter, unit) light_future"
  mContinuation :: "awaiter data_ptr"
  mValue :: "unit variant"
  await_at :: await_thread
  finish_at :: finish_thread
  resumed :: nat

definition join_init :: join where
  "join_init = \<lparr>mCaller = DataPtr Awaiter, mResult = LightFutureData, mContinuation = NullData,
     mValue = Unset, await_at = ACheck, finish_at = FRunning, resumed = 0\<rparr>"

section \<open>Steps\<close>

text \<open>The awaiting coroutine is entered again; it must have been left.\<close>

definition resume_awaiter :: "join \<Rightarrow> join outcome" where
  "resume_awaiter s =
     (if await_at s = ALeft then Next (s\<lparr>await_at := AResumed, resumed := resumed s + 1\<rparr>)
      else Fault (AssertFailed ''resume''))"

definition join_await_suspend :: "join \<Rightarrow> join outcome" where
  "join_await_suspend s =
     (case await_at s of
        ATake \<Rightarrow> Next (s\<lparr>mCaller := NullData, await_at := ASuspend\<rparr>)
      | ASuspend \<Rightarrow>
          (case suspend Awaiter (mResult s) of
             Inl e \<Rightarrow> Fault e
           | Inr (False, f) \<Rightarrow> resume_awaiter (s\<lparr>mResult := f, await_at := ALeft\<rparr>)
           | Inr (True, f) \<Rightarrow> Next (s\<lparr>mResult := f, await_at := ACas (DataPtr Awaiter)\<rparr>))
      | ACas c \<Rightarrow>
          (case mContinuation s of
             NullData \<Rightarrow> Next (s\<lparr>mContinuation := c, await_at := ALeft\<rparr>)
           | InvalidData \<Rightarrow> Next (s\<lparr>await_at := ASpin\<rparr>)
           | DataPtr d \<Rightarrow> Fault (AssertFailed ''await_suspend''))
      | ASpin \<Rightarrow>
          (if mCaller s = InvalidData then resume_awaiter (s\<lparr>await_at := ALeft\<rparr>) else Blocked)
      | _ \<Rightarrow> Blocked)"

text \<open>\<^verbatim>\<open>co::await(routine)\<close>: the test before, and the result after, the suspension.\<close>

definition join_await :: "join \<Rightarrow> join outcome" where
  "join_await s =
     (case await_at s of
        ACheck \<Rightarrow>
          (if await_ready (mResult s) then Next (s\<lparr>await_at := AResumed, resumed := resumed s + 1\<rparr>)
           else Next (s\<lparr>await_at := ATake\<rparr>))
      | AResumed \<Rightarrow>
          (case get_unchecked_stateless (mResult s) of
             Inl e \<Rightarrow> Fault e
           | Inr r \<Rightarrow> Next (s\<lparr>await_at := AGot r\<rparr>))
      | _ \<Rightarrow> join_await_suspend s)"

text \<open>
  The end of the routine in \<^verbatim>\<open>resume()\<close>: \<^verbatim>\<open>mContinuation.exchange(1)\<close>, the result setter
  (which tries to disable \<^verbatim>\<open>mContinuation\<close> once more and completes \<^verbatim>\<open>mResult\<close>), the runner
  that completion calls, and the loop of the runner that called \<^verbatim>\<open>resume()\<close>. The thread is
  not inside a coroutine then, so the runner does not post itself.
\<close>

definition finish_step :: "exception + unit \<Rightarrow> join \<Rightarrow> join outcome" where
  "finish_step r s =
     (case finish_at s of
        FRunning \<Rightarrow> Next (s\<lparr>mValue := setByResult (mValue s) r, finish_at := FExchange\<rparr>)
      | FExchange \<Rightarrow> Next (s\<lparr>mContinuation := InvalidData, finish_at := FDisable (mContinuation s)\<rparr>)
      | FDisable res \<Rightarrow>
          Next (s\<lparr>mContinuation := (if mContinuation s = NullData then InvalidData else mContinuation s),
                  finish_at := FSetResult res\<rparr>)
      | FSetResult res \<Rightarrow>
          (case (if isException (mValue s)
                 then (case mValue s of ExceptionPtr e \<Rightarrow> set_exception e (mResult s)
                       | _ \<Rightarrow> Inl (AssertFailed ''get''))
                 else (case mValue s of Placeholder v \<Rightarrow> set_value v (mResult s)
                       | _ \<Rightarrow> Inl (AssertFailed ''get''))) of
             Inl e \<Rightarrow> Fault e
           | Inr (None, f) \<Rightarrow> Next (s\<lparr>mResult := f, finish_at := FReturn res\<rparr>)
           | Inr (Some Awaiter, f) \<Rightarrow> Next (s\<lparr>mResult := f, finish_at := FRunner res\<rparr>))
      | FRunner res \<Rightarrow> Next (s\<lparr>mCaller := InvalidData, finish_at := FLoop res (mCaller s)\<rparr>)
      | FLoop res c \<Rightarrow>
          (case c of
             DataPtr Awaiter \<Rightarrow> resume_awaiter (s\<lparr>finish_at := FReturn res\<rparr>)
           | _ \<Rightarrow> Next (s\<lparr>finish_at := FReturn res\<rparr>))
      | FReturn res \<Rightarrow>
          (case res of
             DataPtr Awaiter \<Rightarrow> resume_awaiter (s\<lparr>finish_at := FDone\<rparr>)
           | _ \<Rightarrow> Next (s\<lparr>finish_at := FDone\<rparr>))
      | FDone \<Rightarrow> Blocked)"

datatype join_event = AwaitMoves | FinishMoves

fun join_step :: "exception + unit \<Rightarrow> (join_event, join) machine" where
  "join_step r AwaitMoves s = join_await s"
| "join_step r FinishMoves s = finish_step r s"

section \<open>The invariant\<close>

text \<open>Has the routine disabled its continuation, completed its result, and called the runner?\<close>

fun disabled :: "finish_thread \<Rightarrow> bool" where
  "disabled FRunning = False"
| "disabled FExchange = False"
| "disabled f = True"

fun completed :: "finish_thread \<Rightarrow> bool" where
  "completed (FRunner res) = True"
| "completed (FLoop res c) = True"
| "completed (FReturn res) = True"
| "completed FDone = True"
| "completed f = False"

fun res_of :: "finish_thread \<Rightarrow> awaiter data_ptr" where
  "res_of (FDisable res) = res"
| "res_of (FSetResult res) = res"
| "res_of (FRunner res) = res"
| "res_of (FLoop res c) = res"
| "res_of (FReturn res) = res"
| "res_of f = NullData"

fun loop_ok :: "finish_thread \<Rightarrow> bool" where
  "loop_ok (FLoop res c) = (c = NullData)"
| "loop_ok f = True"

text \<open>
  Where the awaiting side stands: not suspended, or suspended and about to register its
  continuation, or gone with the continuation registered, or resumed.
\<close>

fun before_suspend :: "await_thread \<Rightarrow> bool" where
  "before_suspend ACheck = True"
| "before_suspend ATake = True"
| "before_suspend ASuspend = True"
| "before_suspend a = False"

fun suspended :: "await_thread \<Rightarrow> bool" where
  "suspended (ACas c) = True"
| "suspended ASpin = True"
| "suspended ALeft = True"
| "suspended a = False"

fun got_ok :: "exception + unit \<Rightarrow> await_thread \<Rightarrow> bool" where
  "got_ok r (AGot r') = (r' = r)"
| "got_ok r (ACas c) = (c = DataPtr Awaiter)"
| "got_ok r a = True"

definition result_inv :: "exception + unit \<Rightarrow> join \<Rightarrow> bool" where
  "result_inv r s \<longleftrightarrow>
     mResult s =
       (if completed (finish_at s)
        then \<lparr>continuationPtr = InvalidHandle, val = setByResult Unset r\<rparr>
        else \<lparr>continuationPtr = (if suspended (await_at s) then Handle Awaiter else EmptyHandle),
              val = Unset\<rparr>) \<and>
     (completed (finish_at s) \<or> before_suspend (await_at s) \<or> suspended (await_at s)) \<and>
     mValue s = (if finish_at s = FRunning then Unset else setByResult Unset r)"

text \<open>
  Who holds the pointer to the suspended coroutine: \<^verbatim>\<open>mContinuation\<close>, then the \<^verbatim>\<open>res\<close> of the
  finishing thread, or nobody but the awaiting thread itself.
\<close>

definition pointer_inv :: "join \<Rightarrow> bool" where
  "pointer_inv s \<longleftrightarrow>
     mContinuation s =
       (if disabled (finish_at s) then InvalidData
        else if await_at s = ALeft then DataPtr Awaiter else NullData) \<and>
     res_of (finish_at s) =
       (if disabled (finish_at s) \<and> await_at s = ALeft then DataPtr Awaiter else NullData) \<and>
     (await_at s = ALeft \<longrightarrow> finish_at s \<noteq> FDone) \<and>
     (await_at s = ASpin \<longrightarrow> disabled (finish_at s)) \<and>
     loop_ok (finish_at s)"

definition caller_inv :: "join \<Rightarrow> bool" where
  "caller_inv s \<longleftrightarrow>
     (await_at s = ASuspend \<longrightarrow> mCaller s = NullData) \<and>
     (case finish_at s of
        FRunner res \<Rightarrow> suspended (await_at s) \<and> mCaller s = NullData
      | FLoop res c \<Rightarrow> mCaller s = InvalidData \<and> \<not> before_suspend (await_at s)
      | FReturn res \<Rightarrow> (suspended (await_at s) \<longrightarrow> mCaller s = InvalidData)
      | FDone \<Rightarrow> (suspended (await_at s) \<longrightarrow> mCaller s = InvalidData)
      | _ \<Rightarrow> (suspended (await_at s) \<longrightarrow> mCaller s = NullData))"

definition join_inv :: "exception + unit \<Rightarrow> join \<Rightarrow> bool" where
  "join_inv r s \<longleftrightarrow> result_inv r s \<and> pointer_inv s \<and> caller_inv s \<and> got_ok r (await_at s) \<and>
     resumed s = (if before_suspend (await_at s) \<or> suspended (await_at s) then 0 else 1)"

lemmas join_inv_defs = join_inv_def result_inv_def pointer_inv_def caller_inv_def

lemma join_inv_init: "join_inv r join_init"
  by (simp add: join_inv_defs join_init_def LightFutureData_def)

lemma stateless_result [simp]: "getStateless (setByResult Unset r) = r"
  by (cases r) simp_all

lemma join_await_inv: "join_inv r s \<Longrightarrow> safely (join_inv r) (join_await s)"
  by (cases "await_at s"; cases "finish_at s";
      simp add: join_inv_defs join_await_def join_await_suspend_def resume_awaiter_def future_defs)

lemma finish_step_inv: "join_inv r s \<Longrightarrow> safely (join_inv r) (finish_step r s)"
  by (cases "await_at s"; cases "finish_at s"; cases r;
      simp add: join_inv_defs finish_step_def resume_awaiter_def future_defs)

lemma join_step_inv: "join_inv r s \<Longrightarrow> safely (join_inv r) (join_step r e s)"
  by (cases e) (simp_all add: join_await_inv finish_step_inv)

interpretation join: safe_invariant "join_step r" join_init "join_inv r"
  by unfold_locales (simp_all add: join_inv_init join_step_inv safelyD(1) del: join_step.simps)

section \<open>Termination\<close>

fun await_to_go :: "await_thread \<Rightarrow> nat" where
  "await_to_go ACheck = 6"
| "await_to_go ATake = 5"
| "await_to_go ASuspend = 4"
| "await_to_go (ACas c) = 3"
| "await_to_go ASpin = 2"
| "await_to_go ALeft = 2"
| "await_to_go AResumed = 1"
| "await_to_go (AGot r) = 0"

fun finish_to_go :: "finish_thread \<Rightarrow> nat" where
  "finish_to_go FRunning = 7"
| "finish_to_go FExchange = 6"
| "finish_to_go (FDisable res) = 5"
| "finish_to_go (FSetResult res) = 4"
| "finish_to_go (FRunner res) = 3"
| "finish_to_go (FLoop res c) = 2"
| "finish_to_go (FReturn res) = 1"
| "finish_to_go FDone = 0"

definition join_to_go :: "join \<Rightarrow> nat" where
  "join_to_go s = await_to_go (await_at s) + finish_to_go (finish_at s)"

definition join_over :: "join \<Rightarrow> bool" where
  "join_over s \<longleftrightarrow> await_to_go (await_at s) = 0 \<and> finish_at s = FDone"

lemma join_decrease:
  assumes "join_inv r s"
  shows "ensures (\<lambda>t. join_to_go t < join_to_go s) (join_step r e s)"
proof (cases e)
  case AwaitMoves
  then show ?thesis using assms
    by (cases "await_at s"; cases "finish_at s";
        simp add: join_inv_defs join_await_def join_await_suspend_def resume_awaiter_def future_defs
          join_to_go_def)
next
  case FinishMoves
  then show ?thesis using assms
    by (cases "await_at s"; cases "finish_at s"; cases r;
        simp add: join_inv_defs finish_step_def resume_awaiter_def future_defs join_to_go_def)
qed

lemma finish_step_moves: "finish_at s \<noteq> FDone \<Longrightarrow> finish_step r s \<noteq> Blocked"
  by (cases "finish_at s")
    (auto simp: finish_step_def resume_awaiter_def
      split: sum.splits option.splits prod.splits awaiter.splits data_ptr.splits)

lemma join_await_moves:
  "join_inv r s \<Longrightarrow> finish_at s = FDone \<Longrightarrow> \<not> join_over s \<Longrightarrow> join_await s \<noteq> Blocked"
  by (cases "await_at s")
    (auto simp: join_inv_def pointer_inv_def caller_inv_def join_over_def join_await_def
      join_await_suspend_def resume_awaiter_def
      split: sum.splits bool.splits prod.splits data_ptr.splits)

lemma join_progress:
  assumes "join_inv r s" "\<not> join_over s"
  shows "\<exists>e t. join_step r e s = Next t"
proof (cases "finish_at s = FDone")
  case True
  with join_await_inv [OF assms(1)] join_await_moves [OF assms(1) True assms(2)]
  obtain t where "join_step r AwaitMoves s = Next t" by (cases "join_await s") simp_all
  then show ?thesis by blast
next
  case False
  with finish_step_inv [OF assms(1)] finish_step_moves [OF False, of r]
  obtain t where "join_step r FinishMoves s = Next t" by (cases "finish_step r s") simp_all
  then show ?thesis by blast
qed

interpretation join_run:
  terminating "join_step r" join_init "join_inv r" join_over join_to_go
proof unfold_locales
  fix s e t
  assume "join_inv r s" "join_step r e s = Next t"
  then show "join_to_go t < join_to_go s" using join_decrease [of r s e] by simp
qed (rule join_progress)

lemma join_to_go_bound: "join_to_go s \<le> 13"
proof -
  have "await_to_go (await_at s) \<le> 6" by (cases "await_at s") simp_all
  moreover have "finish_to_go (finish_at s) \<le> 7" by (cases "finish_at s") simp_all
  ultimately show ?thesis by (simp add: join_to_go_def)
qed

lemma join_over_got: "join_inv r t \<Longrightarrow> join_over t \<Longrightarrow> await_at t = AGot r \<and> resumed t = 1"
  by (cases "await_at t") (simp_all add: join_over_def join_inv_def)

section \<open>Properties\<close>

text \<open>
  C5. A coroutine that awaits a routine is resumed exactly once, with the routine's result, in
  every interleaving with the thread that finishes the routine: no assertion fails, the
  coroutine is not entered twice, \<^verbatim>\<open>await_resume()\<close> finds the result or the exception of the
  routine, and after at most 13 steps of the two threads, the wait for the runner included,
  both are through.
\<close>

theorem join_resumes_once:
  assumes "run (join_step r) es join_init = Next s"
  shows "resumed s \<le> 1 \<and> (await_at s = AGot r' \<longrightarrow> r' = r \<and> resumed s = 1) \<and>
    join_step r e s \<noteq> Fault f \<and> length es \<le> 13 \<and>
    (\<exists>fs t. run (join_step r) fs s = Next t \<and> await_at t = AGot r \<and> finish_at t = FDone \<and>
       resumed t = 1)"
proof -
  have inv: "join_inv r s" by (rule join.along_run [OF join_inv_init assms])
  obtain fs t where t: "run (join_step r) fs s = Next t" "join_over t"
    using join_run.completes [OF inv] by blast
  have "join_inv r t" by (rule join.along_run [OF inv t(1)])
  with t have "await_at t = AGot r \<and> finish_at t = FDone \<and> resumed t = 1"
    using join_over_got by (auto simp: join_over_def)
  moreover have "length es \<le> 13"
    using join_run.bounded [OF join_inv_init assms] join_to_go_bound [of join_init] by simp
  moreover have "resumed s \<le> 1 \<and> (await_at s = AGot r' \<longrightarrow> r' = r \<and> resumed s = 1)"
    using inv by (cases "await_at s") (simp_all add: join_inv_def)
  ultimately show ?thesis using t(1) safelyD(2) [OF join_step_inv [OF inv]] by blast
qed

text \<open>
  The routine has given up its continuation before the awaiting thread registers one: that
  thread spins until the runner has been called.
\<close>

definition spinning_join :: "join_event list" where
  "spinning_join = [AwaitMoves, AwaitMoves, FinishMoves, AwaitMoves, FinishMoves, AwaitMoves]"

lemmas join_eval = spinning_join_def join_init_def join_await_def join_await_suspend_def
  finish_step_def resume_awaiter_def future_defs

lemma join_resumes_once_witness:
  "\<exists>s. run (join_step (Inl (UserException 3))) spinning_join join_init = Next s \<and>
     await_at s = ASpin \<and> resumed s = 0 \<and>
     (\<exists>fs t. run (join_step (Inl (UserException 3))) fs s = Next t \<and>
        await_at t = AGot (Inl (UserException 3)) \<and> resumed t = 1)"
proof -
  obtain s where s: "run (join_step (Inl (UserException 3))) spinning_join join_init = Next s"
    "await_at s = ASpin" "resumed s = 0"
    by (simp add: join_eval)
  from join_resumes_once [OF s(1)] s show ?thesis by blast
qed

end
