(* ===== verification/RoutineDetach.thy ===== *)
theory RoutineDetach
  imports Prelude
begin

text \<open>
  Who destroys the \<^verbatim>\<open>Routine::Data\<close> of a routine (\<^verbatim>\<open>include/co/routine.hpp\<close>): the owner of
  the \<^verbatim>\<open>Routine\<close> object, who joins and destroys it or detaches it, or the thread on which the
  routine finishes. The steps are the accesses of the two to the shared \<^verbatim>\<open>Data\<close>, which exists
  while \<open>alive\<close>.
\<close>

section \<open>State and steps\<close>

text \<open>
  The owner: \<open>OReset\<close> is a \<^verbatim>\<open>detach()\<close> whose compare-exchange failed, about to \<^verbatim>\<open>d.reset()\<close>;
  \<open>OLost\<close> has done it, \<open>OReleased\<close> has left the \<^verbatim>\<open>Data\<close> to the routine, \<open>OJoined\<close> has joined
  and destroyed the object.
\<close>

datatype owner = OHolds | OReset | OLost | OReleased | OJoined

text \<open>
  The finishing thread: \<^verbatim>\<open>resume()\<close> exchanges \<^verbatim>\<open>mContinuation\<close>, takes the result setter out
  of \<^verbatim>\<open>mPostLeave\<close> and runs it, with its local \<^verbatim>\<open>destruct\<close>.
\<close>

datatype setter =
  SRunning | SExchange | SPostLeave | SDetached | SDisable bool | SSetResult bool | SDestroy bool
  | SDone

record life =
  alive :: bool
  mPull :: bool
  mIsDetached :: bool
  resultReady :: bool
  owner_at :: owner
  setter_at :: setter
  destroyed :: nat

definition life_init :: life where
  "life_init = \<lparr>alive = True, mPull = True, mIsDetached = False, resultReady = False,
     owner_at = OHolds, setter_at = SRunning, destroyed = 0\<rparr>"

text \<open>
  Destroying the \<^verbatim>\<open>Data\<close>, by \<^verbatim>\<open>Destructor\<close> or at the end of the result setter: \<^verbatim>\<open>~Data\<close>
  terminates the program when the coroutine has not ended.
\<close>

definition destroyData :: "life \<Rightarrow> life outcome" where
  "destroyData s =
     (if \<not> alive s then Fault UseAfterFree
      else if mPull s then Fault Terminated
      else Next (s\<lparr>alive := False, destroyed := destroyed s + 1\<rparr>))"

definition detach_step :: "life \<Rightarrow> life outcome" where
  "detach_step s =
     (case owner_at s of
        OHolds \<Rightarrow>
          (if \<not> alive s then Fault UseAfterFree
           else if \<not> mIsDetached s then Next (s\<lparr>mIsDetached := True, owner_at := OReleased\<rparr>)
           else Next (s\<lparr>owner_at := OReset\<rparr>))
      | OReset \<Rightarrow> bind_outcome (destroyData s) (\<lambda>s. Next (s\<lparr>owner_at := OLost\<rparr>))
      | _ \<Rightarrow> Blocked)"

text \<open>\<^verbatim>\<open>join()\<close> returns when the result is there; then the \<^verbatim>\<open>Routine\<close> is destroyed.\<close>

definition join_destroy :: "life \<Rightarrow> life outcome" where
  "join_destroy s =
     (if owner_at s = OHolds \<and> resultReady s
      then bind_outcome (destroyData s) (\<lambda>s. Next (s\<lparr>owner_at := OJoined\<rparr>)) else Blocked)"

definition finishing_step :: "life \<Rightarrow> life outcome" where
  "finishing_step s =
     (if setter_at s \<noteq> SDone \<and> setter_at s \<noteq> SDestroy False \<and> \<not> alive s then Fault UseAfterFree
      else case setter_at s of
        SRunning \<Rightarrow> Next (s\<lparr>mPull := False, setter_at := SExchange\<rparr>)
      | SExchange \<Rightarrow> Next (s\<lparr>setter_at := SPostLeave\<rparr>)
      | SPostLeave \<Rightarrow> Next (s\<lparr>setter_at := SDetached\<rparr>)
      | SDetached \<Rightarrow> Next (s\<lparr>mIsDetached := True, setter_at := SDisable (mIsDetached s)\<rparr>)
      | SDisable destruct \<Rightarrow> Next (s\<lparr>setter_at := SSetResult destruct\<rparr>)
      | SSetResult destruct \<Rightarrow> Next (s\<lparr>resultReady := True, setter_at := SDestroy destruct\<rparr>)
      | SDestroy destruct \<Rightarrow>
          (if destruct then bind_outcome (destroyData s) (\<lambda>s. Next (s\<lparr>setter_at := SDone\<rparr>))
           else Next (s\<lparr>setter_at := SDone\<rparr>))
      | SDone \<Rightarrow> Blocked)"

datatype life_event = OwnerDetaches | OwnerJoins | SetterMoves

fun life_step :: "(life_event, life) machine" where
  "life_step OwnerDetaches s = detach_step s"
| "life_step OwnerJoins s = join_destroy s"
| "life_step SetterMoves s = finishing_step s"

section \<open>The invariant\<close>

text \<open>Has the setter tried to mark the routine detached, and did it find the mark set?\<close>

fun decided :: "setter \<Rightarrow> bool option" where
  "decided (SDisable b) = Some b"
| "decided (SSetResult b) = Some b"
| "decided (SDestroy b) = Some b"
| "decided p = None"

definition life_inv :: "life \<Rightarrow> bool" where
  "life_inv s \<longleftrightarrow>
     (mPull s \<longleftrightarrow> setter_at s = SRunning) \<and>
     (resultReady s \<longleftrightarrow> (case setter_at s of SDestroy b \<Rightarrow> True | SDone \<Rightarrow> True | _ \<Rightarrow> False)) \<and>
     destroyed s = (if alive s then 0 else 1) \<and>
     (case owner_at s of
        OHolds \<Rightarrow> alive s \<and> (decided (setter_at s) = None \<or> decided (setter_at s) = Some False) \<and>
          (mIsDetached s \<longleftrightarrow> setter_at s = SDone \<or> decided (setter_at s) \<noteq> None)
      | OReset \<Rightarrow> alive s \<and> mIsDetached s \<and> (setter_at s = SDone \<or> decided (setter_at s) = Some False)
      | OLost \<Rightarrow> \<not> alive s \<and> (setter_at s = SDone \<or> decided (setter_at s) = Some False)
      | OReleased \<Rightarrow> mIsDetached s \<and> (alive s \<longleftrightarrow> setter_at s \<noteq> SDone) \<and>
          (decided (setter_at s) = None \<or> decided (setter_at s) = Some True)
      | OJoined \<Rightarrow> \<not> alive s \<and> (setter_at s = SDone \<or> setter_at s = SDestroy False))"

lemma life_inv_init: "life_inv life_init"
  by (simp add: life_inv_def life_init_def)

lemma life_step_inv: "life_inv s \<Longrightarrow> ensures life_inv (life_step e s)"
  by (cases e; cases "owner_at s"; cases "setter_at s";
      auto simp: life_inv_def detach_step_def join_destroy_def finishing_step_def destroyData_def)

text \<open>The one fault there is: the owner lost the race for the mark and destroyed the \<^verbatim>\<open>Data\<close>.\<close>

lemma life_step_fault:
  "life_inv s \<Longrightarrow> life_step e s = Fault f \<Longrightarrow> owner_at s = OLost \<and> e = SetterMoves \<and> f = UseAfterFree"
  by (cases e; cases "owner_at s"; cases "setter_at s";
      auto simp: life_inv_def detach_step_def join_destroy_def finishing_step_def destroyData_def
        split: if_splits)

interpretation life: invariant life_step life_init life_inv
  by unfold_locales (simp_all add: life_inv_init life_step_inv del: life_step.simps)

section \<open>Properties\<close>



text \<open>The setter has set the mark when the owner detaches and destroys the \<^verbatim>\<open>Data\<close> under it.\<close>

definition late_detach :: "life_event list" where
  "late_detach = [SetterMoves, SetterMoves, SetterMoves, SetterMoves, OwnerDetaches, OwnerDetaches]"

text \<open>
  Detaching a routine that is just finishing destroys its \<^verbatim>\<open>Data\<close> before the result setter
  is through with it: the setter then writes \<^verbatim>\<open>mContinuation\<close> and \<^verbatim>\<open>mResult\<close> of a destroyed
  object.
\<close>

lemma late_detach_uses_freed_data:
  "\<exists>s. run life_step late_detach life_init = Next s \<and> \<not> alive s \<and> setter_at s = SDisable False \<and>
     life_step SetterMoves s = Fault UseAfterFree"
  by (simp add: late_detach_def life_init_def detach_step_def finishing_step_def destroyData_def)

end
