(* ===== verification/RoutineHandles.thy ===== *)
theory RoutineHandles
  imports RoutineDetach
begin

text \<open>
  The \<^verbatim>\<open>Routine\<close> objects of a program (\<^verbatim>\<open>include/co/routine.hpp\<close>): each is empty or owns the
  \<^verbatim>\<open>Data\<close> of one routine through its \<^verbatim>\<open>std::unique_ptr\<close>. They are constructed, moved, assigned,
  joined, detached and destroyed while the routines run and finish on other threads, by the
  steps of \<open>RoutineDetach\<close>.
\<close>

section \<open>State and operations\<close>

text \<open>
  A routine by its number; an object is \<open>None\<close> when it does not exist, and \<open>Some d\<close> for its
  member \<^verbatim>\<open>d\<close>.
\<close>

record routines =
  lives :: "nat \<Rightarrow> life option"
  next_id :: nat
  routine :: "nat \<Rightarrow> nat option option"

definition routines_init :: routines where
  "routines_init = \<lparr>lives = Map.empty, next_id = 0, routine = Map.empty\<rparr>"

definition on_life :: "nat \<Rightarrow> (life \<Rightarrow> life outcome) \<Rightarrow> routines \<Rightarrow> routines outcome" where
  "on_life r f s =
     (case lives s r of
        None \<Rightarrow> Fault UseAfterFree
      | Some l \<Rightarrow> bind_outcome (f l) (\<lambda>l'. Next (s\<lparr>lives := (lives s)(r \<mapsto> l')\<rparr>)))"

definition routine_default :: "nat \<Rightarrow> routines \<Rightarrow> routines" where
  "routine_default h s = s\<lparr>routine := (routine s)(h \<mapsto> None)\<rparr>"

definition routine_new :: "nat \<Rightarrow> routines \<Rightarrow> routines" where
  "routine_new h s =
     s\<lparr>lives := (lives s)(next_id s \<mapsto> life_init), next_id := next_id s + 1,
       routine := (routine s)(h \<mapsto> Some (next_id s))\<rparr>"

text \<open>Releasing the \<^verbatim>\<open>Data\<close> a member points to, if it points to one.\<close>

definition dropData :: "life \<Rightarrow> life outcome" where
  "dropData l = bind_outcome (destroyData l) (\<lambda>l. Next (l\<lparr>owner_at := OJoined\<rparr>))"

definition drop_d :: "nat option \<Rightarrow> routines \<Rightarrow> routines outcome" where
  "drop_d d s = (case d of None \<Rightarrow> Next s | Some r \<Rightarrow> on_life r dropData s)"

definition routine_move :: "nat \<Rightarrow> nat \<Rightarrow> nat option \<Rightarrow> routines \<Rightarrow> routines" where
  "routine_move i j d s = s\<lparr>routine := (routine s)(i \<mapsto> None, j \<mapsto> d)\<rparr>"

text \<open>Move assignment to \<open>j\<close>: the source is emptied, the target set, what it had is released.\<close>

definition routine_assign :: "nat \<Rightarrow> nat \<Rightarrow> nat option \<Rightarrow> nat option \<Rightarrow> routines \<Rightarrow> routines outcome" where
  "routine_assign i j d old s = drop_d old (routine_move i j d s)"

definition routine_destroy :: "nat \<Rightarrow> nat option \<Rightarrow> routines \<Rightarrow> routines outcome" where
  "routine_destroy h d s = drop_d d (s\<lparr>routine := (routine s)(h := None)\<rparr>)"

text \<open>\<^verbatim>\<open>join()\<close> dereferences \<^verbatim>\<open>d\<close> unchecked and waits for the result.\<close>

definition routine_join :: "nat option \<Rightarrow> routines \<Rightarrow> routines outcome" where
  "routine_join d s =
     (case d of
        None \<Rightarrow> Fault NullDeref
      | Some r \<Rightarrow> on_life r (\<lambda>l. if \<not> alive l then Fault UseAfterFree
                                 else if resultReady l then Next l else Blocked) s)"

text \<open>\<^verbatim>\<open>operator bool\<close>, and the identity of the routine.\<close>

definition routine_bool :: "nat option \<Rightarrow> routines \<Rightarrow> bool outcome" where
  "routine_bool d s =
     (case d of
        None \<Rightarrow> Fault NullDeref
      | Some r \<Rightarrow> (case lives s r of
          None \<Rightarrow> Fault UseAfterFree
        | Some l \<Rightarrow> if alive l then Next (mPull l) else Fault UseAfterFree))"

definition routine_get_id :: "nat option \<Rightarrow> nat outcome" where
  "routine_get_id d = (case d of None \<Rightarrow> Fault (AssertFailed ''get_id'') | Some r \<Rightarrow> Next r)"

text \<open>
  \<^verbatim>\<open>is_ready()\<close> and \<^verbatim>\<open>get_executor()\<close> assert that there is a routine; \<open>contextOf\<close> gives the event
  loop a routine was constructed with.
\<close>

definition routine_is_ready :: "nat option \<Rightarrow> routines \<Rightarrow> bool outcome" where
  "routine_is_ready d s =
     (case d of
        None \<Rightarrow> Fault (AssertFailed ''is_ready'')
      | Some r \<Rightarrow> (case lives s r of
          None \<Rightarrow> Fault UseAfterFree
        | Some l \<Rightarrow> if alive l then Next (resultReady l) else Fault UseAfterFree))"

definition routine_get_executor :: "(nat \<Rightarrow> 'c) \<Rightarrow> nat option \<Rightarrow> routines \<Rightarrow> 'c outcome" where
  "routine_get_executor contextOf d s =
     (case d of
        None \<Rightarrow> Fault (AssertFailed ''get_executor'')
      | Some r \<Rightarrow> (case lives s r of
          None \<Rightarrow> Fault UseAfterFree
        | Some l \<Rightarrow> if alive l then Next (contextOf r) else Fault UseAfterFree))"

text \<open>
  \<^verbatim>\<open>detach()\<close>: its assertion, and the steps of \<open>detach_step\<close>; \<^verbatim>\<open>d\<close> is null behind its
  \<^verbatim>\<open>release()\<close> or \<^verbatim>\<open>reset()\<close>.
\<close>

definition in_detach :: "nat option \<Rightarrow> routines \<Rightarrow> bool" where
  "in_detach d s = (case d of None \<Rightarrow> False | Some r \<Rightarrow>
     (case lives s r of None \<Rightarrow> False | Some l \<Rightarrow> owner_at l = OReset))"

definition routine_detach :: "nat \<Rightarrow> nat option \<Rightarrow> routines \<Rightarrow> routines outcome" where
  "routine_detach h d s =
     (case d of
        None \<Rightarrow> Fault (AssertFailed ''detach'')
      | Some r \<Rightarrow>
          bind_outcome (on_life r detach_step s)
            (\<lambda>s. Next (if in_detach d s then s else s\<lparr>routine := (routine s)(h \<mapsto> None)\<rparr>)))"

datatype routine_event =
    MakeDefault nat | MakeRoutine nat | MoveInto nat nat | AssignFrom nat nat
  | DestroyRoutine nat | JoinRoutine nat | DetachRoutine nat | Finishing nat

text \<open>
  The program uses an object that exists, and no object while it is inside of its \<^verbatim>\<open>detach()\<close>,
  with which it goes on first.
\<close>

fun routines_step :: "(routine_event, routines) machine" where
  "routines_step (MakeDefault h) s = (if routine s h = None then Next (routine_default h s) else Blocked)"
| "routines_step (MakeRoutine h) s = (if routine s h = None then Next (routine_new h s) else Blocked)"
| "routines_step (MoveInto i j) s =
     (case routine s i of
        Some d \<Rightarrow> if routine s j = None \<and> \<not> in_detach d s then Next (routine_move i j d s) else Blocked
      | None \<Rightarrow> Blocked)"
| "routines_step (AssignFrom i j) s =
     (case (routine s i, routine s j) of
        (Some d, Some old) \<Rightarrow>
          if i \<noteq> j \<and> \<not> in_detach d s \<and> \<not> in_detach old s then routine_assign i j d old s else Blocked
      | _ \<Rightarrow> Blocked)"
| "routines_step (DestroyRoutine h) s =
     (case routine s h of
        Some d \<Rightarrow> if in_detach d s then Blocked else routine_destroy h d s
      | None \<Rightarrow> Blocked)"
| "routines_step (JoinRoutine h) s =
     (case routine s h of
        Some d \<Rightarrow> if in_detach d s then Blocked else routine_join d s
      | None \<Rightarrow> Blocked)"
| "routines_step (DetachRoutine h) s =
     (case routine s h of Some d \<Rightarrow> routine_detach h d s | None \<Rightarrow> Blocked)"
| "routines_step (Finishing r) s =
     (if lives s r = None then Blocked else on_life r finishing_step s)"

section \<open>The invariant\<close>

text \<open>
  A routine whose \<^verbatim>\<open>Data\<close> was destroyed under it: it had been left, so that \<^verbatim>\<open>~Data\<close> did not
  terminate the program, but its result was not set yet.
\<close>

fun finishing :: "setter \<Rightarrow> bool" where
  "finishing SRunning = False"
| "finishing (SDestroy b) = False"
| "finishing SDone = False"
| "finishing p = True"

definition dropped_early :: "life \<Rightarrow> bool" where
  "dropped_early l \<longleftrightarrow> \<not> alive l \<and> destroyed l = 1 \<and> owner_at l = OJoined \<and> \<not> mPull l \<and> finishing (setter_at l)"

fun attached :: "owner \<Rightarrow> bool" where
  "attached OHolds = True"
| "attached OReset = True"
| "attached p = False"

text \<open>
  One object for each routine that is attached: \<open>holds\<close> says that a routine is owned by an
  object, \<open>single\<close> that no two own the same.
\<close>

definition holds :: "(nat \<Rightarrow> nat option option) \<Rightarrow> nat \<Rightarrow> bool" where
  "holds R r \<longleftrightarrow> (\<exists>h. R h = Some (Some r))"

definition single :: "(nat \<Rightarrow> nat option option) \<Rightarrow> bool" where
  "single R \<longleftrightarrow> (\<forall>h k r. R h = Some (Some r) \<longrightarrow> R k = Some (Some r) \<longrightarrow> h = k)"

definition routines_inv :: "routines \<Rightarrow> bool" where
  "routines_inv s \<longleftrightarrow> single (routine s) \<and>
     (\<forall>r. holds (routine s) r \<longleftrightarrow> (\<exists>l. lives s r = Some l \<and> attached (owner_at l))) \<and>
     (\<forall>r l. lives s r = Some l \<longrightarrow> r < next_id s \<and> (life_inv l \<or> dropped_early l))"

lemma single_forget: "single R \<Longrightarrow> single (R(h := None))" "single R \<Longrightarrow> single (R(h \<mapsto> None))"
  by (auto simp: single_def)

lemma single_put: "single R \<Longrightarrow> \<not> holds R r \<Longrightarrow> single (R(h \<mapsto> Some r))"
  by (auto simp: single_def holds_def)

lemma holds_forget:
  assumes "single R" "R h = Some d"
  shows "holds (R(h := None)) r \<longleftrightarrow> holds R r \<and> d \<noteq> Some r"
    and "holds (R(h \<mapsto> None)) r \<longleftrightarrow> holds R r \<and> d \<noteq> Some r"
  using assms by (auto simp: single_def holds_def) (metis option.inject)+

lemma holds_put: "R h = None \<or> R h = Some None \<Longrightarrow> holds (R(h \<mapsto> d)) r \<longleftrightarrow> holds R r \<or> d = Some r"
  by (auto simp: holds_def) (metis option.distinct(1) option.inject)+

lemma inv_held:
  assumes "routines_inv s" "routine s h = Some (Some r)"
  obtains l where "lives s r = Some l" "attached (owner_at l)" "alive l" "life_inv l"
proof -
  from assms(2) have "holds (routine s) r" by (auto simp: holds_def)
  with assms(1) obtain l where l: "lives s r = Some l" "attached (owner_at l)" "life_inv l \<or> dropped_early l"
    by (auto simp: routines_inv_def)
  then have "life_inv l" by (auto simp: dropped_early_def)
  moreover from this l(2) have "alive l" by (cases "owner_at l") (auto simp: life_inv_def)
  ultimately show ?thesis using l that by blast
qed

text \<open>A step of one routine that leaves it attached or not as it was.\<close>

lemma inv_life:
  assumes "routines_inv s" "lives s r = Some l" "life_inv l' \<or> dropped_early l'"
    "attached (owner_at l') \<longleftrightarrow> attached (owner_at l)"
  shows "routines_inv (s\<lparr>lives := (lives s)(r \<mapsto> l')\<rparr>)"
  using assms by (auto simp: routines_inv_def)

text \<open>A routine let go of by its object.\<close>

lemma inv_let_go:
  assumes I: "routines_inv s" and l: "lives s r = Some l" "life_inv l' \<or> dropped_early l'"
    "\<not> attached (owner_at l')"
    and R: "single R" "\<And>q. holds R q \<longleftrightarrow> holds (routine s) q \<and> q \<noteq> r"
  shows "routines_inv (s\<lparr>lives := (lives s)(r \<mapsto> l'), routine := R\<rparr>)"
  using I l R by (auto simp: routines_inv_def)

lemma inv_routine:
  assumes "routines_inv s" "single R" "\<And>q. holds R q \<longleftrightarrow> holds (routine s) q"
  shows "routines_inv (s\<lparr>routine := R\<rparr>)"
  using assms by (simp add: routines_inv_def)

lemma finishing_owner: "ensures (\<lambda>l'. owner_at l' = owner_at l) (finishing_step l)"
  by (cases "setter_at l") (auto simp: finishing_step_def destroyData_def)

lemma finishing_dropped: "dropped_early l \<Longrightarrow> finishing_step l = Fault UseAfterFree"
  by (cases "setter_at l") (auto simp: dropped_early_def finishing_step_def)

lemma finishing_keeps:
  assumes "life_inv l \<or> dropped_early l" "finishing_step l = Next l'"
  shows "life_inv l'" "owner_at l' = owner_at l"
  using assms finishing_dropped [of l] life_step_inv [of l SetterMoves] finishing_owner [of l] by auto

lemma dropData_keeps:
  assumes "life_inv l" "owner_at l = OHolds"
  shows "ensures (\<lambda>l'. (life_inv l' \<or> dropped_early l') \<and> owner_at l' = OJoined) (dropData l)"
    and "dropData l = Fault f \<longleftrightarrow> mPull l \<and> f = Terminated"
proof -
  from assms have a: "alive l" by (simp add: life_inv_def)
  show "dropData l = Fault f \<longleftrightarrow> mPull l \<and> f = Terminated"
    using a by (auto simp: dropData_def destroyData_def)
  show "ensures (\<lambda>l'. (life_inv l' \<or> dropped_early l') \<and> owner_at l' = OJoined) (dropData l)"
    using assms by (cases "setter_at l") (auto simp: dropData_def destroyData_def life_inv_def dropped_early_def)
qed

text \<open>Releasing what an object held, when the objects are already as they will be.\<close>

lemma drop_d_inv:
  assumes I: "routines_inv s" and h: "routine s h = Some d" "\<not> in_detach d s"
    and R: "single R" "\<And>q. holds R q \<longleftrightarrow> holds (routine s) q \<and> d \<noteq> Some q"
  shows "ensures routines_inv (drop_d d (s\<lparr>routine := R\<rparr>))"
    and "drop_d d (s\<lparr>routine := R\<rparr>) = Fault f \<Longrightarrow>
      f = Terminated \<and> (\<exists>r l. d = Some r \<and> lives s r = Some l \<and> mPull l)"
proof -
  have "ensures routines_inv (drop_d d (s\<lparr>routine := R\<rparr>)) \<and>
    (drop_d d (s\<lparr>routine := R\<rparr>) = Fault f \<longrightarrow>
      f = Terminated \<and> (\<exists>r l. d = Some r \<and> lives s r = Some l \<and> mPull l))"
  proof (cases d)
    case None
    with I R show ?thesis by (simp add: drop_d_def inv_routine)
  next
    case (Some r)
    with I h(1) obtain l where l: "lives s r = Some l" "attached (owner_at l)" "alive l" "life_inv l"
      by (auto elim: inv_held)
    then have o: "owner_at l = OHolds"
      using h(2) Some by (cases "owner_at l") (auto simp: in_detach_def)
    note k = dropData_keeps [OF l(4) o]
    show ?thesis
    proof (cases "dropData l")
      case (Next l')
      with k(1) have "life_inv l' \<or> dropped_early l'" "\<not> attached (owner_at l')" by auto
      moreover have "\<And>q. holds R q \<longleftrightarrow> holds (routine s) q \<and> q \<noteq> r"
        unfolding R(2) Some by blast
      ultimately have "routines_inv (s\<lparr>lives := (lives s)(r \<mapsto> l'), routine := R\<rparr>)"
        using inv_let_go [OF I l(1)] R(1) by blast
      then have "routines_inv (s\<lparr>routine := R, lives := (lives s)(r \<mapsto> l')\<rparr>)"
        by (cases s) simp
      then show ?thesis
        by (simp add: drop_d_def on_life_def Some Next l(1))
    next
      case Blocked
      with l(1) Some show ?thesis by (simp add: drop_d_def on_life_def)
    next
      case (Fault x)
      with k(2) [of x] have "mPull l" "x = Terminated" by simp_all
      with Fault l(1) Some show ?thesis by (simp add: drop_d_def on_life_def)
    qed
  qed
  then show "ensures routines_inv (drop_d d (s\<lparr>routine := R\<rparr>))"
    and "drop_d d (s\<lparr>routine := R\<rparr>) = Fault f \<Longrightarrow>
      f = Terminated \<and> (\<exists>r l. d = Some r \<and> lives s r = Some l \<and> mPull l)" by blast+
qed

lemma detach_keeps:
  assumes "life_inv l" "attached (owner_at l)"
  shows "detach_step l \<noteq> Fault f"
    and "detach_step l = Next l' \<Longrightarrow> life_inv l' \<and> (attached (owner_at l') \<longleftrightarrow> owner_at l' = OReset)"
proof -
  show "detach_step l \<noteq> Fault f"
  proof
    assume "detach_step l = Fault f"
    then have "life_step OwnerDetaches l = Fault f" by simp
    from life_step_fault [OF assms(1) this] show False by simp
  qed
  assume n: "detach_step l = Next l'"
  then have "life_inv l'" using life_step_inv [OF assms(1), of OwnerDetaches] by simp
  moreover have "attached (owner_at l') \<longleftrightarrow> owner_at l' = OReset"
    using n assms(2) by (cases "owner_at l") (auto simp: detach_step_def split: if_splits)
  ultimately show "life_inv l' \<and> (attached (owner_at l') \<longleftrightarrow> owner_at l' = OReset)" ..
qed

lemma routine_detach_inv:
  assumes I: "routines_inv s" and h: "routine s h = Some d"
  shows "ensures routines_inv (routine_detach h d s)"
    and "routine_detach h d s = Fault f \<Longrightarrow> d = None \<and> f = AssertFailed ''detach''"
proof -
  have "ensures routines_inv (routine_detach h d s) \<and>
    (routine_detach h d s = Fault f \<longrightarrow> d = None \<and> f = AssertFailed ''detach'')"
  proof (cases d)
    case None
    then show ?thesis by (auto simp: routine_detach_def)
  next
    case (Some r)
    with I h obtain l where l: "lives s r = Some l" "attached (owner_at l)" "life_inv l"
      by (auto elim: inv_held)
    note k = detach_keeps [OF l(3,2)]
    show ?thesis
    proof (cases "detach_step l")
      case (Next l')
      from k(2) [OF this] have l': "life_inv l'" "attached (owner_at l') \<longleftrightarrow> owner_at l' = OReset" by blast+
      have sg: "single (routine s)" using I by (simp add: routines_inv_def)
      show ?thesis
      proof (cases "owner_at l' = OReset")
        case True
        with l' l(2) have "routines_inv (s\<lparr>lives := (lives s)(r \<mapsto> l')\<rparr>)"
          by (intro inv_life [OF I l(1)]) auto
        with True Next Some l(1) show ?thesis
          by (simp add: routine_detach_def on_life_def in_detach_def)
      next
        case False
        with l' have "routines_inv (s\<lparr>lives := (lives s)(r \<mapsto> l'), routine := (routine s)(h \<mapsto> None)\<rparr>)"
          by (intro inv_let_go [OF I l(1)])
            (use h Some in \<open>auto simp: single_forget [OF sg] holds_forget [OF sg h]\<close>)
        with False Next Some l(1) show ?thesis
          by (simp add: routine_detach_def on_life_def in_detach_def)
      qed
    qed (use k(1) Some l(1) in \<open>auto simp: routine_detach_def on_life_def\<close>)
  qed
  then show "ensures routines_inv (routine_detach h d s)"
    and "routine_detach h d s = Fault f \<Longrightarrow> d = None \<and> f = AssertFailed ''detach''" by blast+
qed

lemma routine_join_inv:
  assumes I: "routines_inv s" and h: "routine s h = Some d"
  shows "ensures routines_inv (routine_join d s)"
    and "routine_join d s = Fault f \<Longrightarrow> d = None \<and> f = NullDeref"
proof -
  have "ensures routines_inv (routine_join d s) \<and> (routine_join d s = Fault f \<longrightarrow> d = None \<and> f = NullDeref)"
  proof (cases d)
    case None
    then show ?thesis by (auto simp: routine_join_def)
  next
    case (Some r)
    with I h obtain l where l: "lives s r = Some l" "alive l" by (auto elim: inv_held)
    then have "s\<lparr>lives := (lives s)(r \<mapsto> l)\<rparr> = s" by (simp add: fun_upd_idem)
    with l Some I show ?thesis by (simp add: routine_join_def on_life_def)
  qed
  then show "ensures routines_inv (routine_join d s)"
    and "routine_join d s = Fault f \<Longrightarrow> d = None \<and> f = NullDeref" by blast+
qed

lemma routines_inv_init: "routines_inv routines_init"
  by (simp add: routines_inv_def routines_init_def single_def holds_def)

lemma inv_fresh: "routines_inv s \<Longrightarrow> \<not> holds (routine s) (next_id s)"
  by (auto simp: routines_inv_def)

lemma life_init_facts: "life_inv life_init" "attached (owner_at life_init)"
  by (simp add: life_inv_init) (simp add: life_init_def)

lemma routine_new_inv:
  assumes I: "routines_inv s" and h: "routine s h = None"
  shows "routines_inv (routine_new h s)"
proof -
  have f: "\<not> holds (routine s) (next_id s)" by (rule inv_fresh [OF I])
  have "single ((routine s)(h \<mapsto> Some (next_id s)))"
    by (rule single_put) (use I f in \<open>simp_all add: routines_inv_def\<close>)
  with I h f life_init_facts show ?thesis
    by (auto simp: routines_inv_def routine_new_def holds_put less_Suc_eq)
qed

text \<open>The objects after a move: the target holds what the source did.\<close>

lemma moved_objects:
  assumes sg: "single R" and i: "R i = Some d" and ij: "i \<noteq> j"
    and j: "R j = Some old \<or> R j = None \<and> old = None"
  shows "single (R(i \<mapsto> None, j \<mapsto> d))"
    and "holds (R(i \<mapsto> None, j \<mapsto> d)) q \<longleftrightarrow> holds R q \<and> old \<noteq> Some q"
proof -
  define E where "E = R(i \<mapsto> None, j \<mapsto> None)"
  have sE: "single E" unfolding E_def by (intro single_forget sg)
  have j': "(R(i \<mapsto> None)) j = Some old \<or> (R(i \<mapsto> None)) j = None \<and> old = None" using j ij by simp
  have hE: "holds E q \<longleftrightarrow> holds R q \<and> d \<noteq> Some q \<and> old \<noteq> Some q" for q
  proof (cases "R j = None")
    case True
    with j have "old = None" by auto
    have "holds E q \<longleftrightarrow> holds (R(i \<mapsto> None)) q"
      unfolding E_def by (subst holds_put) (use True ij in simp_all)
    with \<open>old = None\<close> show ?thesis by (simp add: holds_forget [OF sg i])
  next
    case False
    with j' ij have "(R(i \<mapsto> None)) j = Some old" by auto
    from holds_forget(2) [OF single_forget(2) [OF sg] this, of q] show ?thesis
      unfolding E_def holds_forget(2) [OF sg i] by blast
  qed
  have E: "R(i \<mapsto> None, j \<mapsto> d) = E(j \<mapsto> d)" "E j = Some None" by (simp_all add: E_def)
  have other: "d = Some q \<Longrightarrow> holds R q \<and> old \<noteq> Some q" for q
    using sg i j ij unfolding single_def holds_def by blast
  show "holds (R(i \<mapsto> None, j \<mapsto> d)) q \<longleftrightarrow> holds R q \<and> old \<noteq> Some q"
    unfolding E(1) using hE other E(2) by (subst holds_put) auto
  show "single (R(i \<mapsto> None, j \<mapsto> d))"
  proof (cases d)
    case None
    then show ?thesis unfolding E(1) by (simp add: single_forget sE)
  next
    case (Some q)
    with hE have "\<not> holds E q" by simp
    with Some show ?thesis unfolding E(1) by (simp add: single_put sE)
  qed
qed

text \<open>The faults a program of \<^verbatim>\<open>Routine\<close> objects can have, by the event that meets them.\<close>

definition routine_fault :: "routine_event \<Rightarrow> routines \<Rightarrow> fault \<Rightarrow> bool" where
  "routine_fault e s f \<longleftrightarrow>
     (case e of
        JoinRoutine h \<Rightarrow> f = NullDeref \<and> routine s h = Some None
      | DetachRoutine h \<Rightarrow> f = AssertFailed ''detach'' \<and> routine s h = Some None
      | DestroyRoutine h \<Rightarrow> f = Terminated \<and>
          (\<exists>r l. routine s h = Some (Some r) \<and> lives s r = Some l \<and> mPull l)
      | AssignFrom i j \<Rightarrow> f = Terminated \<and>
          (\<exists>r l. routine s j = Some (Some r) \<and> lives s r = Some l \<and> mPull l)
      | Finishing r \<Rightarrow> f = UseAfterFree \<and>
          (\<exists>l. lives s r = Some l \<and> \<not> alive l \<and> (owner_at l = OLost \<or> dropped_early l))
      | _ \<Rightarrow> False)"

lemma finishing_fault:
  assumes "life_inv l \<or> dropped_early l" "finishing_step l = Fault f"
  shows "f = UseAfterFree \<and> \<not> alive l \<and> (owner_at l = OLost \<or> dropped_early l)"
proof (cases "dropped_early l")
  case True
  with assms(2) show ?thesis by (simp add: finishing_dropped) (simp add: dropped_early_def)
next
  case False
  with assms(1) have I: "life_inv l" by blast
  from life_step_fault [OF I, of SetterMoves f] assms(2) have "owner_at l = OLost" "f = UseAfterFree"
    by simp_all
  with I show ?thesis by (simp add: life_inv_def)
qed

lemma routines_finishing:
  assumes I: "routines_inv s"
  shows "ensures routines_inv (routines_step (Finishing r) s)"
    and "routines_step (Finishing r) s = Fault f \<Longrightarrow> routine_fault (Finishing r) s f"
proof -
  have "ensures routines_inv (routines_step (Finishing r) s) \<and>
    (routines_step (Finishing r) s = Fault f \<longrightarrow> routine_fault (Finishing r) s f)"
  proof (cases "lives s r")
    case (Some l)
    with I have l: "life_inv l \<or> dropped_early l" by (auto simp: routines_inv_def)
    show ?thesis
    proof (cases "finishing_step l")
      case (Next l')
      from finishing_keeps [OF l this] have "routines_inv (s\<lparr>lives := (lives s)(r \<mapsto> l')\<rparr>)"
        by (intro inv_life [OF I Some]) simp_all
      with Next Some show ?thesis by (simp add: on_life_def)
    next
      case (Fault x)
      from finishing_fault [OF l this] Fault Some show ?thesis
        by (simp add: on_life_def routine_fault_def)
    qed (use Some in \<open>simp add: on_life_def\<close>)
  qed simp
  then show "ensures routines_inv (routines_step (Finishing r) s)"
    and "routines_step (Finishing r) s = Fault f \<Longrightarrow> routine_fault (Finishing r) s f" by blast+
qed

lemma routines_dropping:
  assumes I: "routines_inv s"
  shows "ensures routines_inv (routines_step (DestroyRoutine h) s)"
    and "routines_step (DestroyRoutine h) s = Fault f \<Longrightarrow> routine_fault (DestroyRoutine h) s f"
    and "ensures routines_inv (routines_step (AssignFrom i j) s)"
    and "routines_step (AssignFrom i j) s = Fault f \<Longrightarrow> routine_fault (AssignFrom i j) s f"
proof -
  have sg: "single (routine s)" using I by (simp add: routines_inv_def)
  have D: "ensures routines_inv (routine_destroy h d s) \<and>
      (routine_destroy h d s = Fault f \<longrightarrow> routine_fault (DestroyRoutine h) s f)"
    if h: "routine s h = Some d" and n: "\<not> in_detach d s" for d
  proof -
    note k = drop_d_inv [OF I h n single_forget(1) [OF sg, of h] holds_forget(1) [OF sg h]]
    show ?thesis unfolding routine_destroy_def routine_fault_def using k(1) k(2) h by auto
  qed
  have A: "ensures routines_inv (routine_assign i j d old s) \<and>
      (routine_assign i j d old s = Fault f \<longrightarrow> routine_fault (AssignFrom i j) s f)"
    if i: "routine s i = Some d" and j: "routine s j = Some old" and ij: "i \<noteq> j" and n: "\<not> in_detach old s" for d old
  proof -
    note m = moved_objects [OF sg i ij, of old]
    note k = drop_d_inv [OF I j n m [OF disjI1 [OF j]]]
    show ?thesis unfolding routine_assign_def routine_move_def routine_fault_def using k(1) k(2) j by auto
  qed
  show "ensures routines_inv (routines_step (DestroyRoutine h) s)"
    and "routines_step (DestroyRoutine h) s = Fault f \<Longrightarrow> routine_fault (DestroyRoutine h) s f"
    using D by (auto split: option.splits if_splits)
  show "ensures routines_inv (routines_step (AssignFrom i j) s)"
    and "routines_step (AssignFrom i j) s = Fault f \<Longrightarrow> routine_fault (AssignFrom i j) s f"
    using A by (auto split: option.splits if_splits)
qed

lemma routines_moving:
  assumes I: "routines_inv s"
  shows "ensures routines_inv (routines_step (MakeDefault h) s)"
    and "ensures routines_inv (routines_step (MoveInto i j) s)"
proof -
  have sg: "single (routine s)" using I by (simp add: routines_inv_def)
  have "routines_inv (routine_default h s)" if "routine s h = None"
    unfolding routine_default_def
    by (rule inv_routine [OF I single_forget(2) [OF sg]]) (use that in \<open>simp add: holds_put\<close>)
  then show "ensures routines_inv (routines_step (MakeDefault h) s)" by simp
  have "routines_inv (routine_move i j d s)" if i: "routine s i = Some d" and j: "routine s j = None" for d
  proof -
    have ij: "i \<noteq> j" using i j by auto
    note m = moved_objects [OF sg i ij, of None]
    show ?thesis unfolding routine_move_def
      by (rule inv_routine [OF I]) (simp_all add: m j)
  qed
  then show "ensures routines_inv (routines_step (MoveInto i j) s)" by (auto split: option.splits)
qed

lemma routines_checked:
  assumes "routines_inv s"
  shows "ensures routines_inv (routines_step (MakeRoutine h) s)"
    and "ensures routines_inv (routines_step (JoinRoutine h) s)"
    and "routines_step (JoinRoutine h) s = Fault f \<Longrightarrow> routine_fault (JoinRoutine h) s f"
    and "ensures routines_inv (routines_step (DetachRoutine h) s)"
    and "routines_step (DetachRoutine h) s = Fault f \<Longrightarrow> routine_fault (DetachRoutine h) s f"
  using routine_new_inv [OF assms] routine_join_inv [OF assms] routine_detach_inv [OF assms]
  by (auto simp: routine_fault_def split: option.splits if_splits)

lemma routines_step_inv: "routines_inv s \<Longrightarrow> ensures routines_inv (routines_step e s)"
  by (cases e; simp only: routines_moving routines_dropping(1,3) routines_finishing(1)
      routines_checked(1,2,4))

lemma routines_step_fault:
  assumes "routines_inv s" "routines_step e s = Fault f"
  shows "routine_fault e s f"
  using assms(2)
  by (cases e; simp only: routines_dropping(2,4) [OF assms(1)] routines_finishing(2) [OF assms(1)]
      routines_checked(3,5) [OF assms(1)]) (simp_all split: option.splits if_splits)

interpretation routines: invariant routines_step routines_init routines_inv
  by unfold_locales (simp_all add: routines_inv_init routines_step_inv del: routines_step.simps)

text \<open>
  An object that owns a routine can be asked at any time: \<^verbatim>\<open>is_ready()\<close> is true only after
  \<^verbatim>\<open>operator bool\<close> has become false.
\<close>

lemma owned_queries:
  assumes "routines_inv s" "routine s h = Some (Some r)"
  obtains l where "lives s r = Some l" "alive l" "routine_bool (Some r) s = Next (mPull l)"
    "routine_is_ready (Some r) s = Next (resultReady l)" "resultReady l \<longrightarrow> \<not> mPull l"
    "routine_get_executor contextOf (Some r) s = Next (contextOf r)" "routine_get_id (Some r) = Next r"
proof -
  from assms(2) have h: "holds (routine s) r" by (auto simp: holds_def)
  with assms(1) obtain l where l: "lives s r = Some l" "attached (owner_at l)" "life_inv l \<or> dropped_early l"
    by (auto simp: routines_inv_def)
  then have "alive l" "resultReady l \<longrightarrow> \<not> mPull l"
    by (cases "owner_at l"; cases "setter_at l"; auto simp: life_inv_def dropped_early_def)+
  with l(1) show thesis
    by (intro that [of l])
      (simp_all add: routine_bool_def routine_is_ready_def routine_get_executor_def routine_get_id_def)
qed

section \<open>Properties\<close>

text \<open>
  C10. However \<^verbatim>\<open>Routine\<close> objects are made, moved, assigned, joined, detached and destroyed
  while routines finish: no two objects own the same routine, the \<^verbatim>\<open>Data\<close> of a routine
  exists as long as an object owns it, it is destroyed at most once, and exactly once when
  the routine has finished and no object owns it. The program fails only by joining or
  detaching an empty object, by dropping a routine that has not ended, or where a routine
  finishes whose \<^verbatim>\<open>Data\<close> was taken away between its end and its result.
\<close>

theorem routine_objects_own:
  assumes "run routines_step es routines_init = Next s"
  shows "single (routine s) \<and>
    (\<forall>r l. lives s r = Some l \<longrightarrow>
       (holds (routine s) r \<longrightarrow> alive l) \<and> destroyed l = (if alive l then 0 else 1) \<and>
       (\<not> holds (routine s) r \<and> setter_at l = SDone \<longrightarrow> destroyed l = 1)) \<and>
    (routines_step e s = Fault f \<longrightarrow> routine_fault e s f)"
proof -
  have I: "routines_inv s" by (rule routines.along_run [OF routines_inv_init assms])
  have own: "(holds (routine s) r \<longrightarrow> alive l) \<and> destroyed l = (if alive l then 0 else 1) \<and>
      (\<not> holds (routine s) r \<and> setter_at l = SDone \<longrightarrow> destroyed l = 1)" if l: "lives s r = Some l" for r l
  proof -
    from I l have h: "holds (routine s) r \<longleftrightarrow> attached (owner_at l)" and v: "life_inv l \<or> dropped_early l"
      by (auto simp: routines_inv_def)
    from v show ?thesis unfolding h
      by (cases "owner_at l") (auto simp: life_inv_def dropped_early_def)
  qed
  have "single (routine s)" using I by (simp add: routines_inv_def)
  with own routines_step_fault [OF I] show ?thesis by blast
qed

lemma routine_objects_own_witness:
  "\<exists>s. run routines_step ([MakeRoutine 0, MakeDefault 1, AssignFrom 0 1] @ replicate 7 (Finishing 0) @
      [JoinRoutine 1, DestroyRoutine 1]) routines_init = Next s \<and>
    (\<exists>l. lives s 0 = Some l \<and> destroyed l = 1) \<and>
    (routines_step (JoinRoutine 0) s = Fault NullDeref \<and> routine s 0 = Some None)"
proof -
  obtain s l where s: "run routines_step ([MakeRoutine 0, MakeDefault 1, AssignFrom 0 1] @
      replicate 7 (Finishing 0) @ [JoinRoutine 1, DestroyRoutine 1]) routines_init = Next s"
    and l: "lives s 0 = Some l" "\<not> alive l"
    and j: "routines_step (JoinRoutine 0) s = Fault NullDeref"
    by (simp add: numeral_eq_Suc routines_init_def routine_new_def routine_default_def routine_assign_def
        routine_move_def drop_d_def dropData_def on_life_def in_detach_def routine_join_def routine_destroy_def
        life_init_def finishing_step_def destroyData_def)
  note own = routine_objects_own [OF s, of "JoinRoutine 0" NullDeref]
  from own [THEN conjunct2, THEN conjunct1, rule_format, OF l(1)] l(2) have "destroyed l = 1" by simp
  moreover from own [THEN conjunct2, THEN conjunct2, rule_format, OF j] have "routine s 0 = Some None"
    by (simp add: routine_fault_def)
  ultimately show ?thesis using s l(1) j by (intro exI conjI)
qed

text \<open>
  Destroying a routine that has been left, which \<^verbatim>\<open>operator bool\<close> reports as not running, before
  its result is set: the finishing thread uses the destroyed \<^verbatim>\<open>Data\<close>.
\<close>

lemma early_destroy_uses_freed_data:
  "\<exists>s t. run routines_step [MakeRoutine 0, Finishing 0] routines_init = Next s \<and>
     routine_bool (Some 0) s = Next False \<and> routines_step (DestroyRoutine 0) s = Next t \<and>
     routines_step (Finishing 0) t = Fault UseAfterFree"
  by (simp add: routine_bool_def routines_init_def routine_new_def drop_d_def dropData_def on_life_def
      in_detach_def routine_destroy_def life_init_def finishing_step_def destroyData_def)

end
