(* ===== verification/Routine.thy ===== *)
theory Routine
  imports Future
begin

text \<open>
  The coroutines of \<^verbatim>\<open>include/co/routine.hpp\<close> and \<^verbatim>\<open>co::await\<close> of
  \<^verbatim>\<open>include/co/await.hpp\<close> on one thread: the switching between coroutines
  (\<^verbatim>\<open>current()\<close>, \<^verbatim>\<open>mOuter\<close>, \<^verbatim>\<open>leave\<close>, \<^verbatim>\<open>resume\<close>, \<^verbatim>\<open>runPostLeave\<close>), the constructor that runs
  a routine to its first suspension, the result setter, and the runners that resume a
  coroutine from the event loop or from the routine it awaits. Theory \<open>RoutineJoin\<close> has the
  races with other threads.
\<close>

section \<open>Coroutine code\<close>

text \<open>
  What the body of a coroutine does with this library: it ends, by returning or with an
  exception, it awaits something and goes on with the result, or it creates another routine
  and goes on with it. What it does between is not the library's business.
\<close>

datatype awaitable = AwIoContext | AwRoutine nat

datatype body =
  Finish "exception + unit"
| Await awaitable "exception + unit \<Rightarrow> body"
| Spawn body "nat \<Rightarrow> body"

section \<open>State\<close>

text \<open>
  \<^verbatim>\<open>mPostLeave\<close> holds the \<^verbatim>\<open>PostLeave\<close> object of a \<^verbatim>\<open>co::await\<close> or the routine's own result
  setter.
\<close>

datatype post_leave = AwaitPost awaitable | ResultSetter

text \<open>
  \<^verbatim>\<open>Routine::Data\<close>. \<open>code\<close> is what the coroutine does when it is entered, \<open>inAwait\<close> tells
  that it is inside the \<^verbatim>\<open>co::await\<close> \<open>code\<close> starts with, \<open>mPull\<close> that it has not ended.
  \<open>mCaller\<close> is that of the \<^verbatim>\<open>Runner\<close> of this \<^verbatim>\<open>co::await\<close>. \<open>constructed\<close> tells that the
  constructor has returned, so that there is a \<^verbatim>\<open>Routine\<close> object to await.
\<close>

record data =
  code :: body
  inAwait :: bool
  mPull :: bool
  mPostLeave :: "post_leave option"
  mSetValue :: "unit variant"
  mResult :: "(nat, unit) light_future"
  mContinuation :: "nat data_ptr"
  mOuter :: "nat option"
  mCaller :: "nat data_ptr"
  constructed :: bool

text \<open>
  What the thread's stack holds below the coroutine that runs: the constructor of a routine
  in the first entry or in its \<^verbatim>\<open>resume()\<close>, a constructor about to return, a runner's loop in
  \<^verbatim>\<open>resume()\<close>, and a \<^verbatim>\<open>resume()\<close> that is about to return a routine to that loop. The innermost
  frame comes first.
\<close>

datatype frame =
  Ctor nat | CtorLoop nat | CtorReturns nat | Loop nat | Returning "nat data_ptr"

record rt =
  heap :: "nat \<Rightarrow> data"
  fresh :: nat
  current :: "nat option"
  frames :: "frame list"
  ioc :: "nat list"

definition upd :: "nat \<Rightarrow> (data \<Rightarrow> data) \<Rightarrow> rt \<Rightarrow> rt" where
  "upd c f s = s\<lparr>heap := (heap s)(c := f (heap s c))\<rparr>"

definition newData :: "body \<Rightarrow> data" where
  "newData b = \<lparr>code = b, inAwait = False, mPull = True, mPostLeave = None, mSetValue = Unset,
     mResult = LightFutureData, mContinuation = NullData, mOuter = None, mCaller = NullData,
     constructed = False\<rparr>"

definition rt_init :: rt where
  "rt_init = \<lparr>heap = (\<lambda>c. newData (Finish (Inr ()))), fresh = 0, current = None, frames = [], ioc = []\<rparr>"

section \<open>Entering and leaving\<close>

text \<open>Entering a coroutine: \<^verbatim>\<open>mOuter = exchange(current(), this)\<close>.\<close>

definition enter :: "nat \<Rightarrow> rt \<Rightarrow> rt" where
  "enter c s = upd c (mOuter_update (\<lambda>_. current s)) (s\<lparr>current := Some c\<rparr>)"

text \<open>Entering it in \<^verbatim>\<open>resume()\<close>, with its assertion; a coroutine that has ended cannot be entered.\<close>

definition reenter :: "nat \<Rightarrow> rt \<Rightarrow> rt outcome" where
  "reenter c s =
     (if current s = Some c then Fault (AssertFailed ''resume'')
      else if \<not> mPull (heap s c) then Fault UseAfterFree
      else Next (enter c s))"

text \<open>\<^verbatim>\<open>leave\<close>, and the same at the end of the function \<^verbatim>\<open>buildExecutor\<close> makes.\<close>

definition leave :: "nat \<Rightarrow> post_leave \<Rightarrow> rt \<Rightarrow> rt outcome" where
  "leave c p s =
     (if mPostLeave (heap s c) \<noteq> None then Fault (AssertFailed ''leave'')
      else if current s \<noteq> Some c then Fault (AssertFailed ''leave'')
      else Next (upd c (mPostLeave_update (\<lambda>_. Some p)) (s\<lparr>current := mOuter (heap s c)\<rparr>)))"

section \<open>Runners and post-leave functions\<close>

text \<open>
  \<^verbatim>\<open>Runner::operator()\<close> of the runner of coroutine \<open>k\<close>: inside a coroutine it posts itself;
  otherwise it starts its loop with what \<^verbatim>\<open>mCaller\<close> held.
\<close>

definition runner_call :: "nat \<Rightarrow> rt \<Rightarrow> rt outcome" where
  "runner_call k s =
     (if current s \<noteq> None then Next (s\<lparr>ioc := ioc s @ [k]\<rparr>)
      else let s' = upd k (mCaller_update (\<lambda>_. InvalidData)) s in
        case mCaller (heap s k) of
          DataPtr c \<Rightarrow> reenter c (s'\<lparr>frames := Loop c # frames s'\<rparr>)
        | _ \<Rightarrow> Next s')"

text \<open>
  \<^verbatim>\<open>await_suspend\<close> for the event loop and for a routine. With one thread, a wait for the
  runner of a routine that has already disabled its continuation would never end.
\<close>

definition rt_await_suspend :: "nat \<Rightarrow> awaitable \<Rightarrow> rt \<Rightarrow> (bool \<times> rt) outcome" where
  "rt_await_suspend c a s =
     (case a of
        AwIoContext \<Rightarrow> Next (True, s\<lparr>ioc := ioc s @ [c]\<rparr>)
      | AwRoutine d \<Rightarrow>
          let p = mCaller (heap s c);
              s = upd c (mCaller_update (\<lambda>_. NullData)) s
          in case suspend c (mResult (heap s d)) of
               Inl e \<Rightarrow> Fault e
             | Inr (False, f) \<Rightarrow> Next (False, s)
             | Inr (True, f) \<Rightarrow>
                 let s = upd d (mResult_update (\<lambda>_. f)) s in
                 case mContinuation (heap s d) of
                   NullData \<Rightarrow> Next (True, upd d (mContinuation_update (\<lambda>_. p)) s)
                 | InvalidData \<Rightarrow>
                     (if mCaller (heap s c) = InvalidData then Next (False, s) else Blocked)
                 | DataPtr e \<Rightarrow> Fault (AssertFailed ''await_suspend''))"

text \<open>\<^verbatim>\<open>ResultSetter::operator()\<close>; who frees the \<^verbatim>\<open>Data\<close> is the subject of \<open>RoutineDetach\<close>.\<close>

definition result_setter :: "nat \<Rightarrow> rt \<Rightarrow> rt outcome" where
  "result_setter c s =
     (let s = upd c (mContinuation_update (\<lambda>p. if p = NullData then InvalidData else p)) s in
      case (if isException (mSetValue (heap s c))
            then (case mSetValue (heap s c) of ExceptionPtr e \<Rightarrow> set_exception e (mResult (heap s c))
                  | _ \<Rightarrow> Inl (AssertFailed ''get''))
            else (case mSetValue (heap s c) of Placeholder v \<Rightarrow> set_value v (mResult (heap s c))
                  | _ \<Rightarrow> Inl (AssertFailed ''get''))) of
        Inl e \<Rightarrow> Fault e
      | Inr (w, f) \<Rightarrow>
          let s = upd c (mResult_update (\<lambda>_. f)) s in
          case w of None \<Rightarrow> Next s | Some k \<Rightarrow> runner_call k s)"

definition runPostLeave :: "nat \<Rightarrow> rt \<Rightarrow> (bool \<times> rt) outcome" where
  "runPostLeave c s =
     (let s' = upd c (mPostLeave_update (\<lambda>_. None)) s in
      case mPostLeave (heap s c) of
        None \<Rightarrow> Next (True, s')
      | Some (AwaitPost a) \<Rightarrow> rt_await_suspend c a s'
      | Some ResultSetter \<Rightarrow> bind_outcome (result_setter c s') (\<lambda>t. Next (True, t)))"

section \<open>resume() and the constructor\<close>

text \<open>
  What follows in \<^verbatim>\<open>resume()\<close> and in the constructor of \<^verbatim>\<open>Data\<close> when the coroutine is left.
  The frame is replaced by the rest of its work before the post-leave function runs.
\<close>

definition set_frame :: "frame \<Rightarrow> rt \<Rightarrow> rt" where
  "set_frame f s = s\<lparr>frames := f # tl (frames s)\<rparr>"

definition resume_rest :: "nat \<Rightarrow> bool \<Rightarrow> rt \<Rightarrow> rt outcome" where
  "resume_rest c in_ctor s =
     (if \<not> mPull (heap s c)
      then let res = mContinuation (heap s c);
               s = upd c (mContinuation_update (\<lambda>_. InvalidData)) s
           in bind_outcome
                (runPostLeave c (set_frame (if in_ctor then CtorReturns c else Returning res) s))
                (\<lambda>(ok, s). if ok then Next s else Fault (AssertFailed ''resume''))
      else bind_outcome (runPostLeave c s)
        (\<lambda>(ok, s).
           if \<not> ok then reenter c s
           else if current s = Some c then Fault (AssertFailed ''resume'')
           else Next (set_frame (if in_ctor then CtorReturns c else Returning NullData) s)))"

definition left_to :: "frame \<Rightarrow> rt \<Rightarrow> rt outcome" where
  "left_to f s =
     (case f of
        Ctor c \<Rightarrow>
          bind_outcome (runPostLeave c (set_frame (CtorReturns c) s))
            (\<lambda>(ok, s).
               if \<not> ok then reenter c (set_frame (CtorLoop c) s)
               else if current s = Some c then Fault (AssertFailed ''Data'')
               else Next s)
      | CtorLoop c \<Rightarrow> resume_rest c True s
      | Loop c \<Rightarrow> resume_rest c False s
      | _ \<Rightarrow> Blocked)"

definition construct :: "body \<Rightarrow> rt \<Rightarrow> rt" where
  "construct b s =
     enter (fresh s) (s\<lparr>heap := (heap s)(fresh s := newData b), fresh := fresh s + 1,
                        frames := Ctor (fresh s) # frames s\<rparr>)"

section \<open>The machine\<close>

text \<open>
  \<^verbatim>\<open>co::await\<close> in the running coroutine. A routine that does not exist, or whose constructor
  has not returned, cannot be awaited by a correct program.
\<close>

definition rt_await_ready :: "awaitable \<Rightarrow> rt \<Rightarrow> bool" where
  "rt_await_ready a s =
     (case a of AwIoContext \<Rightarrow> False | AwRoutine d \<Rightarrow> await_ready (mResult (heap s d)))"

definition rt_await_resume :: "awaitable \<Rightarrow> rt \<Rightarrow> fault + (exception + unit)" where
  "rt_await_resume a s =
     (case a of
        AwIoContext \<Rightarrow> Inr (Inr ())
      | AwRoutine d \<Rightarrow> get_unchecked_stateless (mResult (heap s d)))"

definition awaitable_ok :: "awaitable \<Rightarrow> rt \<Rightarrow> bool" where
  "awaitable_ok a s =
     (case a of AwIoContext \<Rightarrow> True | AwRoutine d \<Rightarrow> d < fresh s \<and> constructed (heap s d))"

definition go_on :: "nat \<Rightarrow> awaitable \<Rightarrow> (exception + unit \<Rightarrow> body) \<Rightarrow> rt \<Rightarrow> rt outcome" where
  "go_on c a k s =
     (case rt_await_resume a s of
        Inl e \<Rightarrow> Fault e
      | Inr r \<Rightarrow> Next (upd c (\<lambda>d. d\<lparr>code := k r, inAwait := False\<rparr>) s))"

definition run_code :: "nat \<Rightarrow> frame \<Rightarrow> rt \<Rightarrow> rt outcome" where
  "run_code c f s =
     (case code (heap s c) of
        Finish r \<Rightarrow>
          bind_outcome
            (leave c ResultSetter
              (upd c (\<lambda>d. d\<lparr>mSetValue := setByResult (mSetValue d) r, mPull := False\<rparr>) s))
            (left_to f)
      | Spawn b k \<Rightarrow> Next (construct b (upd c (code_update (\<lambda>_. k (fresh s))) s))
      | Await a k \<Rightarrow>
          if \<not> awaitable_ok a s then Fault UseAfterFree
          else if inAwait (heap s c) \<or> rt_await_ready a s then go_on c a k s
          else bind_outcome
            (leave c (AwaitPost a) (upd c (\<lambda>d. d\<lparr>mCaller := DataPtr c, inAwait := True\<rparr>) s))
            (left_to f))"

text \<open>
  One step of the thread: the running coroutine goes on, a finished \<^verbatim>\<open>resume()\<close> or
  constructor returns, or, with nothing on the stack, the program creates a routine or the
  event loop runs the first runner posted to it.
\<close>

datatype rt_event = Start body | RunPosted | Continue

definition return_step :: "nat data_ptr \<Rightarrow> rt \<Rightarrow> rt outcome" where
  "return_step res s =
     (case res of
        DataPtr e \<Rightarrow> reenter e (set_frame (Loop e) s)
      | _ \<Rightarrow> Next (s\<lparr>frames := tl (frames s)\<rparr>))"

fun continue_step :: "rt \<Rightarrow> rt outcome" where
  "continue_step s =
     (case frames s of
        [] \<Rightarrow> Blocked
      | Returning res # fs \<Rightarrow> return_step res s
      | CtorReturns c # fs \<Rightarrow> Next (upd c (constructed_update (\<lambda>_. True)) (s\<lparr>frames := fs\<rparr>))
      | Ctor c # fs \<Rightarrow> run_code c (Ctor c) s
      | CtorLoop c # fs \<Rightarrow> run_code c (CtorLoop c) s
      | Loop c # fs \<Rightarrow> run_code c (Loop c) s)"

fun rt_step :: "(rt_event, rt) machine" where
  "rt_step (Start b) s = (if frames s = [] then Next (construct b s) else Blocked)"
| "rt_step RunPosted s =
     (case ioc s of
        k # q \<Rightarrow> if frames s = [] then runner_call k (s\<lparr>ioc := q\<rparr>) else Blocked
      | [] \<Rightarrow> Blocked)"
| "rt_step Continue s = continue_step s"

section \<open>The invariant\<close>

text \<open>The coroutines that are on the stack, the innermost first.\<close>

fun active :: "frame list \<Rightarrow> nat list" where
  "active [] = []"
| "active (Ctor c # fs) = c # active fs"
| "active (CtorLoop c # fs) = c # active fs"
| "active (Loop c # fs) = c # active fs"
| "active (CtorReturns c # fs) = active fs"
| "active (Returning res # fs) = active fs"

text \<open>
  The stack is a chain of constructors over at most one runner's loop, and \<^verbatim>\<open>current()\<close> and
  the \<^verbatim>\<open>mOuter\<close> pointers say the same. With one thread no post-leave function asks for the
  coroutine to be resumed at once, so \<open>CtorLoop\<close> does not occur.
\<close>

fun chain_ok :: "(nat \<Rightarrow> data) \<Rightarrow> nat option \<Rightarrow> frame list \<Rightarrow> bool" where
  "chain_ok h cur [] = (cur = None)"
| "chain_ok h cur (Ctor c # fs) =
     (cur = Some c \<and> \<not> constructed (h c) \<and> chain_ok h (mOuter (h c)) fs)"
| "chain_ok h cur (Loop c # fs) = (cur = Some c \<and> mOuter (h c) = None \<and> fs = [])"
| "chain_ok h cur (f # fs) = False"

fun stack_ok :: "(nat \<Rightarrow> data) \<Rightarrow> nat option \<Rightarrow> frame list \<Rightarrow> bool" where
  "stack_ok h cur (CtorReturns c # fs) =
     (\<not> constructed (h c) \<and> c \<notin> set (active fs) \<and> chain_ok h cur fs)"
| "stack_ok h cur (Returning res # fs) = (res \<noteq> InvalidData \<and> cur = None \<and> fs = [])"
| "stack_ok h cur fs = chain_ok h cur fs"

fun pending :: "frame list \<Rightarrow> nat option" where
  "pending (Returning (DataPtr c) # fs) = Some c"
| "pending fs = None"

definition waits :: "(nat \<Rightarrow> data) \<Rightarrow> nat \<Rightarrow> nat \<Rightarrow> bool" where
  "waits h w d \<longleftrightarrow> mPull (h w) \<and> inAwait (h w) \<and> mCaller (h w) = NullData \<and>
     (\<exists>k. code (h w) = Await (AwRoutine d) k)"

text \<open>
  The result of a routine: there when it has ended; before, not there, and either nobody
  awaits it or exactly one suspended coroutine does, known to both \<^verbatim>\<open>mResult\<close> and
  \<^verbatim>\<open>mContinuation\<close>.
\<close>

definition result_ok :: "(nat \<Rightarrow> data) \<Rightarrow> nat \<Rightarrow> nat list \<Rightarrow> nat \<Rightarrow> bool" where
  "result_ok h n L c \<longleftrightarrow>
     (if mPull (h c)
      then mResult (h c) = LightFutureData \<and> mContinuation (h c) = NullData \<or>
        (\<exists>w < n. w \<notin> set L \<and> waits h w c \<and> constructed (h c) \<and>
           mResult (h c) = \<lparr>continuationPtr = Handle w, val = Unset\<rparr> \<and>
           mContinuation (h c) = DataPtr w)
      else \<exists>r. mResult (h c) = \<lparr>continuationPtr = InvalidHandle, val = setByResult Unset r\<rparr>)"

text \<open>
  Where a coroutine is that has not ended: on the stack, and then what it has awaited is
  ready; or suspended, and then posted to the event loop, or awaiting a routine that has not
  ended, or about to be resumed by the end of the routine it awaits.
\<close>

definition ready_code :: "(nat \<Rightarrow> data) \<Rightarrow> nat \<Rightarrow> nat \<Rightarrow> bool" where
  "ready_code h n c \<longleftrightarrow>
     (case code (h c) of
        Await AwIoContext k \<Rightarrow> True
      | Await (AwRoutine d) k \<Rightarrow> d < n \<and> constructed (h d) \<and> \<not> mPull (h d)
      | _ \<Rightarrow> False)"

definition waiting_code :: "(nat \<Rightarrow> data) \<Rightarrow> nat \<Rightarrow> nat list \<Rightarrow> nat option \<Rightarrow> nat \<Rightarrow> bool" where
  "waiting_code h n q p c \<longleftrightarrow>
     (case code (h c) of
        Await AwIoContext k \<Rightarrow> c \<in> set q
      | Await (AwRoutine d) k \<Rightarrow> d < n \<and> constructed (h d) \<and>
          (if mPull (h d)
           then mResult (h d) = \<lparr>continuationPtr = Handle c, val = Unset\<rparr> \<and> mCaller (h c) = NullData
           else p = Some c)
      | _ \<Rightarrow> False)"

definition place_ok :: "(nat \<Rightarrow> data) \<Rightarrow> nat \<Rightarrow> nat list \<Rightarrow> nat list \<Rightarrow> nat option \<Rightarrow> nat \<Rightarrow> bool" where
  "place_ok h n L q p c \<longleftrightarrow>
     (if \<not> mPull (h c) then c \<notin> set L
      else if c \<in> set L then inAwait (h c) \<longrightarrow> ready_code h n c
      else inAwait (h c) \<and> waiting_code h n q p c)"

definition queue_ok :: "(nat \<Rightarrow> data) \<Rightarrow> nat \<Rightarrow> nat list \<Rightarrow> nat list \<Rightarrow> bool" where
  "queue_ok h n L q \<longleftrightarrow> distinct q \<and>
     (\<forall>k \<in> set q. k < n \<and> k \<notin> set L \<and> mPull (h k) \<and> inAwait (h k) \<and>
        mCaller (h k) = DataPtr k \<and> (\<exists>f. code (h k) = Await AwIoContext f))"

definition pending_ok :: "(nat \<Rightarrow> data) \<Rightarrow> nat \<Rightarrow> nat list \<Rightarrow> nat option \<Rightarrow> bool" where
  "pending_ok h n L p \<longleftrightarrow>
     (case p of
        None \<Rightarrow> True
      | Some c \<Rightarrow> c < n \<and> c \<notin> set L \<and> mPull (h c) \<and> inAwait (h c) \<and>
          (\<exists>d k. code (h c) = Await (AwRoutine d) k \<and> d < n \<and> constructed (h d) \<and> \<not> mPull (h d)))"

definition coros_ok :: "(nat \<Rightarrow> data) \<Rightarrow> nat \<Rightarrow> nat list \<Rightarrow> nat list \<Rightarrow> nat option \<Rightarrow> bool" where
  "coros_ok h n L q p \<longleftrightarrow> distinct L \<and> (\<forall>c \<in> set L. c < n) \<and>
     (\<forall>c < n. mPostLeave (h c) = None \<and> result_ok h n L c \<and> place_ok h n L q p c) \<and>
     queue_ok h n L q \<and> pending_ok h n L p"

definition rt_inv :: "rt \<Rightarrow> bool" where
  "rt_inv s \<longleftrightarrow> stack_ok (heap s) (current s) (frames s) \<and>
     coros_ok (heap s) (fresh s) (active (frames s)) (ioc s) (pending (frames s))"

lemma rt_inv_init: "rt_inv rt_init"
  by (simp add: rt_inv_def rt_init_def coros_ok_def queue_ok_def pending_ok_def)

lemma coros_okD:
  assumes "coros_ok h n L q p"
  shows "distinct L" "c \<in> set L \<Longrightarrow> c < n" "c < n \<Longrightarrow> mPostLeave (h c) = None"
    "c < n \<Longrightarrow> result_ok h n L c" "c < n \<Longrightarrow> place_ok h n L q p c" "queue_ok h n L q"
    "pending_ok h n L p"
  using assms by (simp_all add: coros_ok_def)

lemma coros_okI:
  assumes "distinct L" "\<And>c. c \<in> set L \<Longrightarrow> c < n"
    "\<And>c. c < n \<Longrightarrow> mPostLeave (h c) = None \<and> result_ok h n L c \<and> place_ok h n L q p c"
    "queue_ok h n L q" "pending_ok h n L p"
  shows "coros_ok h n L q p"
  using assms by (simp add: coros_ok_def)

lemma active_pull:
  assumes "coros_ok h n L q p" "c \<in> set L"
  shows "mPull (h c)"
  using coros_okD(5) [OF assms(1) coros_okD(2) [OF assms]] assms(2)
  by (simp add: place_ok_def split: if_splits)

lemma chain_current: "chain_ok h (Some c) fs \<Longrightarrow> c \<in> set (active fs)"
  by (cases fs rule: active.cases) auto

text \<open>The chain only looks at the coroutines in it.\<close>

lemma chain_ok_cong:
  "(\<And>c. c \<in> set (active fs) \<Longrightarrow> mOuter (h' c) = mOuter (h c) \<and> constructed (h' c) = constructed (h c)) \<Longrightarrow>
    chain_ok h' cur fs = chain_ok h cur fs"
  by (induction fs arbitrary: cur rule: active.induct) auto

lemma result_ok_mono:
  assumes "result_ok h n L c"
    "mPull (h' c) = mPull (h c)" "mResult (h' c) = mResult (h c)"
    "mContinuation (h' c) = mContinuation (h c)" "constructed (h c) \<Longrightarrow> constructed (h' c)"
    "\<And>w. mPull (h c) \<Longrightarrow> w \<notin> set L \<Longrightarrow> waits h w c \<Longrightarrow> w \<notin> set L' \<and> waits h' w c"
  shows "result_ok h' n L' c"
  using assms unfolding result_ok_def by (auto split: if_splits)

section \<open>Creating, entering and returning\<close>

text \<open>A new routine on the stack.\<close>

lemma construct_coros:
  assumes "coros_ok h n L q None"
  shows "coros_ok (h(n := (newData b)\<lparr>mOuter := cur\<rparr>)) (Suc n) (n # L) q None"
proof (rule coros_okI)
  note I = coros_okD [OF assms]
  show "distinct (n # L)" using I(1,2) by auto
  show "c \<in> set (n # L) \<Longrightarrow> c < Suc n" for c using I(2) [of c] by auto
  show "queue_ok (h(n := (newData b)\<lparr>mOuter := cur\<rparr>)) (Suc n) (n # L) q"
    using I(6) by (fastforce simp: queue_ok_def)
  show "pending_ok (h(n := (newData b)\<lparr>mOuter := cur\<rparr>)) (Suc n) (n # L) None"
    by (simp add: pending_ok_def)
  fix c
  assume c: "c < Suc n"
  show "mPostLeave ((h(n := (newData b)\<lparr>mOuter := cur\<rparr>)) c) = None \<and>
      result_ok (h(n := (newData b)\<lparr>mOuter := cur\<rparr>)) (Suc n) (n # L) c \<and>
      place_ok (h(n := (newData b)\<lparr>mOuter := cur\<rparr>)) (Suc n) (n # L) q None c"
  proof (cases "c = n")
    case True
    then show ?thesis by (simp add: newData_def result_ok_def place_ok_def)
  next
    case False
    with c have "c < n" by simp
    note J = I(3-5) [OF this]
    have "result_ok (h(n := (newData b)\<lparr>mOuter := cur\<rparr>)) (Suc n) (n # L) c"
      using J(2) False by (fastforce simp: result_ok_def waits_def)
    moreover have "place_ok (h(n := (newData b)\<lparr>mOuter := cur\<rparr>)) (Suc n) (n # L) q None c"
      using J(3) False
      by (auto simp: place_ok_def ready_code_def waiting_code_def split: body.splits awaitable.splits if_splits)
    ultimately show ?thesis using J(1) False by simp
  qed
qed

lemmas place_defs = place_ok_def ready_code_def waiting_code_def

text \<open>Entering the coroutine a finished routine was awaited by, and a posted one.\<close>

lemma resume_coros:
  assumes "coros_ok h n [] q (Some e)"
  shows "coros_ok (h(e := h e\<lparr>mOuter := cur\<rparr>)) n [e] q None" (is "coros_ok ?h n [e] q None")
proof (rule coros_okI)
  note I = coros_okD [OF assms]
  from I(7) obtain d k where e: "e < n" "mPull (h e)" "inAwait (h e)"
    "code (h e) = Await (AwRoutine d) k" "d < n" "constructed (h d)" "\<not> mPull (h d)"
    by (auto simp: pending_ok_def)
  show "distinct [e]" by simp
  show "c \<in> set [e] \<Longrightarrow> c < n" for c using e(1) by simp
  show "queue_ok ?h n [e] q" using I(6) e(4) by (auto simp: queue_ok_def)
  show "pending_ok ?h n [e] None" by (simp add: pending_ok_def)
  fix c
  assume c: "c < n"
  note J = I(3-5) [OF c]
  have "result_ok ?h n [e] c"
    using e by (intro result_ok_mono [OF J(2)]) (auto simp: waits_def)
  moreover have "place_ok ?h n [e] q None c"
    using J(3) e by (auto simp: place_defs split: body.splits awaitable.splits if_splits)
  ultimately show "mPostLeave (?h c) = None \<and> result_ok ?h n [e] c \<and> place_ok ?h n [e] q None c"
    using J(1) by auto
qed

lemma posted_coros:
  assumes "coros_ok h n [] (e # q) None"
  shows "coros_ok (h(e := h e\<lparr>mCaller := InvalidData, mOuter := cur\<rparr>)) n [e] q None"
    (is "coros_ok ?h n [e] q None")
proof (rule coros_okI)
  note I = coros_okD [OF assms]
  from I(6) obtain k where e: "e < n" "mPull (h e)" "inAwait (h e)" "e \<notin> set q"
    "code (h e) = Await AwIoContext k"
    by (auto simp: queue_ok_def)
  show "distinct [e]" by simp
  show "c \<in> set [e] \<Longrightarrow> c < n" for c using e(1) by simp
  show "queue_ok ?h n [e] q" using I(6) by (auto simp: queue_ok_def)
  show "pending_ok ?h n [e] None" by (simp add: pending_ok_def)
  fix c
  assume c: "c < n"
  note J = I(3-5) [OF c]
  have "result_ok ?h n [e] c"
    using e by (intro result_ok_mono [OF J(2)]) (auto simp: waits_def)
  moreover have "place_ok ?h n [e] q None c"
    using J(3) e by (auto simp: place_defs split: body.splits awaitable.splits if_splits)
  ultimately show "mPostLeave (?h c) = None \<and> result_ok ?h n [e] c \<and> place_ok ?h n [e] q None c"
    using J(1) by auto
qed

text \<open>The constructor returns; the running coroutine goes on with other code.\<close>

lemma constructed_coros:
  assumes "coros_ok h n L q None"
  shows "coros_ok (h(e := h e\<lparr>constructed := True\<rparr>)) n L q None" (is "coros_ok ?h n L q None")
proof (rule coros_okI)
  note I = coros_okD [OF assms]
  show "distinct L" "c \<in> set L \<Longrightarrow> c < n" for c using I(1,2) by auto
  show "queue_ok ?h n L q" using I(6) by (auto simp: queue_ok_def)
  show "pending_ok ?h n L None" by (simp add: pending_ok_def)
  fix c
  assume c: "c < n"
  note J = I(3-5) [OF c]
  have "result_ok ?h n L c"
    by (intro result_ok_mono [OF J(2)]) (auto simp: waits_def)
  moreover have "place_ok ?h n L q None c"
    using J(3) by (auto simp: place_defs split: body.splits awaitable.splits if_splits)
  ultimately show "mPostLeave (?h c) = None \<and> result_ok ?h n L c \<and> place_ok ?h n L q None c"
    using J(1) by auto
qed

lemma go_on_coros:
  assumes "coros_ok h n (e # L) q None"
  shows "coros_ok (h(e := h e\<lparr>code := b, inAwait := False\<rparr>)) n (e # L) q None"
    (is "coros_ok ?h n ?L q None")
proof (rule coros_okI)
  note I = coros_okD [OF assms]
  show "distinct ?L" "c \<in> set ?L \<Longrightarrow> c < n" for c using I(1,2) by auto
  show "queue_ok ?h n ?L q" using I(6) by (auto simp: queue_ok_def)
  show "pending_ok ?h n ?L None" by (simp add: pending_ok_def)
  fix c
  assume c: "c < n"
  note J = I(3-5) [OF c]
  have "result_ok ?h n ?L c"
    by (intro result_ok_mono [OF J(2)]) (auto simp: waits_def)
  moreover have "place_ok ?h n ?L q None c"
    using J(3) by (auto simp: place_defs split: body.splits awaitable.splits if_splits)
  ultimately show "mPostLeave (?h c) = None \<and> result_ok ?h n ?L c \<and> place_ok ?h n ?L q None c"
    using J(1) by auto
qed

section \<open>Suspending\<close>

lemma post_coros:
  assumes "coros_ok h n (e # L) q None" "code (h e) = Await AwIoContext k"
  shows "coros_ok (h(e := h e\<lparr>mCaller := DataPtr e, inAwait := True\<rparr>)) n L (q @ [e]) None"
    (is "coros_ok ?h n L ?q None")
proof (rule coros_okI)
  note I = coros_okD [OF assms(1)]
  have e: "e < n" "e \<notin> set L" "e \<notin> set q" "mPull (h e)"
    using I(1,2,6) active_pull [OF assms(1)] by (auto simp: queue_ok_def)
  show "distinct L" "c \<in> set L \<Longrightarrow> c < n" for c using I(1,2) by auto
  show "queue_ok ?h n L ?q" using I(6) e assms(2) by (auto simp: queue_ok_def)
  show "pending_ok ?h n L None" by (simp add: pending_ok_def)
  fix c
  assume c: "c < n"
  note J = I(3-5) [OF c]
  have "result_ok ?h n L c"
    by (intro result_ok_mono [OF J(2)]) (auto simp: waits_def)
  moreover have "place_ok ?h n L ?q None c"
    using J(3) e assms(2) by (auto simp: place_defs split: body.splits awaitable.splits if_splits)
  ultimately show "mPostLeave (?h c) = None \<and> result_ok ?h n L c \<and> place_ok ?h n L ?q None c"
    using J(1) by auto
qed

text \<open>Awaiting a routine that has not ended and is not awaited; it may be the coroutine itself.\<close>

lemma wait_coros:
  assumes "coros_ok h n (e # L) q None" "code (h e) = Await (AwRoutine d) k" "d < n"
    "constructed (h d)" "mResult (h d) = LightFutureData" "mPull (h d)"
    "\<And>x. h' x = (if x = e \<and> x = d
                  then h x\<lparr>mCaller := NullData, inAwait := True,
                         mResult := \<lparr>continuationPtr = Handle e, val = Unset\<rparr>,
                         mContinuation := DataPtr e\<rparr>
                  else if x = e then h x\<lparr>mCaller := NullData, inAwait := True\<rparr>
                  else if x = d then h x\<lparr>mResult := \<lparr>continuationPtr = Handle e, val = Unset\<rparr>,
                                        mContinuation := DataPtr e\<rparr>
                  else h x)"
  shows "coros_ok h' n L q None"
proof (rule coros_okI)
  note I = coros_okD [OF assms(1)]
  have e: "e < n" "e \<notin> set L" "e \<notin> set q" "mPull (h e)"
    using I(1,2,6) active_pull [OF assms(1)] by (auto simp: queue_ok_def)
  show "distinct L" "c \<in> set L \<Longrightarrow> c < n" for c using I(1,2) by auto
  show "queue_ok h' n L q" using I(6) e by (auto simp: queue_ok_def assms(7))
  show "pending_ok h' n L None" by (simp add: pending_ok_def)
  fix c
  assume c: "c < n"
  note J = I(3-5) [OF c]
  have "result_ok h' n L c"
  proof (cases "c = d")
    case True
    have "waits h' e d" using e assms(2) by (auto simp: waits_def assms(7))
    with True e show ?thesis using assms(3-6)
      by (auto simp: result_ok_def assms(7) intro!: exI [of _ e])
  next
    case False
    then show ?thesis by (intro result_ok_mono [OF J(2)]) (auto simp: waits_def assms(7))
  qed
  moreover have "place_ok h' n L q None c"
  proof (cases "c = e")
    case True
    with e assms(2-6) show ?thesis by (auto simp: place_defs assms(7))
  next
    case False
    with J(3) assms(5) show ?thesis
      by (auto simp: place_defs assms(7) LightFutureData_def
          split: body.splits awaitable.splits if_splits)
  qed
  ultimately show "mPostLeave (h' c) = None \<and> result_ok h' n L c \<and> place_ok h' n L q None c"
    using J(1) by (auto simp: assms(7))
qed

section \<open>Ending\<close>

text \<open>
  The end of a routine that nobody awaits, and of one that is awaited. The first is the only
  case for a routine still in its constructor.
\<close>

lemma end_coros:
  assumes "coros_ok h n (e # L) q None" "mResult (h e) = LightFutureData"
    "mPostLeave d = None" "\<not> mPull d"
    "mResult d = \<lparr>continuationPtr = InvalidHandle, val = setByResult Unset r\<rparr>"
    "constructed d = constructed (h e)"
  shows "coros_ok (h(e := d)) n L q None" (is "coros_ok ?h n L q None")
proof (rule coros_okI)
  note I = coros_okD [OF assms(1)]
  have e: "e < n" "e \<notin> set L" "e \<notin> set q" "mPull (h e)"
    using I(1,2,6) active_pull [OF assms(1)] by (auto simp: queue_ok_def)
  show "distinct L" "c \<in> set L \<Longrightarrow> c < n" for c using I(1,2) by auto
  show "queue_ok ?h n L q" using I(6) e by (auto simp: queue_ok_def)
  show "pending_ok ?h n L None" by (simp add: pending_ok_def)
  fix c
  assume c: "c < n"
  note J = I(3-5) [OF c]
  show "mPostLeave (?h c) = None \<and> result_ok ?h n L c \<and> place_ok ?h n L q None c"
  proof (cases "c = e")
    case True
    then show ?thesis using assms(3-5) e(2) by (auto simp: result_ok_def place_ok_def)
  next
    case False
    then have "result_ok ?h n L c"
      by (intro result_ok_mono [OF J(2)]) (auto simp: waits_def)
    moreover have "place_ok ?h n L q None c"
      using J(3) False e(4) assms(2,4,6)
      by (auto simp: place_defs LightFutureData_def split: body.splits awaitable.splits if_splits)
    ultimately show ?thesis using J(1) False by simp
  qed
qed

lemma end_awaited_coros:
  assumes "coros_ok h n [e] q None" "w < n" "w \<noteq> e" "waits h w e" "constructed (h e)"
    "mResult (h e) = \<lparr>continuationPtr = Handle w, val = Unset\<rparr>"
    "mPostLeave d = None" "\<not> mPull d"
    "mResult d = \<lparr>continuationPtr = InvalidHandle, val = setByResult Unset r\<rparr>"
    "constructed d = constructed (h e)"
  shows "coros_ok (h(e := d, w := h w\<lparr>mCaller := InvalidData\<rparr>)) n [] q (Some w)"
    (is "coros_ok ?h n [] q (Some w)")
proof (rule coros_okI)
  note I = coros_okD [OF assms(1)]
  have e: "e < n" "e \<notin> set q" "mPull (h e)"
    using I(2,6) active_pull [OF assms(1)] by (auto simp: queue_ok_def)
  from assms(4) obtain k where w: "mPull (h w)" "inAwait (h w)" "code (h w) = Await (AwRoutine e) k"
    by (auto simp: waits_def)
  show "distinct []" "c \<in> set [] \<Longrightarrow> c < n" for c by auto
  show "queue_ok ?h n [] q" using I(6) e w by (auto simp: queue_ok_def)
  show "pending_ok ?h n [] (Some w)"
    using w e assms(2,3,5,8,10) by (auto simp: pending_ok_def)
  fix c
  assume c: "c < n"
  note J = I(3-5) [OF c]
  show "mPostLeave (?h c) = None \<and> result_ok ?h n [] c \<and> place_ok ?h n [] q (Some w) c"
  proof (cases "c = e")
    case True
    then show ?thesis using assms(3,7-9) by (auto simp: result_ok_def place_ok_def)
  next
    case False
    then have "result_ok ?h n [] c"
      using w by (intro result_ok_mono [OF J(2)]) (auto simp: waits_def)
    moreover have "place_ok ?h n [] q (Some w) c"
      using J(3) False e w assms(3,5,6,8,10)
      by (auto simp: place_defs split: body.splits awaitable.splits if_splits)
    ultimately show ?thesis using J(1) False by auto
  qed
qed

section \<open>The steps of a running coroutine\<close>

text \<open>
  \<open>top\<close> is the frame of a running coroutine; \<open>after\<close> is what the frame becomes when the
  coroutine is left, \<open>r\<close> being the routine \<^verbatim>\<open>resume()\<close> returns.
\<close>

fun top_of :: "frame \<Rightarrow> nat \<Rightarrow> bool" where
  "top_of (Ctor e) c = (e = c)"
| "top_of (Loop e) c = (e = c)"
| "top_of f c = False"

fun after :: "frame \<Rightarrow> nat data_ptr \<Rightarrow> frame" where
  "after (Loop c) r = Returning r"
| "after (Ctor c) r = CtorReturns c"
| "after f r = f"

lemma data_idle:
  assumes "mPostLeave d = None"
  shows "d\<lparr>mPostLeave := None\<rparr> = d"
  using assms by (cases d) simp

lemma inAwait_idle:
  assumes "\<not> inAwait d"
  shows "d\<lparr>inAwait := False\<rparr> = d"
  using assms by (cases d) simp

lemmas switch_defs = run_code_def leave_def upd_def left_to_def resume_rest_def runPostLeave_def
  rt_await_suspend_def set_frame_def

lemma run_code_post:
  assumes "top_of f c" "code (heap s c) = Await AwIoContext k" "\<not> inAwait (heap s c)"
    "mPostLeave (heap s c) = None" "current s = Some c" "mPull (heap s c)"
    "mOuter (heap s c) \<noteq> Some c"
  shows "run_code c f s = Next (s\<lparr>
      heap := (heap s)(c := heap s c\<lparr>mCaller := DataPtr c, inAwait := True\<rparr>),
      current := mOuter (heap s c), frames := after f NullData # tl (frames s), ioc := ioc s @ [c]\<rparr>)"
  using assms
  by (cases f) (auto simp: switch_defs awaitable_ok_def rt_await_ready_def data_idle fun_upd_def
      intro!: rt.equality)

definition waiting_heap :: "nat \<Rightarrow> nat \<Rightarrow> (nat \<Rightarrow> data) \<Rightarrow> nat \<Rightarrow> data" where
  "waiting_heap e d h x =
     (if x = e \<and> x = d
      then h x\<lparr>mCaller := NullData, inAwait := True,
             mResult := \<lparr>continuationPtr = Handle e, val = Unset\<rparr>, mContinuation := DataPtr e\<rparr>
      else if x = e then h x\<lparr>mCaller := NullData, inAwait := True\<rparr>
      else if x = d then h x\<lparr>mResult := \<lparr>continuationPtr = Handle e, val = Unset\<rparr>,
                            mContinuation := DataPtr e\<rparr>
      else h x)"

lemma waiting_heap_simps [simp]:
  "mPull (waiting_heap e d h x) = mPull (h x)"
  "mResult (waiting_heap e d h x) =
    (if x = d then \<lparr>continuationPtr = Handle e, val = Unset\<rparr> else mResult (h x))"
  by (simp_all add: waiting_heap_def)

lemma run_code_wait:
  assumes "top_of f c" "code (heap s c) = Await (AwRoutine d) k" "\<not> inAwait (heap s c)"
    "mPostLeave (heap s c) = None" "current s = Some c" "mPull (heap s c)"
    "d < fresh s" "constructed (heap s d)" "mResult (heap s d) = LightFutureData"
    "mContinuation (heap s d) = NullData"
    "mOuter (heap s c) \<noteq> Some c"
  shows "run_code c f s = Next (s\<lparr>
      heap := waiting_heap c d (heap s),
      current := mOuter (heap s c), frames := after f NullData # tl (frames s)\<rparr>)"
  using assms
  by (cases f; cases "c = d")
    (auto simp: switch_defs awaitable_ok_def rt_await_ready_def data_idle future_defs Let_def
      waiting_heap_def fun_eq_iff intro!: rt.equality)

lemma run_code_busy:
  assumes "top_of f c" "code (heap s c) = Await (AwRoutine d) k" "\<not> inAwait (heap s c)"
    "mPostLeave (heap s c) = None" "current s = Some c" "mPull (heap s c)"
    "d < fresh s" "constructed (heap s d)"
    "mResult (heap s d) = \<lparr>continuationPtr = Handle w, val = Unset\<rparr>"
  shows "run_code c f s = Fault (AssertFailed ''suspend'')"
  using assms
  by (cases f; cases "c = d")
    (auto simp: switch_defs awaitable_ok_def rt_await_ready_def future_defs Let_def)

lemma run_code_go_on:
  assumes "top_of f c" "code (heap s c) = Await a k" "awaitable_ok a s"
    "a = AwIoContext \<and> inAwait (heap s c) \<or>
     (\<exists>d r. a = AwRoutine d \<and>
        mResult (heap s d) = \<lparr>continuationPtr = InvalidHandle, val = setByResult Unset r\<rparr>)"
  shows "\<exists>b. run_code c f s = Next (s\<lparr>heap := (heap s)(c := heap s c\<lparr>code := b, inAwait := False\<rparr>)\<rparr>)"
proof -
  have "\<exists>r. rt_await_resume a s = Inr r" "inAwait (heap s c) \<or> rt_await_ready a s"
    using assms(4) by (auto simp: rt_await_resume_def rt_await_ready_def future_defs)
  then obtain r where "rt_await_resume a s = Inr r" "inAwait (heap s c) \<or> rt_await_ready a s" by blast
  with assms(2,3) show ?thesis by (auto simp: run_code_def go_on_def upd_def)
qed

lemma run_code_spawn:
  "code (heap s c) = Spawn b k \<Longrightarrow> c \<noteq> fresh s \<Longrightarrow> current s = Some c \<Longrightarrow> run_code c f s = Next (s\<lparr>
      heap := (heap s)(c := heap s c\<lparr>code := k (fresh s)\<rparr>, fresh s := newData b\<lparr>mOuter := Some c\<rparr>),
      fresh := fresh s + 1, current := Some (fresh s), frames := Ctor (fresh s) # frames s\<rparr>)"
  by (simp add: run_code_def construct_def enter_def upd_def)

definition ended :: "exception + unit \<Rightarrow> data \<Rightarrow> data" where
  "ended r d = d\<lparr>mSetValue := setByResult (mSetValue d) r, mPull := False,
     mResult := \<lparr>continuationPtr = InvalidHandle, val = setByResult Unset r\<rparr>,
     mContinuation := InvalidData\<rparr>"

lemma run_code_end:
  assumes "top_of f c" "code (heap s c) = Finish r" "mPostLeave (heap s c) = None"
    "current s = Some c" "mResult (heap s c) = LightFutureData" "mContinuation (heap s c) = NullData"
    "mOuter (heap s c) \<noteq> Some c"
  shows "run_code c f s = Next (s\<lparr>heap := (heap s)(c := ended r (heap s c)),
      current := mOuter (heap s c), frames := after f NullData # tl (frames s)\<rparr>)"
  using assms
  by (cases f; cases r)
    (auto simp: switch_defs data_idle future_defs Let_def ended_def result_setter_def
      fun_eq_iff intro!: rt.equality)

lemma run_code_end_awaited:
  assumes "code (heap s c) = Finish r" "mPostLeave (heap s c) = None"
    "current s = Some c" "mOuter (heap s c) = None" "w \<noteq> c" "mCaller (heap s w) = NullData"
    "mResult (heap s c) = \<lparr>continuationPtr = Handle w, val = Unset\<rparr>"
    "mContinuation (heap s c) = DataPtr w"
  shows "run_code c (Loop c) s = Next (s\<lparr>
      heap := (heap s)(c := ended r (heap s c), w := heap s w\<lparr>mCaller := InvalidData\<rparr>),
      current := None, frames := Returning (DataPtr w) # tl (frames s)\<rparr>)"
  using assms
  by (cases r)
    (auto simp: switch_defs data_idle future_defs Let_def ended_def result_setter_def runner_call_def
      fun_eq_iff intro!: rt.equality)

section \<open>Every step keeps the invariant\<close>

text \<open>
  The program errors this library cannot prevent: awaiting a routine that does not exist, and
  awaiting a routine another coroutine awaits already.
\<close>

definition user_error :: "rt \<Rightarrow> fault \<Rightarrow> bool" where
  "user_error s e \<longleftrightarrow>
     (\<exists>c d k. current s = Some c \<and> code (heap s c) = Await (AwRoutine d) k \<and> \<not> inAwait (heap s c) \<and>
        (e = UseAfterFree \<and> \<not> (d < fresh s \<and> constructed (heap s d)) \<or>
         e = AssertFailed ''suspend'' \<and> (\<exists>w. waits (heap s) w d)))"

text \<open>
  What a step may do to the routines there are: none is removed, a result that is there stays,
  and the running coroutine may end with the result its code says.
\<close>

fun top_coroutine :: "frame list \<Rightarrow> nat option" where
  "top_coroutine (Ctor c # fs) = Some c"
| "top_coroutine (CtorLoop c # fs) = Some c"
| "top_coroutine (Loop c # fs) = Some c"
| "top_coroutine fs = None"

definition ended_with :: "rt \<Rightarrow> nat \<Rightarrow> exception + unit \<Rightarrow> bool" where
  "ended_with s d r \<longleftrightarrow> d < fresh s \<and> \<not> mPull (heap s d) \<and>
     mResult (heap s d) = \<lparr>continuationPtr = InvalidHandle, val = setByResult Unset r\<rparr>"

definition rt_next :: "rt \<Rightarrow> rt \<Rightarrow> bool" where
  "rt_next s t \<longleftrightarrow> rt_inv t \<and> fresh s \<le> fresh t \<and>
     (\<forall>d r. ended_with s d r \<longrightarrow> ended_with t d r) \<and>
     (\<forall>d < fresh t. mPull (heap t d) \<or> d < fresh s \<and> \<not> mPull (heap s d) \<or>
        (\<exists>r. top_coroutine (frames s) = Some d \<and> code (heap s d) = Finish r)) \<and>
     (\<forall>d r. top_coroutine (frames s) = Some d \<and> code (heap s d) = Finish r \<longrightarrow> ended_with t d r)"

fun goes :: "(fault \<Rightarrow> bool) \<Rightarrow> ('s \<Rightarrow> bool) \<Rightarrow> 's outcome \<Rightarrow> bool" where
  "goes U P Blocked = False"
| "goes U P (Fault e) = U e"
| "goes U P (Next t) = P t"

lemma stack_after:
  assumes "chain_ok h (Some c) (f # fs)" "top_of f c" "c \<notin> set (active fs)" "r \<noteq> InvalidData"
    "\<And>x. mOuter (h' x) = mOuter (h x) \<and> constructed (h' x) = constructed (h x)"
  shows "stack_ok h' (mOuter (h c)) (after f r # fs)"
proof -
  have "chain_ok h' cur fs = chain_ok h cur fs" for cur by (rule chain_ok_cong) (simp add: assms(5))
  with assms show ?thesis by (cases f) auto
qed

lemma after_simps [simp]:
  "top_of f c \<Longrightarrow> active (after f r # fs) = active fs"
  "top_of f c \<Longrightarrow> pending (after f NullData # fs) = None"
  "top_of f c \<Longrightarrow> active (f # fs) = c # active fs"
  "top_of f c \<Longrightarrow> pending (f # fs) = None"
  "top_of f c \<Longrightarrow> top_coroutine (f # fs) = Some c"
  "top_of f c \<Longrightarrow> stack_ok h cur (f # fs) = chain_ok h cur (f # fs)"
  by (cases f; auto)+

lemma running_facts:
  assumes "rt_inv s" "frames s = f # fs" "top_of f c"
  shows "current s = Some c" "chain_ok (heap s) (Some c) (f # fs)"
    "coros_ok (heap s) (fresh s) (c # active fs) (ioc s) None"
    "c < fresh s" "mPull (heap s c)" "mPostLeave (heap s c) = None"
    "f = Ctor c \<Longrightarrow> \<not> constructed (heap s c)" "f = Loop c \<Longrightarrow> mOuter (heap s c) = None \<and> fs = []"
    "c \<notin> set (active fs)" "mOuter (heap s c) \<noteq> Some c"
proof -
  show k: "coros_ok (heap s) (fresh s) (c # active fs) (ioc s) None"
    using assms by (simp add: rt_inv_def)
  show na: "c \<notin> set (active fs)" using coros_okD(1) [OF k] by simp
  show "c < fresh s" using coros_okD(2) [OF k, of c] by simp
  then show "mPostLeave (heap s c) = None" using coros_okD(3) [OF k] by simp
  show "mPull (heap s c)" using active_pull [OF k, of c] by simp
  have "chain_ok (heap s) (current s) (f # fs)" using assms by (simp add: rt_inv_def)
  with assms(3) show "current s = Some c" "chain_ok (heap s) (Some c) (f # fs)"
    "f = Ctor c \<Longrightarrow> \<not> constructed (heap s c)" "f = Loop c \<Longrightarrow> mOuter (heap s c) = None \<and> fs = []"
    "mOuter (heap s c) \<noteq> Some c"
    using na chain_current by (cases f; auto)+
qed

text \<open>A step of \<^verbatim>\<open>co::await\<close>: what is awaited is ready, the event loop, or a running routine.\<close>

lemma await_on_inv:
  assumes inv: "rt_inv s" and fr: "frames s = f # fs" and top: "top_of f c"
    and code: "code (heap s c) = Await a k"
    and ok: "awaitable_ok a s" "a = AwIoContext \<and> inAwait (heap s c) \<or>
      (\<exists>d r. a = AwRoutine d \<and>
        mResult (heap s d) = \<lparr>continuationPtr = InvalidHandle, val = setByResult Unset r\<rparr>)"
  shows "goes (user_error s) (rt_next s) (run_code c f s)"
proof -
  note R = running_facts [OF inv fr top]
  obtain b where b: "run_code c f s =
      Next (s\<lparr>heap := (heap s)(c := heap s c\<lparr>code := b, inAwait := False\<rparr>)\<rparr>)"
    using run_code_go_on [OF top code ok] by blast
  have "chain_ok ((heap s)(c := heap s c\<lparr>code := b, inAwait := False\<rparr>)) (Some c) (f # fs)"
    using R(2) chain_ok_cong [of "f # fs" "(heap s)(c := heap s c\<lparr>code := b, inAwait := False\<rparr>)" "heap s"]
    by simp
  with go_on_coros [OF R(3)] top fr R(1) code show ?thesis
    by (auto simp add: b rt_inv_def rt_next_def ended_with_def)
qed

lemma await_post_inv:
  assumes inv: "rt_inv s" and fr: "frames s = f # fs" and top: "top_of f c"
    and code: "code (heap s c) = Await AwIoContext k" and na: "\<not> inAwait (heap s c)"
  shows "goes (user_error s) (rt_next s) (run_code c f s)"
proof -
  note R = running_facts [OF inv fr top]
  let ?h = "(heap s)(c := heap s c\<lparr>mCaller := DataPtr c, inAwait := True\<rparr>)"
  have "stack_ok ?h (mOuter (heap s c)) (after f NullData # fs)"
    by (rule stack_after [OF R(2) top R(9)]) simp_all
  with run_code_post [OF top code na R(6,1,5,10)] post_coros [OF R(3) code] top fr code
  show ?thesis by (auto simp add: rt_inv_def rt_next_def ended_with_def)
qed

lemma await_wait_inv:
  assumes inv: "rt_inv s" and fr: "frames s = f # fs" and top: "top_of f c"
    and code: "code (heap s c) = Await (AwRoutine d) k"
    and d: "d < fresh s" "constructed (heap s d)" "mPull (heap s d)"
  shows "goes (user_error s) (rt_next s) (run_code c f s)"
proof -
  note R = running_facts [OF inv fr top]
  note I = coros_okD [OF R(3)]
  have pl: "place_ok (heap s) (fresh s) (c # active fs) (ioc s) None c" by (rule I(5) [OF R(4)])
  have rd: "result_ok (heap s) (fresh s) (c # active fs) d" using I(4) d(1,2) by blast
  have na: "\<not> inAwait (heap s c)" using pl code R(5) d(3) by (auto simp: place_defs)
  show ?thesis
  proof (cases "mResult (heap s d) = LightFutureData")
    case light: True
    with rd d(3) have "mContinuation (heap s d) = NullData"
      by (auto simp: result_ok_def LightFutureData_def)
    note W = run_code_wait [OF top code na R(6,1,5) _ _ light this R(10)]
    have "stack_ok (waiting_heap c d (heap s)) (mOuter (heap s c)) (after f NullData # fs)"
      by (rule stack_after [OF R(2) top R(9)]) (simp_all add: waiting_heap_def)
    moreover have "coros_ok (waiting_heap c d (heap s)) (fresh s) (active fs) (ioc s) None"
      using d light by (intro wait_coros [OF R(3) code]) (simp_all add: waiting_heap_def)
    ultimately show ?thesis using W d top fr code by (auto simp add: rt_inv_def rt_next_def ended_with_def)
  next
    case False
    with rd d(3) obtain w where w: "waits (heap s) w d"
      "mResult (heap s d) = \<lparr>continuationPtr = Handle w, val = Unset\<rparr>"
      by (auto simp: result_ok_def)
    with run_code_busy [OF top code na R(6,1,5) _ _ w(2)] d R(1) na code
    show ?thesis by (auto simp: user_error_def)
  qed
qed

lemma await_inv:
  assumes inv: "rt_inv s" and fr: "frames s = f # fs" and top: "top_of f c"
    and code: "code (heap s c) = Await a k"
  shows "goes (user_error s) (rt_next s) (run_code c f s)"
proof -
  note R = running_facts [OF inv fr top]
  note I = coros_okD [OF R(3)]
  note on = await_on_inv [OF assms]
  have pl: "place_ok (heap s) (fresh s) (c # active fs) (ioc s) None c" by (rule I(5) [OF R(4)])
  show ?thesis
  proof (cases a)
    case AwIoContext
    show ?thesis
    proof (cases "inAwait (heap s c)")
      case True
      with AwIoContext show ?thesis by (intro on) (simp_all add: awaitable_ok_def)
    next
      case False
      then show ?thesis by (rule await_post_inv [OF inv fr top code [unfolded AwIoContext]])
    qed
  next
    case (AwRoutine d)
    show ?thesis
    proof (cases "d < fresh s \<and> constructed (heap s d)")
      case False
      with pl code AwRoutine R(5) have "\<not> inAwait (heap s c)" by (auto simp: place_defs)
      with False code AwRoutine R(1) show ?thesis
        by (auto simp: run_code_def awaitable_ok_def user_error_def)
    next
      case d: True
      then have rd: "result_ok (heap s) (fresh s) (c # active fs) d" using I(4) by blast
      show ?thesis
      proof (cases "mPull (heap s d)")
        case False
        with rd obtain r where
          "mResult (heap s d) = \<lparr>continuationPtr = InvalidHandle, val = setByResult Unset r\<rparr>"
          by (auto simp: result_ok_def)
        with AwRoutine d show ?thesis by (intro on) (auto simp: awaitable_ok_def)
      next
        case True
        with d await_wait_inv [OF inv fr top code [unfolded AwRoutine]] show ?thesis by blast
      qed
    qed
  qed
qed

lemma spawn_inv:
  assumes inv: "rt_inv s" and fr: "frames s = f # fs" and top: "top_of f c"
    and code: "code (heap s c) = Spawn b k"
  shows "goes (user_error s) (rt_next s) (run_code c f s)"
proof -
  note R = running_facts [OF inv fr top]
  let ?n = "fresh s"
  let ?h = "(heap s)(c := heap s c\<lparr>code := k ?n\<rparr>)"
  let ?g = "?h(?n := newData b\<lparr>mOuter := Some c\<rparr>)"
  have na: "\<not> inAwait (heap s c)"
    using coros_okD(5) [OF R(3,4)] code R(5) by (auto simp: place_defs)
  then have "heap s c\<lparr>code := k ?n, inAwait := False\<rparr> = heap s c\<lparr>code := k ?n\<rparr>"
    by (cases "heap s c") simp
  with go_on_coros [OF R(3), of "k ?n"] have "coros_ok ?h ?n (c # active fs) (ioc s) None" by simp
  then have "coros_ok ?g (Suc ?n) (?n # c # active fs) (ioc s) None" by (rule construct_coros)
  moreover have "chain_ok ?g (Some c) (f # fs)"
  proof -
    have "chain_ok ?g (Some c) (f # fs) = chain_ok (heap s) (Some c) (f # fs)"
    proof (rule chain_ok_cong)
      fix x
      assume "x \<in> set (active (f # fs))"
      then have "x < ?n" using coros_okD(2) [OF R(3), of x] top by simp
      then show "mOuter (?g x) = mOuter (heap s x) \<and> constructed (?g x) = constructed (heap s x)"
        by simp
    qed
    with R(2) show ?thesis by simp
  qed
  ultimately show ?thesis
    using run_code_spawn [OF code _ R(1), of f] R(4) fr top code
    by (auto simp add: rt_inv_def rt_next_def ended_with_def newData_def)
qed

lemma finish_inv:
  assumes inv: "rt_inv s" and fr: "frames s = f # fs" and top: "top_of f c"
    and code: "code (heap s c) = Finish r"
  shows "goes (user_error s) (rt_next s) (run_code c f s)"
proof -
  note R = running_facts [OF inv fr top]
  have rc: "result_ok (heap s) (fresh s) (c # active fs) c" by (rule coros_okD(4) [OF R(3,4)])
  have e: "mPostLeave (ended r (heap s c)) = None" "\<not> mPull (ended r (heap s c))"
    "mResult (ended r (heap s c)) = \<lparr>continuationPtr = InvalidHandle, val = setByResult Unset r\<rparr>"
    "constructed (ended r (heap s c)) = constructed (heap s c)"
    "mOuter (ended r (heap s c)) = mOuter (heap s c)"
    using R(6) by (simp_all add: ended_def)
  show ?thesis
  proof (cases "mResult (heap s c) = LightFutureData")
    case True
    with rc R(5) have "mContinuation (heap s c) = NullData"
      by (auto simp: result_ok_def LightFutureData_def)
    note E = run_code_end [OF top code R(6,1) True this R(10)]
    have "stack_ok ((heap s)(c := ended r (heap s c))) (mOuter (heap s c)) (after f NullData # fs)"
      by (rule stack_after [OF R(2) top R(9)]) (simp_all add: e)
    with E end_coros [OF R(3) True e(1-4)] top fr R(1,4,5) code e(2,3) show ?thesis by (auto simp add: rt_inv_def rt_next_def ended_with_def)
  next
    case False
    with rc R(5) obtain w where w: "w < fresh s" "w \<notin> set (c # active fs)" "waits (heap s) w c"
      "constructed (heap s c)" "mResult (heap s c) = \<lparr>continuationPtr = Handle w, val = Unset\<rparr>"
      "mContinuation (heap s c) = DataPtr w"
      by (auto simp: result_ok_def)
    then have "f = Loop c" using top R(7) by (cases f) auto
    with R(8) have f: "f = Loop c" "mOuter (heap s c) = None" "fs = []" by blast+
    have wc: "w \<noteq> c" "mCaller (heap s w) = NullData" using w(2,3) by (auto simp: waits_def)
    have k: "coros_ok (heap s) (fresh s) [c] (ioc s) None" using R(3) f(3) by simp
    note E = run_code_end_awaited [OF code R(6,1) f(2) wc w(5,6)]
    from end_awaited_coros [OF k w(1) wc(1) w(3-5) e(1-4)] E fr f R(1,4,5) code e(2,3) wc(1) show ?thesis
      by (auto simp add: rt_inv_def rt_next_def ended_with_def)
  qed
qed

lemma run_code_inv:
  assumes "rt_inv s" "frames s = f # fs" "top_of f c"
  shows "goes (user_error s) (rt_next s) (run_code c f s)"
  using assms by (cases "code (heap s c)") (simp_all add: await_inv spawn_inv finish_inv)

lemma continue_inv:
  assumes inv: "rt_inv s" and fr: "frames s = f # fs"
  shows "goes (user_error s) (rt_next s) (continue_step s)"
proof (cases f)
  case (Ctor c)
  with run_code_inv [OF inv fr, of c] fr show ?thesis by simp
next
  case (Loop c)
  with run_code_inv [OF inv fr, of c] fr show ?thesis by simp
next
  case (CtorLoop c)
  with inv fr show ?thesis by (simp add: rt_inv_def)
next
  case (CtorReturns c)
  let ?h = "(heap s)(c := heap s c\<lparr>constructed := True\<rparr>)"
  from inv fr CtorReturns have k: "c \<notin> set (active fs)" "chain_ok (heap s) (current s) fs"
    "coros_ok (heap s) (fresh s) (active fs) (ioc s) None"
    by (simp_all add: rt_inv_def)
  have "chain_ok ?h (current s) fs"
    using k(1,2) chain_ok_cong [of fs ?h "heap s"] by (metis fun_upd_other)
  then have "stack_ok ?h (current s) fs" "pending fs = None" by (cases fs rule: active.cases; simp)+
  with constructed_coros [OF k(3), of c] fr CtorReturns show ?thesis
    by (auto simp: rt_inv_def rt_next_def ended_with_def upd_def)
next
  case (Returning res)
  with inv fr have k: "res \<noteq> InvalidData" "current s = None" "fs = []"
    by (simp_all add: rt_inv_def)
  show ?thesis
  proof (cases res)
    case (DataPtr e)
    with inv fr Returning k have c: "coros_ok (heap s) (fresh s) [] (ioc s) (Some e)"
      by (simp add: rt_inv_def)
    then have "mPull (heap s e)" using coros_okD(7) by (fastforce simp: pending_ok_def)
    with resume_coros [OF c, of None] k fr Returning DataPtr show ?thesis
      by (auto simp: return_step_def reenter_def enter_def upd_def set_frame_def rt_inv_def rt_next_def
          ended_with_def)
  qed (use inv fr Returning k in \<open>auto simp: return_step_def rt_inv_def rt_next_def ended_with_def\<close>)
qed

lemma start_inv:
  assumes "rt_inv s" "frames s = []"
  shows "rt_next s (construct b s)"
proof -
  from assms have k: "current s = None" "coros_ok (heap s) (fresh s) [] (ioc s) None"
    by (simp_all add: rt_inv_def)
  from construct_coros [OF k(2), where b = b and cur = None] k(1) assms(2) show ?thesis
    by (auto simp: construct_def enter_def upd_def rt_inv_def rt_next_def ended_with_def newData_def)
qed

lemma posted_inv:
  assumes "rt_inv s" "frames s = []" "ioc s = e # q"
  shows "goes (user_error s) (rt_next s) (runner_call e (s\<lparr>ioc := q\<rparr>))"
proof -
  from assms have k: "current s = None" "coros_ok (heap s) (fresh s) [] (e # q) None"
    by (simp_all add: rt_inv_def)
  then have "mPull (heap s e)" "mCaller (heap s e) = DataPtr e"
    using coros_okD(6) by (fastforce simp: queue_ok_def)+
  with posted_coros [OF k(2), of None] k(1) assms(2) show ?thesis
    by (auto simp: runner_call_def reenter_def enter_def upd_def rt_inv_def rt_next_def ended_with_def
        Let_def)
qed

lemma goes_ensures: "goes U P x \<Longrightarrow> ensures P x"
  by (cases x) simp_all

lemma rt_step_next: "rt_inv s \<Longrightarrow> ensures (rt_next s) (rt_step e s)"
proof (cases e)
  case (Start b)
  then show "rt_inv s \<Longrightarrow> ?thesis" by (simp add: start_inv)
next
  case RunPosted
  then show "rt_inv s \<Longrightarrow> ?thesis"
    using posted_inv [THEN goes_ensures] by (simp split: list.split)
next
  case Continue
  then show "rt_inv s \<Longrightarrow> ?thesis"
    using continue_inv [THEN goes_ensures, of s] by (cases "frames s") simp_all
qed

lemma rt_step_fault:
  assumes "rt_inv s" "rt_step e s = Fault x"
  shows "user_error s x"
proof (cases e)
  case RunPosted
  with assms posted_inv [OF assms(1)] show ?thesis
    by (cases "ioc s") (fastforce split: if_splits)+
next
  case Continue
  with assms continue_inv [OF assms(1)] show ?thesis by (cases "frames s") fastforce+
qed (use assms(2) in \<open>simp split: if_splits\<close>)

lemma rt_step_inv: "rt_inv s \<Longrightarrow> ensures rt_inv (rt_step e s)"
  using rt_step_next [of s e] by (cases "rt_step e s") (simp_all add: rt_next_def)

interpretation rt: invariant rt_step rt_init rt_inv
  by unfold_locales (simp_all add: rt_inv_init rt_step_inv del: rt_step.simps)

section \<open>Results\<close>

text \<open>
  Observations: a routine's code ends with a result, and a coroutine gets a result from
  awaiting a routine.
\<close>

datatype rt_note = Ended nat "exception + unit" | Got nat nat "exception + unit"

definition code_note :: "nat \<Rightarrow> rt \<Rightarrow> rt_note option" where
  "code_note c s =
     (case code (heap s c) of
        Finish r \<Rightarrow> Some (Ended c r)
      | Await (AwRoutine d) k \<Rightarrow>
          (if awaitable_ok (AwRoutine d) s \<and> (inAwait (heap s c) \<or> rt_await_ready (AwRoutine d) s)
           then (case rt_await_resume (AwRoutine d) s of Inr r \<Rightarrow> Some (Got c d r) | Inl e \<Rightarrow> None)
           else None)
      | _ \<Rightarrow> None)"

definition continue_note :: "rt \<Rightarrow> rt_note option" where
  "continue_note s = Option.bind (top_coroutine (frames s)) (\<lambda>c. code_note c s)"

fun option_list :: "'a option \<Rightarrow> 'a list" where
  "option_list None = []"
| "option_list (Some x) = [x]"

fun rt_obs :: "rt_event \<Rightarrow> rt \<Rightarrow> rt_note list" where
  "rt_obs Continue s = option_list (continue_note s)"
| "rt_obs e s = []"

text \<open>What the log says is what the results of the routines say.\<close>

definition results_log :: "rt \<times> rt_note list \<Rightarrow> bool" where
  "results_log sh \<longleftrightarrow> rt_inv (fst sh) \<and>
     (\<forall>d r. Ended d r \<in> set (snd sh) \<longleftrightarrow> ended_with (fst sh) d r) \<and>
     (\<forall>c d r. Got c d r \<in> set (snd sh) \<longrightarrow> ended_with (fst sh) d r)"

lemma ended_with_unique: "ended_with s d r \<Longrightarrow> ended_with s d r' \<Longrightarrow> r = r'"
  by (cases r; cases r') (auto simp: ended_with_def)

lemma top_current:
  assumes "rt_inv s" "top_coroutine (frames s) = Some c"
  shows "\<exists>f fs. frames s = f # fs \<and> top_of f c"
  using assms by (cases "frames s" rule: top_coroutine.cases) (auto simp: rt_inv_def)

lemma code_note_Got:
  assumes "code_note c s = Some (Got c' d r)"
  shows "c' = c \<and> (\<exists>k. code (heap s c) = Await (AwRoutine d) k) \<and>
    awaitable_ok (AwRoutine d) s \<and> (inAwait (heap s c) \<or> rt_await_ready (AwRoutine d) s) \<and>
    rt_await_resume (AwRoutine d) s = Inr r"
proof (cases "code (heap s c)")
  case (Await a k)
  show ?thesis
  proof (cases a)
    case (AwRoutine e)
    with Await assms show ?thesis
      by (cases "rt_await_resume (AwRoutine e) s") (simp_all add: code_note_def split: if_splits)
  qed (use Await assms in \<open>simp add: code_note_def\<close>)
qed (use assms in \<open>simp_all add: code_note_def\<close>)

lemma code_note_Ended: "code_note c s = Some (Ended d r) \<longleftrightarrow> d = c \<and> code (heap s c) = Finish r"
proof (cases "code (heap s c)")
  case (Await a k)
  show ?thesis
  proof (cases a)
    case (AwRoutine e)
    with Await show ?thesis
      by (cases "rt_await_resume (AwRoutine e) s") (simp_all add: code_note_def)
  qed (use Await in \<open>simp add: code_note_def\<close>)
qed (auto simp: code_note_def)

text \<open>A value got from awaiting a routine is the routine's.\<close>

lemma got_result:
  assumes "rt_inv s" "continue_note s = Some (Got c d r)"
  shows "ended_with s d r"
proof -
  from assms(2) obtain c' where c': "top_coroutine (frames s) = Some c'" "code_note c' s = Some (Got c d r)"
    by (cases "top_coroutine (frames s)") (simp_all add: continue_note_def)
  from code_note_Got [OF c'(2)] c'(1)
  obtain k where k: "top_coroutine (frames s) = Some c" "code (heap s c) = Await (AwRoutine d) k"
    "awaitable_ok (AwRoutine d) s" "inAwait (heap s c) \<or> rt_await_ready (AwRoutine d) s"
    "rt_await_resume (AwRoutine d) s = Inr r"
    by auto
  obtain f fs where f: "frames s = f # fs" "top_of f c" using top_current [OF assms(1) k(1)] by blast
  note R = running_facts [OF assms(1) f]
  have d: "d < fresh s" using k(3) by (simp add: awaitable_ok_def)
  have "place_ok (heap s) (fresh s) (c # active fs) (ioc s) None c" by (rule coros_okD(5) [OF R(3,4)])
  moreover have rd: "result_ok (heap s) (fresh s) (c # active fs) d" by (rule coros_okD(4) [OF R(3) d])
  ultimately have "\<not> mPull (heap s d)"
    using k(2,4) R(5)
    by (auto simp: place_defs result_ok_def rt_await_ready_def future_defs split: if_splits)
  with rd obtain r' where "ended_with s d r'" using d by (auto simp: result_ok_def ended_with_def)
  moreover from this k(5) have "r' = r"
    by (cases r') (auto simp: ended_with_def rt_await_resume_def future_defs)
  ultimately show ?thesis by simp
qed

lemma ended_once:
  assumes inv: "rt_inv s" and st: "rt_step e s = Next t"
  shows "ended_with t d r \<longleftrightarrow> ended_with s d r \<or> Ended d r \<in> set (rt_obs e s)"
proof -
  have n: "rt_next s t" using rt_step_next [OF inv, of e] st by simp
  have old: "d < fresh s \<and> \<not> mPull (heap s d) \<Longrightarrow> \<exists>r'. ended_with s d r'"
  proof -
    assume d: "d < fresh s \<and> \<not> mPull (heap s d)"
    then have "result_ok (heap s) (fresh s) (active (frames s)) d"
      using inv coros_okD(4) by (auto simp: rt_inv_def)
    with d show ?thesis by (auto simp: result_ok_def ended_with_def)
  qed
  have now: "Ended d r \<in> set (rt_obs e s) \<Longrightarrow>
      e = Continue \<and> top_coroutine (frames s) = Some d \<and> code (heap s d) = Finish r"
    by (cases e; cases "continue_note s") (auto simp: continue_note_def code_note_Ended bind_eq_Some_conv)
  show ?thesis
  proof
    assume t: "ended_with t d r"
    then have "d < fresh t" "\<not> mPull (heap t d)" by (simp_all add: ended_with_def)
    with n consider "d < fresh s \<and> \<not> mPull (heap s d)"
      | r' where "top_coroutine (frames s) = Some d" "code (heap s d) = Finish r'"
      unfolding rt_next_def by blast
    then show "ended_with s d r \<or> Ended d r \<in> set (rt_obs e s)"
    proof cases
      case 1
      with old obtain r' where "ended_with s d r'" by blast
      moreover from this n have "ended_with t d r'" by (simp add: rt_next_def)
      ultimately show ?thesis using t ended_with_unique by blast
    next
      case 2
      with n have "ended_with t d r'" by (simp add: rt_next_def)
      with t have "r' = r" using ended_with_unique by blast
      moreover have "e = Continue"
        using 2(1) st by (cases e; cases "frames s") (auto split: list.splits)
      ultimately show ?thesis using 2 by (simp add: continue_note_def code_note_def)
    qed
  next
    assume "ended_with s d r \<or> Ended d r \<in> set (rt_obs e s)"
    with n now show "ended_with t d r" by (auto simp: rt_next_def)
  qed
qed

lemma results_step:
  assumes "results_log sh"
  shows "ensures results_log (logged rt_obs rt_step e sh)"
proof (cases "rt_step e (fst sh)")
  case (Next t)
  have inv: "rt_inv (fst sh)" using assms by (simp add: results_log_def)
  have "rt_inv t" using rt_step_inv [OF inv, of e] Next by simp
  moreover have "ended_with t d r" if "Got c d r \<in> set (rt_obs e (fst sh))" for c d r
    using that got_result [OF inv] ended_once [OF inv Next]
    by (cases e; cases "continue_note (fst sh)") auto
  ultimately show ?thesis
    using assms ended_once [OF inv Next] by (auto simp: logged_def results_log_def Next)
qed (simp_all add: logged_def)

lemma results_log_init: "results_log (rt_init, [])"
  by (simp add: results_log_def rt_inv_init) (simp add: ended_with_def rt_init_def)

interpretation rt_log: invariant "logged rt_obs rt_step" "(rt_init, [])" results_log
  by unfold_locales (simp_all add: results_log_init results_step)

section \<open>Properties\<close>

text \<open>
  A program whose routine 0 creates routine 1 and awaits it; routine 1 goes through the event
  loop and ends with an exception.
\<close>

definition child :: body where
  "child = Await AwIoContext (\<lambda>r. Finish (Inl (UserException 3)))"

definition parent :: body where
  "parent = Spawn child (\<lambda>d. Await (AwRoutine d) (\<lambda>r. Finish r))"

definition parent_run :: "rt_event list" where
  "parent_run = Start parent # replicate 5 Continue @ RunPosted # replicate 6 Continue"

lemmas rt_eval = parent_run_def parent_def child_def rt_init_def newData_def construct_def enter_def
  reenter_def upd_def run_code_def leave_def left_to_def resume_rest_def runPostLeave_def
  rt_await_suspend_def set_frame_def result_setter_def runner_call_def return_step_def go_on_def
  rt_await_ready_def rt_await_resume_def awaitable_ok_def future_defs continue_note_def code_note_def
  Let_def numeral_eq_Suc

text \<open>
  C6. Switching between coroutines is sound. Whatever routines a thread creates, awaits and
  runs, in whatever order the event loop runs them, the assertions of \<^verbatim>\<open>leave\<close>, \<^verbatim>\<open>resume\<close>,
  the executor and the futures hold, no ended coroutine is entered, and a coroutine that is on
  the stack can always go on, unless the program awaits a routine that does not exist or that
  another coroutine awaits; and \<^verbatim>\<open>current()\<close> is null exactly when no coroutine is running.
\<close>

theorem routine_switching_sound:
  assumes "run rt_step es rt_init = Next s"
  shows "(rt_step e s = Fault x \<longrightarrow> user_error s x) \<and>
    (frames s \<noteq> [] \<longrightarrow> rt_step Continue s \<noteq> Blocked) \<and>
    (frames s = [] \<longrightarrow> current s = None) \<and> (top_coroutine (frames s) = Some c \<longrightarrow> current s = Some c)"
proof -
  have inv: "rt_inv s" by (rule rt.along_run [OF rt_inv_init assms])
  have "continue_step s \<noteq> Blocked" if "frames s \<noteq> []"
    using that continue_inv [OF inv] by (cases "frames s"; cases "continue_step s"; fastforce)
  moreover have "current s = Some c" if "top_coroutine (frames s) = Some c"
    using top_current [OF inv that] running_facts(1) [OF inv] by blast
  moreover have "frames s = [] \<longrightarrow> current s = None" using inv by (auto simp: rt_inv_def)
  ultimately show ?thesis using rt_step_fault [OF inv] by simp
qed

lemma routine_switching_sound_witness:
  "\<exists>s. run rt_step (take 2 parent_run) rt_init = Next s \<and> frames s = [Ctor 1, Ctor 0] \<and>
     rt_step Continue s \<noteq> Blocked \<and> current s = Some 1"
proof -
  obtain s where s: "run rt_step (take 2 parent_run) rt_init = Next s" "frames s = [Ctor 1, Ctor 0]"
    by (simp add: rt_eval)
  from routine_switching_sound [OF s(1), of Continue _ 1] s show ?thesis by simp
qed

text \<open>
  C7. No coroutine is forgotten. When the thread is back in the event loop, every routine that
  has not ended is posted to the loop, or awaits a routine that has not ended and that knows
  it; so with nothing posted, the only coroutines left are those that await each other.
\<close>

theorem no_coroutine_forgotten:
  assumes "run rt_step es rt_init = Next s" "frames s = []" "c < fresh s" "mPull (heap s c)"
  shows "c \<in> set (ioc s) \<or>
    (\<exists>d k. code (heap s c) = Await (AwRoutine d) k \<and> d < fresh s \<and> mPull (heap s d) \<and>
       mContinuation (heap s d) = DataPtr c)"
proof -
  have inv: "rt_inv s" by (rule rt.along_run [OF rt_inv_init assms(1)])
  then have k: "coros_ok (heap s) (fresh s) [] (ioc s) None" using assms(2) by (simp add: rt_inv_def)
  have "place_ok (heap s) (fresh s) [] (ioc s) None c" by (rule coros_okD(5) [OF k assms(3)])
  then consider "c \<in> set (ioc s)"
    | d f where "code (heap s c) = Await (AwRoutine d) f" "d < fresh s" "mPull (heap s d)"
      "mResult (heap s d) = \<lparr>continuationPtr = Handle c, val = Unset\<rparr>"
    using assms(4) by (auto simp: place_defs split: body.splits awaitable.splits if_splits)
  then show ?thesis
  proof cases
    case 2
    then have "result_ok (heap s) (fresh s) [] d" using coros_okD(4) [OF k] by blast
    with 2 show ?thesis by (auto simp: result_ok_def LightFutureData_def)
  qed blast
qed

lemma no_coroutine_forgotten_witness:
  "\<exists>s. run rt_step (take 6 parent_run) rt_init = Next s \<and> frames s = [] \<and> ioc s = [1] \<and>
     mContinuation (heap s 1) = DataPtr 0 \<and>
     (0 \<in> set (ioc s) \<or> (\<exists>d k. code (heap s 0) = Await (AwRoutine d) k \<and> d < fresh s \<and>
        mPull (heap s d) \<and> mContinuation (heap s d) = DataPtr 0))"
proof -
  obtain s where s: "run rt_step (take 6 parent_run) rt_init = Next s" "frames s = []"
    "0 < fresh s" "mPull (heap s 0)" "ioc s = [1]" "mContinuation (heap s 1) = DataPtr 0"
    by (simp add: rt_eval)
  from no_coroutine_forgotten [OF s(1-4)] s show ?thesis by blast
qed

text \<open>
  C8. Awaiting a routine gives its own result. A coroutine gets a value or an exception from
  \<^verbatim>\<open>co::await\<close> on a routine only after that routine has ended, and it is what the routine
  ended with, which does not change any more.
\<close>

theorem await_gives_the_result:
  assumes "run rt_step es rt_init = Next s" "h = observe rt_obs rt_step es rt_init"
  shows "(Got c d r \<in> set h \<longrightarrow> Ended d r \<in> set h) \<and>
    (Ended d r \<in> set h \<and> Ended d r' \<in> set h \<longrightarrow> r = r') \<and>
    (Ended d r \<in> set h \<longleftrightarrow> ended_with s d r)"
proof -
  from logged_run [OF assms(1), of rt_obs "[]"] assms(2)
  have "run (logged rt_obs rt_step) es (rt_init, []) = Next (s, h)" by simp
  then have "results_log (s, h)" using rt_log.along_run [OF results_log_init] by blast
  then show ?thesis using ended_with_unique by (auto simp: results_log_def)
qed

lemma await_gives_the_result_witness:
  "\<exists>s h. run rt_step parent_run rt_init = Next s \<and>
     h = [Ended 1 (Inl (UserException 3)), Got 0 1 (Inl (UserException 3)), Ended 0 (Inl (UserException 3))] \<and>
     ended_with s 1 (Inl (UserException 3))"
proof -
  obtain s where s: "run rt_step parent_run rt_init = Next s" by (simp add: rt_eval)
  have h: "observe rt_obs rt_step parent_run rt_init =
      [Ended 1 (Inl (UserException 3)), Got 0 1 (Inl (UserException 3)), Ended 0 (Inl (UserException 3))]"
    by (simp add: rt_eval)
  from await_gives_the_result [OF s h [symmetric], of 0 1 "Inl (UserException 3)"] s show ?thesis by auto
qed

end
