(* ===== verification/ForEach.thy ===== *)
theory ForEach
  imports Prelude
begin

text \<open>
  \<^verbatim>\<open>forEach\<close> of \<^verbatim>\<open>include/co/foreach.hpp\<close> on a sized random access range: the range is cut
  into one piece per coroutine, the coroutines call the callable on the elements of their
  pieces, and the caller awaits them all and rethrows the first error. Elements are named by
  their positions. Theory \<open>ForEachChannel\<close> has the branch for the other ranges.
\<close>

section \<open>State\<close>

text \<open>
  Where a coroutine is: before the test of its loop, in a call of its copy of the callable,
  in the handler of an exception, or at its end. Where the caller is: creating coroutines,
  awaiting the coroutine with an index, or at the end of \<^verbatim>\<open>forEach\<close>.
\<close>

datatype worker_pc = AtTest | InCall | Catching exception | Ended

datatype caller_pc = Creating | Awaiting nat | Returned | Threw exception

record worker =
  itr :: nat
  last_pos :: nat
  wpc :: worker_pc

record foreach =
  coroCnt :: nat
  itemsPerCoro :: nat
  remaining :: nat
  end_pos :: nat
  coros :: "worker list"
  firstError :: "exception option"
  mpc :: caller_pc

section \<open>Operations\<close>

text \<open>The call for a range of size \<open>s\<close>, up to the loop that creates the coroutines.\<close>

definition forEach_start :: "nat \<Rightarrow> nat \<Rightarrow> foreach outcome" where
  "forEach_start maxParallelity s =
     (let cnt = min maxParallelity s in
      if cnt = 0 then Fault DivByZero
      else Next \<lparr>coroCnt = cnt, itemsPerCoro = s div cnt, remaining = s mod cnt, end_pos = 0,
                 coros = [], firstError = None, mpc = Creating\<rparr>)"

text \<open>One round of that loop.\<close>

definition place_coro :: "foreach \<Rightarrow> foreach" where
  "place_coro s =
     (let b = end_pos s;
          e = b + itemsPerCoro s;
          (e, r) = (if remaining s \<noteq> 0 then (e + 1, remaining s - 1) else (e, remaining s))
      in s\<lparr>end_pos := e, remaining := r, coros := coros s @ [\<lparr>itr = b, last_pos = e, wpc = AtTest\<rparr>]\<rparr>)"

text \<open>The error handler, under its mutex.\<close>

definition handleError :: "exception \<Rightarrow> exception option \<Rightarrow> exception option" where
  "handleError e err = (case err of None \<Rightarrow> Some e | Some e' \<Rightarrow> Some e')"

text \<open>
  One step of coroutine \<open>i\<close>; \<open>thrown\<close> is what the call of the callable ends with, when this
  step ends one.
\<close>

definition coro_step :: "nat \<Rightarrow> exception option \<Rightarrow> foreach \<Rightarrow> foreach outcome" where
  "coro_step i thrown s =
     (if length (coros s) \<le> i then Blocked
      else let w = coros s ! i in
        case wpc w of
          AtTest \<Rightarrow>
            Next (s\<lparr>coros := (coros s)[i := w\<lparr>wpc := (if itr w = last_pos w then Ended else InCall)\<rparr>]\<rparr>)
        | InCall \<Rightarrow>
            (case thrown of
               None \<Rightarrow> Next (s\<lparr>coros := (coros s)[i := w\<lparr>itr := itr w + 1, wpc := AtTest\<rparr>]\<rparr>)
             | Some e \<Rightarrow> Next (s\<lparr>coros := (coros s)[i := w\<lparr>wpc := Catching e\<rparr>]\<rparr>))
        | Catching e \<Rightarrow>
            Next (s\<lparr>firstError := handleError e (firstError s),
                    coros := (coros s)[i := w\<lparr>wpc := Ended\<rparr>]\<rparr>)
        | Ended \<Rightarrow> Blocked)"

text \<open>One step of the caller.\<close>

definition caller_step :: "foreach \<Rightarrow> foreach outcome" where
  "caller_step s =
     (case mpc s of
        Creating \<Rightarrow>
          Next (if length (coros s) < coroCnt s then place_coro s else s\<lparr>mpc := Awaiting 0\<rparr>)
      | Awaiting k \<Rightarrow>
          (if k < length (coros s)
           then (if wpc (coros s ! k) = Ended then Next (s\<lparr>mpc := Awaiting (k + 1)\<rparr>) else Blocked)
           else Next (s\<lparr>mpc := (case firstError s of None \<Rightarrow> Returned | Some e \<Rightarrow> Threw e)\<rparr>))
      | _ \<Rightarrow> Blocked)"

datatype for_event = Caller | Coro nat "exception option"

fun for_step :: "(for_event, foreach) machine" where
  "for_step Caller s = caller_step s"
| "for_step (Coro i thrown) s = coro_step i thrown s"

text \<open>What a run shows: the calls of the callable as they begin, and what they throw.\<close>

datatype call = Called nat nat | Thrown nat exception

fun for_obs :: "for_event \<Rightarrow> foreach \<Rightarrow> call list" where
  "for_obs Caller s = []"
| "for_obs (Coro i thrown) s =
     (if length (coros s) \<le> i then []
      else case wpc (coros s ! i) of
             AtTest \<Rightarrow> (if itr (coros s ! i) = last_pos (coros s ! i) then [] else [Called i (itr (coros s ! i))])
           | InCall \<Rightarrow> (case thrown of None \<Rightarrow> [] | Some e \<Rightarrow> [Thrown i e])
           | _ \<Rightarrow> [])"

text \<open>The positions coroutine \<open>i\<close> called its copy on, in order, and the exceptions thrown.\<close>

fun called_by :: "nat \<Rightarrow> call list \<Rightarrow> nat list" where
  "called_by i [] = []"
| "called_by i (Called j k # h) = (if j = i then k # called_by i h else called_by i h)"
| "called_by i (Thrown j e # h) = called_by i h"

fun exceptions :: "call list \<Rightarrow> exception list" where
  "exceptions [] = []"
| "exceptions (Called j k # h) = exceptions h"
| "exceptions (Thrown j e # h) = e # exceptions h"

fun calls :: "call list \<Rightarrow> nat list" where
  "calls [] = []"
| "calls (Called j k # h) = k # calls h"
| "calls (Thrown j e # h) = calls h"

lemma call_log_append [simp]:
  "called_by i (h @ g) = called_by i h @ called_by i g"
  "exceptions (h @ g) = exceptions h @ exceptions g"
  "calls (h @ g) = calls h @ calls g"
  by (induction h rule: calls.induct) simp_all

section \<open>Cutting the range\<close>

text \<open>Where the piece of coroutine \<open>k\<close> begins, when \<open>cnt\<close> coroutines share \<open>s\<close> elements.\<close>

definition piece_start :: "nat \<Rightarrow> nat \<Rightarrow> nat \<Rightarrow> nat" where
  "piece_start s cnt k = k * (s div cnt) + min k (s mod cnt)"

lemma piece_start_0 [simp]: "piece_start s cnt 0 = 0"
  by (simp add: piece_start_def)

lemma piece_start_Suc:
  "piece_start s cnt (Suc k) = piece_start s cnt k + s div cnt + (if k < s mod cnt then 1 else 0)"
  by (simp add: piece_start_def)

lemma piece_start_end: "0 < cnt \<Longrightarrow> piece_start s cnt cnt = s"
  using mod_less_divisor [of cnt s] by (simp add: piece_start_def mult.commute)

lemma piece_start_mono: "j \<le> k \<Longrightarrow> piece_start s cnt j \<le> piece_start s cnt k"
  by (simp add: piece_start_def add_mono)

lemma piece_start_le: "0 < cnt \<Longrightarrow> k \<le> cnt \<Longrightarrow> piece_start s cnt k \<le> s"
  using piece_start_mono [of k cnt s cnt] by (simp add: piece_start_end)

lemma pieces_concat:
  "concat (map (\<lambda>i. [piece_start s cnt i..<piece_start s cnt (Suc i)]) [0..<k]) = [0..<piece_start s cnt k]"
proof (induction k)
  case 0
  then show ?case by simp
next
  case (Suc k)
  have "piece_start s cnt k \<le> piece_start s cnt (Suc k)" by (rule piece_start_mono) simp
  then have "[0..<piece_start s cnt (Suc k)] =
      [0..<piece_start s cnt k] @ [piece_start s cnt k..<piece_start s cnt (Suc k)]"
    using upt_add_eq_append [of 0 "piece_start s cnt k" "piece_start s cnt (Suc k) - piece_start s cnt k"]
    by simp
  with Suc show ?case by simp
qed

section \<open>The invariant\<close>

text \<open>Coroutine \<open>i\<close> works on its piece; \<open>h\<close> is the log of the run so far.\<close>

fun coro_ok :: "worker_pc \<Rightarrow> nat \<Rightarrow> nat \<Rightarrow> nat \<Rightarrow> exception option \<Rightarrow> nat list \<Rightarrow> bool" where
  "coro_ok AtTest b i e err js = (i \<le> e \<and> b \<le> i \<and> js = [b..<i])"
| "coro_ok InCall b i e err js = (i < e \<and> b \<le> i \<and> js = [b..<Suc i])"
| "coro_ok (Catching x) b i e err js = (i < e \<and> b \<le> i \<and> js = [b..<Suc i])"
| "coro_ok Ended b i e err js =
     (js = [b..<e] \<or> err \<noteq> None \<and> i < e \<and> b \<le> i \<and> js = [b..<Suc i])"

fun caller_ok :: "caller_pc \<Rightarrow> nat \<Rightarrow> foreach \<Rightarrow> bool" where
  "caller_ok Creating cnt s = True"
| "caller_ok (Awaiting k) cnt s \<longleftrightarrow>
     length (coros s) = cnt \<and> k \<le> cnt \<and> list_all (\<lambda>w. wpc w = Ended) (take k (coros s))"
| "caller_ok Returned cnt s \<longleftrightarrow>
     length (coros s) = cnt \<and> firstError s = None \<and> list_all (\<lambda>w. wpc w = Ended) (coros s)"
| "caller_ok (Threw e) cnt s \<longleftrightarrow>
     length (coros s) = cnt \<and> firstError s = Some e \<and> list_all (\<lambda>w. wpc w = Ended) (coros s)"

definition entry_ok :: "nat \<Rightarrow> nat \<Rightarrow> worker list \<Rightarrow> exception option \<Rightarrow> call list \<Rightarrow> nat \<Rightarrow> bool" where
  "entry_ok cnt n ws err h i \<longleftrightarrow>
     (if i < length ws
      then last_pos (ws ! i) = piece_start n cnt (Suc i) \<and>
        coro_ok (wpc (ws ! i)) (piece_start n cnt i) (itr (ws ! i)) (piece_start n cnt (Suc i)) err
          (called_by i h)
      else called_by i h = [])"

definition coros_ok :: "nat \<Rightarrow> nat \<Rightarrow> foreach \<Rightarrow> call list \<Rightarrow> bool" where
  "coros_ok cnt n s h \<longleftrightarrow> (\<forall>i. entry_ok cnt n (coros s) (firstError s) h i)"

definition errors_ok :: "foreach \<Rightarrow> call list \<Rightarrow> bool" where
  "errors_ok s h \<longleftrightarrow> set_option (firstError s) \<subseteq> set (exceptions h) \<and>
     (\<forall>i < length (coros s). \<forall>e. wpc (coros s ! i) = Catching e \<longrightarrow> e \<in> set (exceptions h)) \<and>
     (exceptions h \<noteq> [] \<longrightarrow> firstError s \<noteq> None \<or> (\<exists>i < length (coros s). \<exists>e. wpc (coros s ! i) = Catching e))"

definition pieces_ok :: "nat \<Rightarrow> nat \<Rightarrow> foreach \<Rightarrow> bool" where
  "pieces_ok cnt n s \<longleftrightarrow> coroCnt s = cnt \<and> itemsPerCoro s = n div cnt \<and>
     remaining s = n mod cnt - length (coros s) \<and> end_pos s = piece_start n cnt (length (coros s)) \<and>
     length (coros s) \<le> cnt"

definition for_log :: "nat \<Rightarrow> nat \<Rightarrow> foreach \<times> call list \<Rightarrow> bool" where
  "for_log cnt n sh \<longleftrightarrow> pieces_ok cnt n (fst sh) \<and> coros_ok cnt n (fst sh) (snd sh) \<and>
     errors_ok (fst sh) (snd sh) \<and> caller_ok (mpc (fst sh)) cnt (fst sh)"


lemma coro_ok_error: "coro_ok p b i e err js \<Longrightarrow> coro_ok p b i e (handleError x err) js"
  by (cases p) (auto simp: handleError_def split: option.splits)

lemma handleError_Some: "handleError e err \<noteq> None" "handleError e err = Some e' \<Longrightarrow> e' = e \<or> err = Some e'"
  by (simp_all add: handleError_def split: option.splits)


text \<open>A step of one coroutine changes its own entry and log only.\<close>

lemma coros_ok_upd:
  assumes "coros_ok cnt n s h" "i < length (coros s)"
    and "coros t = (coros s)[i := w]" "last_pos w = last_pos (coros s ! i)"
    and "firstError t = firstError s \<or> firstError t \<noteq> None"
    and "\<And>j. j \<noteq> i \<Longrightarrow> called_by j g = []"
    and "coro_ok (wpc w) (piece_start n cnt i) (itr w) (last_pos w) (firstError t) (called_by i h @ called_by i g)"
  shows "coros_ok cnt n t (h @ g)"
proof -
  have *: "coro_ok p b k e (firstError s) js \<Longrightarrow> coro_ok p b k e (firstError t) js" for p b k e js
    using assms(5) by (cases p) auto
  have "entry_ok cnt n (coros t) (firstError t) (h @ g) j" for j
  proof -
    have "entry_ok cnt n (coros s) (firstError s) h j" using assms(1) unfolding coros_ok_def by blast
    then show ?thesis using assms(2-4,6,7) *
      by (cases "j = i") (auto simp: entry_ok_def)
  qed
  then show ?thesis unfolding coros_ok_def by blast
qed

lemma workers_okD:
  assumes "coros_ok cnt n s h" "i < length (coros s)"
  shows "last_pos (coros s ! i) = piece_start n cnt (Suc i)"
    "coro_ok (wpc (coros s ! i)) (piece_start n cnt i) (itr (coros s ! i)) (piece_start n cnt (Suc i))
       (firstError s) (called_by i h)"
  using assms(1) [unfolded coros_ok_def, rule_format, of i] assms(2) by (simp_all add: entry_ok_def)

lemma errors_ok_upd:
  assumes "errors_ok s h" "i < length (coros s)"
    and "coros t = (coros s)[i := w]" "firstError t = firstError s"
    and "\<forall>e. wpc (coros s ! i) \<noteq> Catching e" "\<forall>e. wpc w \<noteq> Catching e" "exceptions g = []"
  shows "errors_ok t (h @ g)"
  using assms by (auto simp: errors_ok_def nth_list_update)

text \<open>No coroutine has ended that the step changes, so what the caller has seen stays.\<close>

lemma caller_ok_upd:
  assumes "caller_ok p cnt s" "i < length (coros s)" "wpc (coros s ! i) \<noteq> Ended"
    and "coros t = (coros s)[i := w]"
  shows "caller_ok p cnt t"
proof (cases p)
  case Creating
  then show ?thesis by simp
next
  case (Awaiting k)
  have "\<not> i < k"
  proof
    assume "i < k"
    with assms(1,2) Awaiting have "coros s ! i \<in> set (take k (coros s))"
      by (auto simp: in_set_conv_nth)
    with assms(1,3) Awaiting show False by (simp add: list_all_iff)
  qed
  with assms Awaiting show ?thesis by simp
next
  case Returned
  with assms(1-3) show ?thesis by (simp add: list_all_iff)
next
  case (Threw e)
  with assms(1-3) show ?thesis by (simp add: list_all_iff)
qed

lemma at_test_log:
  assumes log: "for_log cnt n (s, h)" and i: "i < length (coros s)" and AtTest: "wpc (coros s ! i) = AtTest"
  shows "ensures (\<lambda>t. for_log cnt n (t, h @ for_obs (Coro i thrown) s)) (coro_step i thrown s)"
proof -
  have p: "pieces_ok cnt n s" and c: "coros_ok cnt n s h" and e: "errors_ok s h"
    and m: "caller_ok (mpc s) cnt s"
    using log by (simp_all add: for_log_def)
  note ok = workers_okD [OF c i]
  let ?w = "coros s ! i"
  let ?w' = "?w\<lparr>wpc := (if itr ?w = last_pos ?w then Ended else InCall)\<rparr>"
  let ?t = "s\<lparr>coros := (coros s)[i := ?w']\<rparr>"
  let ?g = "for_obs (Coro i thrown) s"
  have "coros_ok cnt n ?t (h @ ?g)"
    by (rule coros_ok_upd [OF c i, where w = ?w']) (use AtTest i ok in auto)
  moreover have "errors_ok ?t (h @ ?g)"
    by (rule errors_ok_upd [OF e i, where w = ?w']) (use AtTest i in auto)
  moreover have "caller_ok (mpc s) cnt ?t"
    by (rule caller_ok_upd [OF m i]) (use AtTest in auto)
  ultimately show ?thesis using i AtTest p
    by (simp add: coro_step_def for_log_def pieces_ok_def Let_def)
qed

lemma in_call_log:
  assumes log: "for_log cnt n (s, h)" and i: "i < length (coros s)" and InCall: "wpc (coros s ! i) = InCall"
  shows "ensures (\<lambda>t. for_log cnt n (t, h @ for_obs (Coro i thrown) s)) (coro_step i thrown s)"
proof -
  have p: "pieces_ok cnt n s" and c: "coros_ok cnt n s h" and e: "errors_ok s h"
    and m: "caller_ok (mpc s) cnt s"
    using log by (simp_all add: for_log_def)
  note ok = workers_okD [OF c i]
  let ?w = "coros s ! i"
  show ?thesis
  proof (cases thrown)
    case None
    let ?w' = "?w\<lparr>itr := itr ?w + 1, wpc := AtTest\<rparr>"
    let ?t = "s\<lparr>coros := (coros s)[i := ?w']\<rparr>"
    have "coros_ok cnt n ?t (h @ [])"
      by (rule coros_ok_upd [OF c i, where w = ?w']) (use InCall i ok in auto)
    moreover have "errors_ok ?t (h @ [])"
      by (rule errors_ok_upd [OF e i, where w = ?w']) (use InCall i in auto)
    moreover have "caller_ok (mpc s) cnt ?t"
      by (rule caller_ok_upd [OF m i]) (use InCall in auto)
    ultimately show ?thesis using i InCall p None
      by (simp add: coro_step_def for_log_def pieces_ok_def Let_def)
  next
    case (Some x)
    let ?w' = "?w\<lparr>wpc := Catching x\<rparr>"
    let ?t = "s\<lparr>coros := (coros s)[i := ?w']\<rparr>"
    have "coros_ok cnt n ?t (h @ [Thrown i x])"
      by (rule coros_ok_upd [OF c i, where w = ?w']) (use InCall i ok in auto)
    moreover have "errors_ok ?t (h @ [Thrown i x])"
      using e i InCall by (auto simp: errors_ok_def nth_list_update)
    moreover have "caller_ok (mpc s) cnt ?t"
      by (rule caller_ok_upd [OF m i]) (use InCall in auto)
    ultimately show ?thesis using i InCall p Some
      by (simp add: coro_step_def for_log_def pieces_ok_def Let_def)
  qed
qed

lemma catching_log:
  assumes log: "for_log cnt n (s, h)" and i: "i < length (coros s)" and Catching: "wpc (coros s ! i) = Catching x"
  shows "ensures (\<lambda>t. for_log cnt n (t, h @ for_obs (Coro i thrown) s)) (coro_step i thrown s)"
proof -
  have p: "pieces_ok cnt n s" and c: "coros_ok cnt n s h" and e: "errors_ok s h"
    and m: "caller_ok (mpc s) cnt s"
    using log by (simp_all add: for_log_def)
  note ok = workers_okD [OF c i]
  let ?w = "coros s ! i"
  let ?w' = "?w\<lparr>wpc := Ended\<rparr>"
  let ?t = "s\<lparr>firstError := handleError x (firstError s), coros := (coros s)[i := ?w']\<rparr>"
  have "coros_ok cnt n ?t (h @ [])"
    by (rule coros_ok_upd [OF c i, where w = ?w']) (use Catching i ok handleError_Some in auto)
  moreover have "errors_ok ?t (h @ [])"
    using e i Catching handleError_Some [of x "firstError s"]
    by (auto simp: errors_ok_def nth_list_update)
  moreover have "caller_ok (mpc s) cnt ?t"
  proof -
    have "mpc s = Creating \<or> (\<exists>k. mpc s = Awaiting k)"
      using m i Catching by (cases "mpc s") (auto simp: list_all_iff)
    then show ?thesis
      using caller_ok_upd [OF m i, where t = ?t and w = ?w'] Catching by auto
  qed
  ultimately show ?thesis using i Catching p
    by (simp add: coro_step_def for_log_def pieces_ok_def Let_def)
qed

lemma coro_step_log:
  assumes "for_log cnt n (s, h)"
  shows "ensures (\<lambda>t. for_log cnt n (t, h @ for_obs (Coro i thrown) s)) (coro_step i thrown s)"
proof (cases "i < length (coros s)")
  case False
  then show ?thesis by (simp add: coro_step_def)
next
  case i: True
  show ?thesis
  proof (cases "wpc (coros s ! i)")
    case AtTest
    then show ?thesis by (rule at_test_log [OF assms i])
  next
    case InCall
    then show ?thesis by (rule in_call_log [OF assms i])
  next
    case (Catching x)
    then show ?thesis by (rule catching_log [OF assms i])
  next
    case Ended
    with i show ?thesis by (simp add: coro_step_def)
  qed
qed


lemma place_coro_log:
  assumes "for_log cnt n (s, h)" "mpc s = Creating" "length (coros s) < coroCnt s"
  shows "for_log cnt n (place_coro s, h)"
proof -
  let ?l = "length (coros s)"
  have p: "pieces_ok cnt n s" and c: "coros_ok cnt n s h" and e: "errors_ok s h"
    using assms(1) by (simp_all add: for_log_def)
  have l: "?l < cnt" and r: "remaining s = n mod cnt - ?l" "itemsPerCoro s = n div cnt"
    "end_pos s = piece_start n cnt ?l"
    using p assms(3) by (simp_all add: pieces_ok_def)
  have pc: "coros (place_coro s) = coros s @ [\<lparr>itr = piece_start n cnt ?l,
      last_pos = piece_start n cnt (Suc ?l), wpc = AtTest\<rparr>]"
    "end_pos (place_coro s) = piece_start n cnt (Suc ?l)"
    "remaining (place_coro s) = n mod cnt - Suc ?l"
    "firstError (place_coro s) = firstError s" "mpc (place_coro s) = mpc s"
    "coroCnt (place_coro s) = coroCnt s" "itemsPerCoro (place_coro s) = itemsPerCoro s"
    using r by (auto simp: place_coro_def piece_start_Suc Let_def split: if_splits)
  have "entry_ok cnt n (coros (place_coro s)) (firstError (place_coro s)) h i" for i
  proof -
    have "entry_ok cnt n (coros s) (firstError s) h i" using c unfolding coros_ok_def by blast
    then show ?thesis using piece_start_mono [of ?l "Suc ?l" n cnt]
      by (cases "i < ?l"; cases "i = ?l") (simp_all add: entry_ok_def pc nth_append)
  qed
  then have "coros_ok cnt n (place_coro s) h" unfolding coros_ok_def by blast
  moreover have "errors_ok (place_coro s) h"
    using e by (auto simp: errors_ok_def pc nth_append)
  moreover have "pieces_ok cnt n (place_coro s)"
    using p l by (simp add: pieces_ok_def pc)
  ultimately show ?thesis using assms(2) by (simp add: for_log_def pc)
qed

lemma log_keep:
  assumes "for_log cnt n (s, h)" "caller_ok p cnt (s\<lparr>mpc := p\<rparr>)"
  shows "for_log cnt n (s\<lparr>mpc := p\<rparr>, h)"
proof -
  have "pieces_ok cnt n (s\<lparr>mpc := p\<rparr>) = pieces_ok cnt n s" "coros_ok cnt n (s\<lparr>mpc := p\<rparr>) h = coros_ok cnt n s h"
    "errors_ok (s\<lparr>mpc := p\<rparr>) h = errors_ok s h"
    by (simp_all add: pieces_ok_def coros_ok_def errors_ok_def)
  with assms show ?thesis by (simp add: for_log_def)
qed

lemma caller_step_log:
  assumes "for_log cnt n (s, h)"
  shows "ensures (\<lambda>t. for_log cnt n (t, h)) (caller_step s)"
proof (cases "mpc s")
  case Creating
  show ?thesis
  proof (cases "length (coros s) < coroCnt s")
    case True
    with Creating place_coro_log [OF assms] show ?thesis by (simp add: caller_step_def)
  next
    case False
    have "length (coros s) = cnt" using assms False by (simp add: for_log_def pieces_ok_def)
    with Creating False log_keep [OF assms] show ?thesis by (simp add: caller_step_def)
  qed
next
  case (Awaiting k)
  have k: "length (coros s) = cnt" "k \<le> cnt" "list_all (\<lambda>w. wpc w = Ended) (take k (coros s))"
    using assms Awaiting by (simp_all add: for_log_def)
  show ?thesis
  proof (cases "k < length (coros s)")
    case True
    with k Awaiting log_keep [OF assms] show ?thesis
      by (simp add: caller_step_def take_Suc_conv_app_nth)
  next
    case False
    with k Awaiting log_keep [OF assms] show ?thesis
      by (simp add: caller_step_def split: option.split)
  qed
qed (simp_all add: caller_step_def)

lemma for_step_log:
  assumes "for_log cnt n sh"
  shows "ensures (for_log cnt n) (logged for_obs for_step e sh)"
proof (cases sh)
  case (Pair s h)
  show ?thesis
  proof (cases e)
    case Caller
    have "ensures (\<lambda>t. for_log cnt n (t, h)) (caller_step s)"
      by (rule caller_step_log) (use assms Pair in simp)
    with Caller Pair show ?thesis by (cases "caller_step s") (simp_all add: logged_def)
  next
    case (Coro i thrown)
    have "ensures (\<lambda>t. for_log cnt n (t, h @ for_obs (Coro i thrown) s)) (coro_step i thrown s)"
      by (rule coro_step_log) (use assms Pair in simp)
    with Coro Pair show ?thesis by (cases "coro_step i thrown s") (simp_all add: logged_def)
  qed
qed


section \<open>Termination\<close>

fun worker_left :: "worker_pc \<Rightarrow> nat \<Rightarrow> nat" where
  "worker_left AtTest k = 3 * k + 1"
| "worker_left InCall k = 3 * k"
| "worker_left (Catching e) k = 1"
| "worker_left Ended k = 0"

definition left_of :: "worker \<Rightarrow> nat" where
  "left_of w = worker_left (wpc w) (last_pos w - itr w)"

fun caller_left :: "caller_pc \<Rightarrow> nat \<Rightarrow> nat \<Rightarrow> foreach \<Rightarrow> nat" where
  "caller_left Creating cnt n s = 3 * (n - end_pos s) + 2 * (cnt - length (coros s)) + cnt + 3"
| "caller_left (Awaiting k) cnt n s = cnt - k + 1"
| "caller_left Returned cnt n s = 0"
| "caller_left (Threw e) cnt n s = 0"

definition for_left :: "nat \<Rightarrow> nat \<Rightarrow> foreach \<Rightarrow> nat" where
  "for_left cnt n s = sum_list (map left_of (coros s)) + caller_left (mpc s) cnt n s"

fun for_final :: "caller_pc \<Rightarrow> bool" where
  "for_final Returned = True"
| "for_final (Threw e) = True"
| "for_final p = False"

lemma left_upd:
  "i < length ws \<Longrightarrow> sum_list (map left_of (ws[i := w])) + left_of (ws ! i) = sum_list (map left_of ws) + left_of w"
  by (induction ws arbitrary: i) (auto split: nat.split)

lemma coro_step_left:
  assumes "for_log cnt n (s, h)"
  shows "ensures (\<lambda>t. for_left cnt n t < for_left cnt n s) (coro_step i thrown s)"
proof (cases "i < length (coros s)")
  case False
  then show ?thesis by (simp add: coro_step_def)
next
  case i: True
  let ?w = "coros s ! i"
  have ok: "coro_ok (wpc ?w) (piece_start n cnt i) (itr ?w) (last_pos ?w) (firstError s) (called_by i h)"
    using workers_okD [of cnt n s h i] assms i by (simp add: for_log_def)
  have less: "left_of w' < left_of ?w \<Longrightarrow>
      for_left cnt n (s\<lparr>firstError := err, coros := (coros s)[i := w']\<rparr>) < for_left cnt n s" for w' err
    using left_upd [OF i, of w'] by (cases "mpc s") (simp_all add: for_left_def)
  then have less': "left_of w' < left_of ?w \<Longrightarrow>
      for_left cnt n (s\<lparr>coros := (coros s)[i := w']\<rparr>) < for_left cnt n s" for w'
    using less [of w' "firstError s"] by simp
  show ?thesis
    using i ok
    by (cases "wpc ?w"; cases thrown)
      (auto simp: coro_step_def Let_def left_of_def intro!: less less')
qed

lemma caller_step_left:
  assumes "for_log cnt n (s, h)" "0 < cnt"
  shows "ensures (\<lambda>t. for_left cnt n t < for_left cnt n s) (caller_step s)"
proof (cases "mpc s")
  case Creating
  show ?thesis
  proof (cases "length (coros s) < coroCnt s")
    case True
    have p: "length (coros s) < cnt" "end_pos s = piece_start n cnt (length (coros s))"
      "remaining s = n mod cnt - length (coros s)" "itemsPerCoro s = n div cnt"
      using assms(1) True by (simp_all add: for_log_def pieces_ok_def)
    let ?e = "piece_start n cnt (Suc (length (coros s)))"
    have "end_pos s \<le> ?e" "?e \<le> n"
      using p assms(2) by (simp_all add: piece_start_mono piece_start_le)
    moreover have "coros (place_coro s) = coros s @ [\<lparr>itr = end_pos s, last_pos = ?e, wpc = AtTest\<rparr>]"
      "end_pos (place_coro s) = ?e" "mpc (place_coro s) = Creating"
      using p Creating by (auto simp: place_coro_def piece_start_Suc Let_def split: if_splits)
    ultimately show ?thesis using True Creating p(1)
      by (simp add: caller_step_def for_left_def left_of_def)
  next
    case False
    with Creating show ?thesis by (simp add: caller_step_def for_left_def)
  qed
next
  case (Awaiting k)
  then have "length (coros s) = cnt" using assms(1) by (simp add: for_log_def)
  with Awaiting show ?thesis
    by (auto simp: caller_step_def for_left_def split: option.split)
qed (simp_all add: caller_step_def)

definition foreach_init :: "nat \<Rightarrow> nat \<Rightarrow> foreach" where
  "foreach_init cnt n = \<lparr>coroCnt = cnt, itemsPerCoro = n div cnt, remaining = n mod cnt, end_pos = 0,
     coros = [], firstError = None, mpc = Creating\<rparr>"

lemma forEach_start_eq:
  "forEach_start maxParallelity n =
     (if maxParallelity = 0 \<or> n = 0 then Fault DivByZero else Next (foreach_init (min maxParallelity n) n))"
  by (auto simp: forEach_start_def foreach_init_def Let_def)

lemma foreach_progress:
  assumes "\<not> for_final (mpc s)"
  shows "\<exists>e t. for_step e s = Next t"
proof (cases "\<exists>k. mpc s = Awaiting k \<and> k < length (coros s) \<and> wpc (coros s ! k) \<noteq> Ended")
  case True
  then obtain k where "k < length (coros s)" "wpc (coros s ! k) \<noteq> Ended" by blast
  then have "\<exists>t. for_step (Coro k None) s = Next t"
    by (cases "wpc (coros s ! k)") (simp_all add: coro_step_def Let_def)
  then show ?thesis by blast
next
  case False
  with assms have "\<exists>t. for_step Caller s = Next t"
    by (cases "mpc s") (auto simp: caller_step_def)
  then show ?thesis by blast
qed

interpretation foreach:
  terminating "logged for_obs for_step" "(foreach_init (Suc m) n, [])" "for_log (Suc m) n"
    "\<lambda>sh. for_final (mpc (fst sh))" "\<lambda>sh. for_left (Suc m) n (fst sh)"
proof
  show "for_log (Suc m) n (foreach_init (Suc m) n, [])"
    by (simp add: for_log_def foreach_init_def pieces_ok_def coros_ok_def entry_ok_def errors_ok_def)
next
  fix sh e
  assume "for_log (Suc m) n sh"
  then show "ensures (for_log (Suc m) n) (logged for_obs for_step e sh)" by (rule for_step_log)
next
  fix sh :: "foreach \<times> call list"
  assume "\<not> for_final (mpc (fst sh))"
  then show "\<exists>e t. logged for_obs for_step e sh = Next t"
    using foreach_progress by (fastforce simp: logged_def)
next
  fix sh th e
  assume I: "for_log (Suc m) n sh" and t: "logged for_obs for_step e sh = Next th"
  obtain s h where sh: "sh = (s, h)" by (cases sh)
  have "ensures (\<lambda>t. for_left (Suc m) n t < for_left (Suc m) n s) (for_step e s)"
    using I sh coro_step_left caller_step_left by (cases e) auto
  then show "for_left (Suc m) n (fst th) < for_left (Suc m) n (fst sh)"
    using t sh by (auto simp: logged_def)
qed


section \<open>Properties\<close>

lemma started_log:
  assumes "forEach_start m n = Next s0" "run for_step es s0 = Next t" "h = observe for_obs for_step es s0"
  shows "for_log (min m n) n (t, h)" "0 < min m n" "s0 = foreach_init (min m n) n"
proof -
  from assms(1) have s0: "s0 = foreach_init (min m n) n" "0 < min m n"
    by (simp_all add: forEach_start_eq split: if_splits)
  then obtain k where k: "min m n = Suc k" using gr0_implies_Suc by blast
  have "run (logged for_obs for_step) es (foreach_init (Suc k) n, []) = Next (t, h)"
    using logged_run [OF assms(2), of for_obs "[]"] assms(3) s0 k by simp
  from foreach.along_run [OF foreach.init this] k show "for_log (min m n) n (t, h)" by simp
  show "0 < min m n" "s0 = foreach_init (min m n) n" by (fact s0)+
qed

lemma calls_by_coros:
  "(\<And>i. cnt \<le> i \<Longrightarrow> called_by i h = []) \<Longrightarrow> mset (calls h) = mset (concat (map (\<lambda>i. called_by i h) [0..<cnt]))"
proof (induction h rule: calls.induct)
  case 1
  have "concat (map (\<lambda>i. called_by i []) [0..<cnt]) = []" by simp
  then show ?case by simp
next
  case (2 j k h)
  have j: "j < cnt" using 2(2) [of j] by (cases "j < cnt") (simp_all add: not_less)
  have "called_by i h = []" if "cnt \<le> i" for i
    using 2(2) [OF that] by (simp split: if_splits)
  with 2(1) have IH: "mset (calls h) = mset (concat (map (\<lambda>i. called_by i h) [0..<cnt]))" by blast
  have "mset (concat (map (\<lambda>i. called_by i (Called j k # h)) [0..<c])) =
      mset (concat (map (\<lambda>i. called_by i h) [0..<c])) + (if j < c then {#k#} else {#})" for c
    by (induction c) auto
  with IH j show ?case by simp
next
  case (3 j e h)
  then show ?case by simp
qed

lemma called_by_piece:
  assumes "coros_ok cnt n s h"
  shows "\<exists>j. called_by i h = [piece_start n cnt i..<j] \<and> j \<le> piece_start n cnt (Suc i)"
proof (cases "i < length (coros s)")
  case True
  with workers_okD(2) [OF assms True] show ?thesis
    by (cases "wpc (coros s ! i)") (auto simp: Suc_le_eq simp del: upt_Suc)
next
  case False
  with assms have "called_by i h = [piece_start n cnt i..<piece_start n cnt i]"
    unfolding coros_ok_def entry_ok_def by simp
  then show ?thesis using piece_start_mono [of i "Suc i" n cnt] le_SucI [OF order_refl] by blast
qed

text \<open>Initial segments of the pieces are disjoint, and inside the range.\<close>

lemma piece_parts:
  assumes "\<And>i. \<exists>j. f i = [piece_start n cnt i..<j] \<and> j \<le> piece_start n cnt (Suc i)"
  shows "distinct (concat (map f [0..<k])) \<and> set (concat (map f [0..<k])) \<subseteq> {..<piece_start n cnt k}"
proof (induction k)
  case 0
  then show ?case by simp
next
  case (Suc k)
  obtain j where j: "f k = [piece_start n cnt k..<j]" "j \<le> piece_start n cnt (Suc k)"
    using assms by blast
  have "piece_start n cnt k \<le> piece_start n cnt (Suc k)" by (rule piece_start_mono) simp
  with Suc j show ?case by fastforce
qed

text \<open>
  C13. \<^verbatim>\<open>forEach\<close> is the sequential loop, up to order. However the coroutines interleave, the
  callable is called at most once on an element; when \<^verbatim>\<open>forEach\<close> returns, what the coroutines
  called one after the other is the whole range in order, every element once, and no call
  threw; when it throws, one of the calls threw that exception. At most \<open>maxParallelity\<close>
  calls are under way at any time, and no coroutine has more than its share of calls.
\<close>

theorem foreach_calls_each_once:
  assumes "forEach_start m n = Next s0" "run for_step es s0 = Next t"
    and "h = observe for_obs for_step es s0"
  shows "distinct (calls h) \<and> set (calls h) \<subseteq> {..<n} \<and>
    (mpc t = Returned \<longrightarrow> concat (map (\<lambda>i. called_by i h) [0..<min m n]) = [0..<n] \<and>
       mset (calls h) = mset [0..<n] \<and> exceptions h = []) \<and>
    (mpc t = Threw e \<longrightarrow> e \<in> set (exceptions h)) \<and>
    length (filter (\<lambda>w. wpc w = InCall) (coros t)) \<le> m \<and>
    length (called_by i h) \<le> n div min m n + (if i < n mod min m n then 1 else 0)"
proof -
  let ?c = "min m n"
  have log: "for_log ?c n (t, h)" and c: "0 < ?c" by (rule started_log [OF assms])+
  then have p: "pieces_ok ?c n t" and cs: "coros_ok ?c n t h" and er: "errors_ok t h"
    and m: "caller_ok (mpc t) ?c t"
    by (simp_all add: for_log_def)
  have none: "called_by j h = []" if "?c \<le> j" for j
    using cs that p unfolding coros_ok_def entry_ok_def pieces_ok_def by force
  note all = calls_by_coros [OF none]
  have parts: "distinct (concat (map (\<lambda>i. called_by i h) [0..<?c]))"
    "set (concat (map (\<lambda>i. called_by i h) [0..<?c])) \<subseteq> {..<n}"
    using piece_parts [OF called_by_piece [OF cs], of ?c] c by (simp_all add: piece_start_end)
  have "distinct (calls h)" "set (calls h) \<subseteq> {..<n}"
    using parts all mset_eq_imp_distinct_iff [OF all] mset_eq_setD [OF all] by auto
  moreover have "concat (map (\<lambda>i. called_by i h) [0..<?c]) = [0..<n] \<and> exceptions h = []"
    if r: "mpc t = Returned"
  proof -
    have ended: "wpc (coros t ! i) = Ended" if "i < length (coros t)" for i
      using m r that by (simp add: list_all_length)
    with m r have "called_by i h = [piece_start n ?c i..<piece_start n ?c (Suc i)]" if "i < ?c" for i
      using workers_okD(2) [OF cs, of i] that by simp
    then have "map (\<lambda>i. called_by i h) [0..<?c] =
        map (\<lambda>i. [piece_start n ?c i..<piece_start n ?c (Suc i)]) [0..<?c]"
      by simp
    then have "concat (map (\<lambda>i. called_by i h) [0..<?c]) = [0..<n]"
      by (simp only: pieces_concat piece_start_end [OF c])
    moreover have "exceptions h = []"
      using er m r ended by (auto simp: errors_ok_def)
    ultimately show ?thesis by blast
  qed
  moreover have "mpc t = Threw e \<longrightarrow> e \<in> set (exceptions h)"
    using er m by (auto simp: errors_ok_def)
  moreover have "length (filter (\<lambda>w. wpc w = InCall) (coros t)) \<le> m"
    using p le_trans [OF length_filter_le, of "coros t" m] by (simp add: pieces_ok_def)
  moreover have "length (called_by i h) \<le> n div ?c + (if i < n mod ?c then 1 else 0)"
    using called_by_piece [OF cs, of i] by (auto simp: piece_start_Suc split: if_splits)
  ultimately show ?thesis using all by simp
qed


text \<open>Three elements, two coroutines: the second throws, and the first goes on.\<close>

definition three_by_two :: "for_event list" where
  "three_by_two = [Caller, Coro 0 None, Caller, Caller, Coro 1 None, Coro 1 (Some BadGet), Coro 0 None,
     Coro 1 None, Coro 0 None, Coro 0 None, Coro 0 None, Caller, Caller, Caller]"

lemmas for_eval = forEach_start_eq foreach_init_def place_coro_def caller_step_def coro_step_def
  handleError_def Let_def

lemma foreach_calls_each_once_witness:
  "\<exists>s0 t h. forEach_start 2 3 = Next s0 \<and> run for_step three_by_two s0 = Next t \<and>
     calls h = [0, 2, 1] \<and> mpc t = Threw BadGet \<and> BadGet \<in> set (exceptions h)"
proof -
  obtain s0 where s0: "forEach_start 2 3 = Next s0" "s0 = foreach_init 2 3" by (simp add: forEach_start_eq)
  obtain t where t: "run for_step three_by_two s0 = Next t" "mpc t = Threw BadGet"
    by (simp add: s0 three_by_two_def for_eval)
  have "calls (observe for_obs for_step three_by_two s0) = [0, 2, 1]"
    by (simp add: s0 three_by_two_def for_eval)
  with foreach_calls_each_once [OF s0(1) t(1) refl, of BadGet 0] s0(1) t show ?thesis by blast
qed

text \<open>
  C14. \<^verbatim>\<open>forEach\<close> returns. If the calls of the callable do, every run of \<^verbatim>\<open>forEach\<close> on \<open>n\<close>
  elements ends within \<open>3 * n + 3 * c + 3\<close> steps of its \<open>c\<close> coroutines and the caller, and
  from every state it gets to its end: normally if no call has thrown and the remaining ones
  do not, else with an exception.
\<close>

theorem foreach_returns:
  assumes "forEach_start m n = Next s0" "run for_step es s0 = Next t"
  shows "length es \<le> 3 * n + 3 * min m n + 3 \<and>
    (\<exists>fs u. run for_step fs t = Next u \<and> for_final (mpc u) \<and>
       (mpc u = Returned \<longleftrightarrow> exceptions (observe for_obs for_step (es @ fs) s0) = []))"
proof -
  let ?c = "min m n"
  define h where "h = observe for_obs for_step es s0"
  have log: "for_log ?c n (t, h)" and c: "0 < ?c" and s0: "s0 = foreach_init ?c n"
    by (rule started_log [OF assms h_def])+
  obtain k where k: "?c = Suc k" using c gr0_implies_Suc by blast
  have init: "for_log (Suc k) n (s0, [])" using foreach.init s0 k by simp
  have "length es + for_left ?c n t \<le> for_left ?c n s0"
    using foreach.bounded [OF init logged_run [OF assms(2), of for_obs "[]"]] k by simp
  moreover have "for_left ?c n s0 = 3 * n + 3 * ?c + 3"
    by (simp add: s0 for_left_def foreach_init_def)
  moreover obtain fs sh where sh: "run (logged for_obs for_step) fs (t, h) = Next sh"
      "for_final (mpc (fst sh))"
    using foreach.completes [of k n "(t, h)"] log k by auto
  obtain u where u: "run for_step fs t = Next u" "sh = (u, h @ observe for_obs for_step fs t)"
    using logged_run_back [OF sh(1)] by blast
  moreover have "mpc u = Returned \<longleftrightarrow> exceptions (snd sh) = []"
  proof -
    have "for_log ?c n sh" using foreach.along_run [OF _ sh(1)] log k by simp
    then show ?thesis using sh(2) u(2)
      by (cases "mpc u") (auto simp: for_log_def errors_ok_def list_all_length)
  qed
  moreover have "observe for_obs for_step (es @ fs) s0 = h @ observe for_obs for_step fs t"
    unfolding h_def by (rule observe_append [OF assms(2)])
  ultimately show ?thesis using sh(2) by (intro conjI exI [of _ fs] exI [of _ u]) simp_all
qed

lemma foreach_returns_witness:
  "\<exists>s0 t. forEach_start 2 3 = Next s0 \<and> run for_step three_by_two s0 = Next t \<and>
     length three_by_two \<le> 18 \<and> mpc t = Threw BadGet"
proof -
  obtain s0 where s0: "forEach_start 2 3 = Next s0" "s0 = foreach_init 2 3" by (simp add: forEach_start_eq)
  obtain t where t: "run for_step three_by_two s0 = Next t" "mpc t = Threw BadGet"
    by (simp add: s0 three_by_two_def for_eval)
  from foreach_returns [OF s0(1) t(1)] s0(1) t show ?thesis by simp
qed

text \<open>
  \<^verbatim>\<open>forEach\<close> on an empty random access range divides by zero, and so it does when no
  parallelity is allowed; in all other cases it starts.
\<close>

lemma foreach_divides_by_zero:
  "(forEach_start m n = Fault DivByZero \<longleftrightarrow> m = 0 \<or> n = 0) \<and>
   (m \<noteq> 0 \<and> n \<noteq> 0 \<longleftrightarrow> (\<exists>s. forEach_start m n = Next s))"
  by (simp add: forEach_start_eq)

end
