(* ===== verification/ChannelThreads.thy ===== *)
theory ChannelThreads
  imports Buffered
begin

text \<open>
  What a client of a buffered channel needs to know of it, beside the stream properties of
  theory \<open>Buffered\<close>: where each of its threads is in the channel's code, that the operations
  move only the thread that calls them, and which of its steps returns from a call with what.
\<close>

section \<open>Where a thread is\<close>

datatype place = Outside | InPushCall | InPopCall | Notifying

definition place :: "'a buffered \<Rightarrow> nat \<Rightarrow> place" where
  "place s i =
     (if apc (senders s) i \<noteq> Out then InPushCall
      else if apc (receivers s) i \<noteq> Out then InPopCall
      else if notifies i s then Notifying else Outside)"

text \<open>What the next step of a thread returns from its call, if it returns.\<close>

definition push_result :: "nat \<Rightarrow> 'a buffered \<Rightarrow> bool option" where
  "push_result i s = (if notifies i s then None else await_result i (senders s))"

definition pop_result :: "nat \<Rightarrow> 'a buffered \<Rightarrow> 'a option option" where
  "pop_result i s = (if notifies i s then None else await_result i (receivers s))"

lemma idle_place: "idle i s \<longleftrightarrow> place s i = Outside"
  by (simp add: idle_def place_def)

lemma placeD:
  "place s i = Outside \<Longrightarrow> apc (senders s) i = Out"
  "place s i = Outside \<Longrightarrow> apc (receivers s) i = Out"
  "place s i = Outside \<Longrightarrow> \<not> notifies i s"
  by (simp_all add: place_def split: if_splits)

lemma notifies_iff:
  "notifies i s \<longleftrightarrow> i \<in> fst ` set (notices (senders s)) \<or> i \<in> fst ` set (notices (receivers s))"
  unfolding notifies_def using notice_of_None [of i "senders s"] notice_of_None [of i "receivers s"]
  by (metis (no_types, lifting) image_iff)

lemma place_frame:
  assumes "\<And>k. k \<noteq> i \<Longrightarrow> apc (senders t) k = Out \<longleftrightarrow> apc (senders s) k = Out"
    and "\<And>k. k \<noteq> i \<Longrightarrow> apc (receivers t) k = Out \<longleftrightarrow> apc (receivers s) k = Out"
    and "\<And>k. k \<noteq> i \<Longrightarrow> notifies k t = notifies k s"
  shows "place t = (place s)(i := place t i)"
  using assms by (auto simp: fun_eq_iff place_def)

lemma critical_not_blocked:
  "buffered_push i v s \<noteq> Blocked" "buffered_pop i s \<noteq> Blocked"
  "buffered_closeSender i s \<noteq> Blocked" "buffered_closeReceiver i s \<noteq> Blocked"
  by (auto simp: buffered_push_def buffered_pop_def buffered_closeSender_def buffered_closeReceiver_def
      on_senders_def on_receivers_def enter_set_def enter_wait_def grab_def grab_all_def Let_def future_defs
      bind_outcome_Blocked split: list.splits)

lemma push_place:
  assumes inv: "buffered_inv n s" and i: "i < n" "place s i = Outside" "\<not> mSenderClosed s"
  shows "\<exists>t. buffered_push i v s = Next t \<and> buffered_inv n t \<and> place t = (place s)(i := InPushCall) \<and>
    mSenderClosed t = mSenderClosed s \<and> mReceiverClosed t = mReceiverClosed s"
proof -
  have idle: "idle i s" using i(2) by (simp add: idle_place)
  obtain t where t: "buffered_push i v s = Next t" "buffered_inv n t"
  proof -
    from buffered_push_inv [OF inv i(1) idle i(3), of v] that show thesis
      by (cases "buffered_push i v s") (auto simp: critical_not_blocked)
  qed
  have "mSenderClosed t = mSenderClosed s \<and> mReceiverClosed t = mReceiverClosed s \<and>
      apc (receivers t) = apc (receivers s) \<and> apc (senders t) = (apc (senders s))(i := AwReady) \<and>
      (\<forall>k. k \<noteq> i \<longrightarrow> notifies k t = notifies k s)"
    using t(1)
    by (auto simp: buffered_push_def on_senders_def on_receivers_def enter_set_def enter_wait_def grab_def
        Let_def future_defs notifies_iff split: if_splits list.splits)
  then have c: "mSenderClosed t = mSenderClosed s" "mReceiverClosed t = mReceiverClosed s"
    "apc (receivers t) = apc (receivers s)" "apc (senders t) = (apc (senders s))(i := AwReady)"
    "\<And>k. k \<noteq> i \<Longrightarrow> notifies k t = notifies k s"
    by blast+
  have "place t i = InPushCall" using c(4) by (simp add: place_def)
  moreover have "place t = (place s)(i := place t i)" by (rule place_frame) (use c in auto)
  ultimately show ?thesis using t c(1,2) by metis
qed


lemma pop_place:
  assumes inv: "buffered_inv n s" and i: "i < n" "place s i = Outside" "\<not> mReceiverClosed s"
  shows "\<exists>t. buffered_pop i s = Next t \<and> buffered_inv n t \<and> place t = (place s)(i := InPopCall) \<and>
    mSenderClosed t = mSenderClosed s \<and> mReceiverClosed t = mReceiverClosed s"
proof -
  have idle: "idle i s" using i(2) by (simp add: idle_place)
  obtain t where t: "buffered_pop i s = Next t" "buffered_inv n t"
  proof -
    from buffered_pop_inv [OF inv i(1) idle i(3)] that show thesis
      by (cases "buffered_pop i s") (auto simp: critical_not_blocked)
  qed
  have "mSenderClosed t = mSenderClosed s \<and> mReceiverClosed t = mReceiverClosed s \<and>
      apc (senders t) = apc (senders s) \<and> apc (receivers t) = (apc (receivers s))(i := AwReady) \<and>
      (\<forall>k. k \<noteq> i \<longrightarrow> notifies k t = notifies k s)"
    using t(1)
    by (auto simp: buffered_pop_def on_senders_def on_receivers_def enter_set_def enter_wait_def grab_def
        Let_def future_defs notifies_iff split: if_splits list.splits)
  then have c: "mSenderClosed t = mSenderClosed s" "mReceiverClosed t = mReceiverClosed s"
    "apc (senders t) = apc (senders s)" "apc (receivers t) = (apc (receivers s))(i := AwReady)"
    "\<And>k. k \<noteq> i \<Longrightarrow> notifies k t = notifies k s"
    by blast+
  have "place t i = InPopCall" using c(3,4) placeD(1) [OF i(2)] by (simp add: place_def)
  moreover have "place t = (place s)(i := place t i)" by (rule place_frame) (use c in auto)
  ultimately show ?thesis using t c(1,2) by metis
qed

text \<open>Closing a side that no call is in; afterwards the thread has at most notices to deliver.\<close>

lemma closeSender_place:
  assumes inv: "buffered_inv n s" and i: "i < n" "place s i = Outside" "\<not> mSenderClosed s"
    and out: "\<And>k. place s k \<noteq> InPushCall"
  shows "\<exists>t p. buffered_closeSender i s = Next t \<and> buffered_inv n t \<and> place t = (place s)(i := p) \<and>
    (p = Outside \<or> p = Notifying) \<and> mSenderClosed t \<and> mReceiverClosed t = mReceiverClosed s"
proof -
  have o: "apc (senders s) k = Out" for k using out [of k] by (simp add: place_def split: if_splits)
  then have nb: "nobody_in n (senders s)" by (simp add: nobody_in_def list_all_iff)
  obtain t where t: "buffered_closeSender i s = Next t" "buffered_inv n t"
  proof -
    from closeSender_inv [OF inv i(1,3) nb] that show thesis
      by (cases "buffered_closeSender i s") (auto simp: critical_not_blocked)
  qed
  have "mSenderClosed t \<and> mReceiverClosed t = mReceiverClosed s \<and>
      apc (senders t) = apc (senders s) \<and> apc (receivers t) = apc (receivers s) \<and>
      (\<forall>k. k \<noteq> i \<longrightarrow> notifies k t = notifies k s)"
    using t(1)
    by (auto simp: buffered_closeSender_def on_receivers_def grab_all_def Let_def notifies_iff image_iff
        split: if_splits)
  then have c: "mSenderClosed t" "mReceiverClosed t = mReceiverClosed s"
    "apc (senders t) = apc (senders s)" "apc (receivers t) = apc (receivers s)"
    "\<And>k. k \<noteq> i \<Longrightarrow> notifies k t = notifies k s"
    by blast+
  have "place t i = Outside \<or> place t i = Notifying"
    using c(3,4) placeD [OF i(2)] by (simp add: place_def)
  moreover have "place t = (place s)(i := place t i)" by (rule place_frame) (use c in auto)
  ultimately show ?thesis using t c(1,2) by metis
qed

lemma closeReceiver_place:
  assumes inv: "buffered_inv n s" and i: "i < n" "place s i = Outside" "\<not> mReceiverClosed s"
    and out: "\<And>k. place s k \<noteq> InPopCall"
  shows "\<exists>t p. buffered_closeReceiver i s = Next t \<and> buffered_inv n t \<and> place t = (place s)(i := p) \<and>
    (p = Outside \<or> p = Notifying) \<and> mReceiverClosed t \<and> mSenderClosed t = mSenderClosed s"
proof -
  have o: "apc (receivers s) k = Out" for k
    using out [of k] buffered_invD(8) [OF inv, of k] by (auto simp: place_def split: if_splits)
  then have nb: "nobody_in n (receivers s)" by (simp add: nobody_in_def list_all_iff)
  obtain t where t: "buffered_closeReceiver i s = Next t" "buffered_inv n t"
  proof -
    from closeReceiver_inv [OF inv i(1,3) nb] that show thesis
      by (cases "buffered_closeReceiver i s") (auto simp: critical_not_blocked)
  qed
  have "mReceiverClosed t \<and> mSenderClosed t = mSenderClosed s \<and>
      apc (senders t) = apc (senders s) \<and> apc (receivers t) = apc (receivers s) \<and>
      (\<forall>k. k \<noteq> i \<longrightarrow> notifies k t = notifies k s)"
    using t(1)
    by (auto simp: buffered_closeReceiver_def on_senders_def grab_all_def Let_def notifies_iff image_iff
        split: if_splits)
  then have c: "mReceiverClosed t" "mSenderClosed t = mSenderClosed s"
    "apc (senders t) = apc (senders s)" "apc (receivers t) = apc (receivers s)"
    "\<And>k. k \<noteq> i \<Longrightarrow> notifies k t = notifies k s"
    by blast+
  have "place t i = Outside \<or> place t i = Notifying"
    using c(3,4) placeD [OF i(2)] by (simp add: place_def)
  moreover have "place t = (place s)(i := place t i)" by (rule place_frame) (use c in auto)
  ultimately show ?thesis using t c(1,2) by metis
qed


text \<open>
  The steps of a thread inside the channel: it stays where it is until its call returns, or
  until its notices are delivered.
\<close>

fun moved :: "place \<Rightarrow> bool option \<Rightarrow> 'a option option \<Rightarrow> place \<Rightarrow> bool" where
  "moved Outside b x p = False"
| "moved InPushCall b x p = (p = (if b = None then InPushCall else Outside))"
| "moved InPopCall b x p = (p = (if x = None then InPopCall else Outside))"
| "moved Notifying b x p = (p = Notifying \<or> p = Outside)"

lemma await_result_Out: "apc r i \<noteq> AwResume \<Longrightarrow> await_result i r = None"
  by (simp add: await_result_def)

lemma await_result_Resume:
  assumes "room_inv r" "apc r i = AwResume"
  shows "\<exists>v. await_result i r = Some v"
  using room_invD(3) [OF assms(1), of i] assms(2) by (auto simp: await_result_def future_defs)

lemma deliver_frame:
  assumes "rooms_inv n r" "notice_of i r = Some m"
  obtains r' x where "deliver i r = Next r'" "\<And>k. apc r' k = Out \<longleftrightarrow> apc r k = Out"
    "notices r' = remove1 (i, x) (notices r)"
proof -
  obtain r' k v where "deliver i r = Next r'" "notices r' = remove1 (i, k, v) (notices r)"
    "apc r' = (if apc r k = AwParked then (apc r)(k := AwResume) else apc r)"
    using rooms_deliver [OF assms] by blast
  then show thesis by (intro that [of r' "(k, v)"]) simp_all
qed

lemma remove_other: "k \<noteq> i \<Longrightarrow> k \<in> fst ` set (remove1 (i, x) ns) \<longleftrightarrow> k \<in> fst ` set ns"
  by (induction ns) auto

lemma thread_deliver_place:
  assumes inv: "buffered_inv n s" and busy: "notifies i s"
  shows "\<exists>t p. thread_step i s = Next t \<and> place t = (place s)(i := p) \<and>
    moved (place s i) (push_result i s) (pop_result i s) p"
proof -
  note I = buffered_invD [OF inv]
  obtain t where t: "thread_step i s = Next t"
    "\<And>k. apc (senders t) k = Out \<longleftrightarrow> apc (senders s) k = Out"
    "\<And>k. apc (receivers t) k = Out \<longleftrightarrow> apc (receivers s) k = Out"
    "\<And>k. k \<noteq> i \<Longrightarrow> notifies k t = notifies k s"
  proof (cases "notice_of i (receivers s)")
    case (Some m)
    obtain r' x where r: "deliver i (receivers s) = Next r'"
      "\<And>k. apc r' k = Out \<longleftrightarrow> apc (receivers s) k = Out" "notices r' = remove1 (i, x) (notices (receivers s))"
      using deliver_frame [OF I(2) Some] by metis
    show thesis
    proof (rule that [of "s\<lparr>receivers := r'\<rparr>"])
      show "thread_step i s = Next (s\<lparr>receivers := r'\<rparr>)"
        using r(1) by (simp add: thread_step_def on_receivers_def)
    qed (use r in \<open>simp_all add: notifies_iff remove_other\<close>)
  next
    case None
    with busy obtain m where m: "notice_of i (senders s) = Some m" by (auto simp: notifies_def)
    obtain r' x where r: "deliver i (senders s) = Next r'"
      "\<And>k. apc r' k = Out \<longleftrightarrow> apc (senders s) k = Out" "notices r' = remove1 (i, x) (notices (senders s))"
      using deliver_frame [OF I(1) m] by metis
    show thesis
    proof (rule that [of "s\<lparr>senders := r'\<rparr>"])
      show "thread_step i s = Next (s\<lparr>senders := r'\<rparr>)"
        using r(1) None by (simp add: thread_step_def on_receivers_def on_senders_def deliver_none)
    qed (use r in \<open>simp_all add: notifies_iff remove_other\<close>)
  qed
  have "place t = (place s)(i := place t i)" by (rule place_frame) (use t in auto)
  moreover have "moved (place s i) (push_result i s) (pop_result i s) (place t i)"
    using busy t(2,3) [of i] by (auto simp: place_def push_result_def pop_result_def)
  ultimately show ?thesis using t(1) by blast
qed

lemma thread_await_place:
  assumes inv: "buffered_inv n s" and quiet: "\<not> notifies i s" and t: "thread_step i s = Next t"
  shows "place t = (place s)(i := place t i) \<and> moved (place s i) (push_result i s) (pop_result i s) (place t i)"
proof -
  note I = buffered_invD [OF inv]
  have room: "room_inv (senders s)" "room_inv (receivers s)" using I(1,2) by (simp_all add: rooms_inv_def)
  have no: "notice_of i (senders s) = None" "notice_of i (receivers s) = None"
    using quiet unfolding notifies_def by blast+
  show ?thesis
  proof (cases "apc (senders s) i = Out \<or> apc (senders s) i = AwParked")
    case False
    obtain r' where r: "await_step i (senders s) = Next r'" "notices r' = notices (senders s)"
      "\<forall>k. k \<noteq> i \<longrightarrow> apc r' k = apc (senders s) k" "apc r' i = Out \<longleftrightarrow> apc (senders s) i = AwResume"
      using rooms_await [OF I(1), of i] False by blast
    have t': "t = s\<lparr>senders := r'\<rparr>"
      using t r(1) no by (simp add: thread_step_def on_receivers_def on_senders_def deliver_none)
    have "push_result i s = None \<longleftrightarrow> apc (senders s) i \<noteq> AwResume"
      using await_result_Resume [OF room(1), of i] await_result_Out [of "senders s" i] quiet
      by (auto simp: push_result_def)
    moreover have "notifies k t = notifies k s" for k by (simp add: t' notifies_iff r(2))
    moreover have "apc (receivers s) i = Out" using I(8) [of i] False by auto
    moreover have "place t = (place s)(i := place t i)"
      by (rule place_frame) (use r in \<open>auto simp: t' notifies_iff\<close>)
    ultimately show ?thesis using r(4) False quiet by (simp add: place_def t')
  next
    case True
    have b: "await_step i (senders s) = Blocked" using True room(1) by (simp add: await_step_eq)
    with t no obtain r where "await_step i (receivers s) = Next r"
      by (auto simp: thread_step_def on_receivers_def on_senders_def deliver_none)
    then have pc: "apc (receivers s) i \<noteq> Out" "apc (receivers s) i \<noteq> AwParked"
      using room(2) by (auto simp: await_step_eq split: if_splits)
    obtain r' where r: "await_step i (receivers s) = Next r'" "notices r' = notices (receivers s)"
      "\<forall>k. k \<noteq> i \<longrightarrow> apc r' k = apc (receivers s) k" "apc r' i = Out \<longleftrightarrow> apc (receivers s) i = AwResume"
      using rooms_await [OF I(2) pc] by blast
    have t': "t = s\<lparr>receivers := r'\<rparr>"
      using t r(1) no b by (simp add: thread_step_def on_receivers_def on_senders_def deliver_none)
    have "pop_result i s = None \<longleftrightarrow> apc (receivers s) i \<noteq> AwResume"
      using await_result_Resume [OF room(2), of i] await_result_Out [of "receivers s" i] quiet
      by (auto simp: pop_result_def)
    moreover have "notifies k t = notifies k s" for k by (simp add: t' notifies_iff r(2))
    moreover have "apc (senders s) i = Out" using I(8) [of i] pc by auto
    moreover have "place t = (place s)(i := place t i)"
      by (rule place_frame) (use r in \<open>auto simp: t' notifies_iff\<close>)
    ultimately show ?thesis using r(4) pc quiet by (simp add: place_def t')
  qed
qed

lemma thread_place:
  assumes inv: "buffered_inv n s"
  shows "thread_step i s = Blocked \<and> rests i s \<or>
    (\<exists>t p. thread_step i s = Next t \<and> buffered_inv n t \<and> place t = (place s)(i := p) \<and>
       moved (place s i) (push_result i s) (pop_result i s) p \<and>
       mSenderClosed t = mSenderClosed s \<and> mReceiverClosed t = mReceiverClosed s)"
proof (cases "thread_step i s = Blocked")
  case True
  with thread_step_spec [OF inv, of i] show ?thesis unfolding rests_def by auto
next
  case False
  with thread_step_spec [OF inv, of i] obtain t where t: "thread_step i s = Next t" "same_data s t" by blast
  have "buffered_inv n t" using thread_step_inv [OF inv, of i] t(1) by simp
  moreover have "\<exists>p. place t = (place s)(i := p) \<and> moved (place s i) (push_result i s) (pop_result i s) p"
    using thread_deliver_place [OF inv, of i] thread_await_place [OF inv _ t(1)] t(1) by fastforce
  ultimately show ?thesis using t by (auto simp: same_data_def)
qed

text \<open>A thread that delivers notices can always go on.\<close>

lemma notifying_goes_on: "buffered_inv n s \<Longrightarrow> place s i = Notifying \<Longrightarrow> thread_step i s \<noteq> Blocked"
  using thread_place [of n s i] by (auto simp: rests_def place_def split: if_splits)

section \<open>What a step of the channel shows\<close>

text \<open>
  The invariant of the channel of \<open>n\<close> threads with its log, for a queue size of \<open>m\<close> that is not
  changed.
\<close>

definition chan_state :: "nat \<Rightarrow> nat \<Rightarrow> 'a buffered \<Rightarrow> 'a traffic list \<Rightarrow> bool" where
  "chan_state m n ch h \<longleftrightarrow> buffered_inv n ch \<and> logs m ch h \<and> Resized \<notin> set h"

lemma obs_go_pop:
  "place s i = InPopCall \<Longrightarrow>
    buffered_obs (Go i) s = (case pop_result i s of None \<Rightarrow> [] | Some x \<Rightarrow> [PopReturned i x])"
  by (simp add: place_def pop_result_def split: if_splits option.split)

lemma obs_go_push:
  "place s i = InPushCall \<Longrightarrow>
    buffered_obs (Go i) s = (case push_result i s of None \<Rightarrow> [] | Some b \<Rightarrow> [PushReturned i b])"
  by (simp add: place_def push_result_def split: if_splits option.split)

lemma obs_go_notify: "notifies i s \<Longrightarrow> buffered_obs (Go i) s = []"
  by simp

text \<open>A step of the channel by one of its threads, with its contract and the log.\<close>

lemma state_step:
  assumes "chan_state m n ch h" "buffered_step n d ch = Next ch'" "Resized \<notin> set (buffered_obs d ch)"
  shows "chan_state m n ch' (h @ buffered_obs d ch)"
  using assms step_logs [of n ch m h d] buffered_step_inv [of n ch d]
  by (simp add: chan_state_def)


lemma state_push:
  assumes "chan_state m n ch h" "i < n" "place ch i = Outside" "\<not> mSenderClosed ch"
  shows "\<exists>ch'. buffered_push i v ch = Next ch' \<and> chan_state m n ch' (h @ buffered_obs (Push i v) ch) \<and>
    place ch' = (place ch)(i := InPushCall) \<and> mSenderClosed ch' = mSenderClosed ch \<and>
    mReceiverClosed ch' = mReceiverClosed ch"
proof -
  obtain ch' where c: "buffered_push i v ch = Next ch'" "place ch' = (place ch)(i := InPushCall)"
    "mSenderClosed ch' = mSenderClosed ch" "mReceiverClosed ch' = mReceiverClosed ch"
    using push_place [of n ch i v] assms by (auto simp: chan_state_def)
  have "buffered_step n (Push i v) ch = Next ch'" using c(1) assms by (simp add: idle_place)
  from state_step [OF assms(1) this] c show ?thesis by simp
qed

lemma state_pop:
  assumes "chan_state m n ch h" "i < n" "place ch i = Outside" "\<not> mReceiverClosed ch"
  shows "\<exists>ch'. buffered_pop i ch = Next ch' \<and> chan_state m n ch' (h @ buffered_obs (PopCall i) ch) \<and>
    place ch' = (place ch)(i := InPopCall) \<and> mSenderClosed ch' = mSenderClosed ch \<and>
    mReceiverClosed ch' = mReceiverClosed ch"
proof -
  obtain ch' where c: "buffered_pop i ch = Next ch'" "place ch' = (place ch)(i := InPopCall)"
    "mSenderClosed ch' = mSenderClosed ch" "mReceiverClosed ch' = mReceiverClosed ch"
    using pop_place [of n ch i] assms by (auto simp: chan_state_def)
  have "buffered_step n (PopCall i) ch = Next ch'" using c(1) assms by (simp add: idle_place)
  from state_step [OF assms(1) this] c show ?thesis by (simp split: list.split)
qed

lemma state_closeSender:
  assumes "chan_state m n ch h" "i < n" "place ch i = Outside" "\<not> mSenderClosed ch" "\<And>k. place ch k \<noteq> InPushCall"
  shows "\<exists>ch' p. buffered_closeSender i ch = Next ch' \<and> chan_state m n ch' h \<and> place ch' = (place ch)(i := p) \<and>
    (p = Outside \<or> p = Notifying) \<and> mSenderClosed ch' \<and> mReceiverClosed ch' = mReceiverClosed ch"
proof -
  obtain ch' p where c: "buffered_closeSender i ch = Next ch'" "place ch' = (place ch)(i := p)"
    "p = Outside \<or> p = Notifying" "mSenderClosed ch'" "mReceiverClosed ch' = mReceiverClosed ch"
    using closeSender_place [of n ch i] assms by (auto simp: chan_state_def)
  have "nobody_in n (senders ch)"
    unfolding nobody_in_def list_all_iff
  proof
    fix k assume "k \<in> set [0..<n]"
    show "apc (senders ch) k = Out" using assms(5) [of k] by (simp add: place_def split: if_splits)
  qed
  then have "buffered_step n (CloseSenders i) ch = Next ch'"
    using c(1) assms(2-4) by (simp add: idle_place)
  from state_step [OF assms(1) this] c show ?thesis by auto
qed

lemma state_closeReceiver:
  assumes "chan_state m n ch h" "i < n" "place ch i = Outside" "\<not> mReceiverClosed ch" "\<And>k. place ch k \<noteq> InPopCall"
  shows "\<exists>ch' p. buffered_closeReceiver i ch = Next ch' \<and> chan_state m n ch' h \<and> place ch' = (place ch)(i := p) \<and>
    (p = Outside \<or> p = Notifying) \<and> mReceiverClosed ch' \<and> mSenderClosed ch' = mSenderClosed ch"
proof -
  have inv: "buffered_inv n ch" using assms(1) by (simp add: chan_state_def)
  obtain ch' p where c: "buffered_closeReceiver i ch = Next ch'" "place ch' = (place ch)(i := p)"
    "p = Outside \<or> p = Notifying" "mReceiverClosed ch'" "mSenderClosed ch' = mSenderClosed ch"
    using closeReceiver_place [OF inv, of i] assms by auto
  have "nobody_in n (receivers ch)"
    unfolding nobody_in_def list_all_iff
  proof
    fix k assume "k \<in> set [0..<n]"
    show "apc (receivers ch) k = Out"
      using assms(5) [of k] buffered_invD(8) [OF inv, of k] by (simp add: place_def split: if_splits)
  qed
  then have "buffered_step n (CloseReceivers i) ch = Next ch'"
    using c(1) assms(2-4) by (simp add: idle_place)
  from state_step [OF assms(1) this] c show ?thesis by auto
qed

lemma state_go:
  assumes "chan_state m n ch h" "thread_step i ch \<noteq> Blocked"
  shows "\<exists>ch' p. thread_step i ch = Next ch' \<and> chan_state m n ch' (h @ buffered_obs (Go i) ch) \<and>
    place ch' = (place ch)(i := p) \<and> moved (place ch i) (push_result i ch) (pop_result i ch) p \<and>
    mSenderClosed ch' = mSenderClosed ch \<and> mReceiverClosed ch' = mReceiverClosed ch"
proof -
  have "buffered_inv n ch" using assms(1) by (simp add: chan_state_def)
  from thread_place [OF this, of i] assms(2) obtain ch' p where
    c: "thread_step i ch = Next ch'" "place ch' = (place ch)(i := p)"
    "moved (place ch i) (push_result i ch) (pop_result i ch) p"
    "mSenderClosed ch' = mSenderClosed ch" "mReceiverClosed ch' = mReceiverClosed ch"
    by blast
  have "buffered_step n (Go i) ch = Next ch'" using c(1) by simp
  moreover have "Resized \<notin> set (buffered_obs (Go i) ch)" by (simp split: option.split)
  ultimately show ?thesis using state_step [OF assms(1)] c by blast
qed

text \<open>The values given to threads, by thread.\<close>

lemma assigned_by_threads:
  "(\<And>i. cnt \<le> i \<Longrightarrow> assigned_to i h = []) \<Longrightarrow>
    mset (assigned h) = mset (concat (map (\<lambda>i. assigned_to i h) [0..<cnt]))"
proof (induction h rule: assigned.induct)
  case 1
  have "concat (map (\<lambda>i. assigned_to i []) [0..<cnt]) = []" by simp
  then show ?case by simp
next
  case (2 j k h)
  have j: "j < cnt" using 2(2) [of j] by (cases "j < cnt") (simp_all add: not_less)
  have "assigned_to i h = []" if "cnt \<le> i" for i
    using 2(2) [OF that] by (simp split: if_splits)
  with 2(1) have IH: "mset (assigned h) = mset (concat (map (\<lambda>i. assigned_to i h) [0..<cnt]))" by blast
  have "mset (concat (map (\<lambda>i. assigned_to i (Assigned j k # h)) [0..<c])) =
      mset (concat (map (\<lambda>i. assigned_to i h) [0..<c])) + (if j < c then {#k#} else {#})" for c
    by (induction c) auto
  with IH j show ?case by simp
qed simp_all

lemma mset_concat_append:
  "mset (concat (map (\<lambda>i. f i @ g i) xs)) = mset (concat (map f xs)) + mset (concat (map g xs))"
  by (induction xs) simp_all

end
