(* ===== verification/ForEachChannel.thy ===== *)
theory ForEachChannel
  imports ForEach ChannelThreads
begin

text \<open>
  \<^verbatim>\<open>forEach\<close> of \<^verbatim>\<open>include/co/foreach.hpp\<close> on a range that is not a sized random access range:
  the caller sends the elements through a buffered channel, whose receiver the coroutines
  share. The model runs on the channel of theory \<open>Buffered\<close>, step by step: the caller is its
  thread 0, the coroutines are its threads 1 to \<open>c\<close>. Elements are named by their positions.
\<close>

section \<open>State\<close>

text \<open>
  A coroutine: not created, before a \<^verbatim>\<open>pop\<close>, in it, in the callable, in the handler of an
  exception, before its copy of the receiver is released, doing that (closing the receiver
  if it was the last copy), and done. Boost moves the coroutine's function onto its stack, so
  the copy goes when the coroutine ends, before it counts as finished.
\<close>

datatype eater_pc =
  Unborn | AtPop | InPop | InFunc nat | Handling exception | Releasing | ClosingReceiver | Finished

text \<open>
  The caller: creating the coroutine with an index, before and after \<^verbatim>\<open>chan.receiver = nullptr\<close>,
  before and in the \<^verbatim>\<open>push\<close> of an element, before and after the end of the sender's scope, and
  awaiting the coroutines.
\<close>

datatype feeder_pc =
  Making nat | Dropping | Dropped | Feeding nat | InPush nat | ClosingSender | ClosedSender
  | Joining nat | FeedReturned | FeedThrew exception

record feed =
  chan :: "nat buffered"
  receiver_refs :: nat
  eater :: "nat \<Rightarrow> eater_pc"
  feedError :: "exception option"
  fpc :: feeder_pc

definition feed_start :: "nat \<Rightarrow> feed outcome" where
  "feed_start maxParallelity =
     bind_outcome (makeBufferedChannel maxParallelity)
       (\<lambda>ch. Next \<lparr>chan = ch, receiver_refs = 1, eater = (\<lambda>i. Unborn), feedError = None, fpc = Making 1\<rparr>)"

section \<open>Steps\<close>

definition on_chan :: "(nat buffered \<Rightarrow> nat buffered outcome) \<Rightarrow> feed \<Rightarrow> feed outcome" where
  "on_chan f s = bind_outcome (f (chan s)) (\<lambda>ch. Next (s\<lparr>chan := ch\<rparr>))"

text \<open>Releasing a copy of the \<^verbatim>\<open>shared_ptr\<close> to the receiver; the last one closes it.\<close>

definition release :: "nat \<Rightarrow> feed \<Rightarrow> feed outcome" where
  "release i s =
     (let s = s\<lparr>receiver_refs := receiver_refs s - 1\<rparr>
      in if receiver_refs s = 0 then on_chan (buffered_closeReceiver i) s else Next s)"

definition set_eater :: "nat \<Rightarrow> eater_pc \<Rightarrow> feed \<Rightarrow> feed" where
  "set_eater i p s = s\<lparr>eater := (eater s)(i := p)\<rparr>"

text \<open>The caller on a range of \<open>n\<close> elements, with \<open>c\<close> coroutines.\<close>

definition feeder_step :: "nat \<Rightarrow> nat \<Rightarrow> feed \<Rightarrow> feed outcome" where
  "feeder_step c n s =
     (case fpc s of
        Making k \<Rightarrow>
          (if k \<le> c then Next (set_eater k AtPop (s\<lparr>receiver_refs := receiver_refs s + 1, fpc := Making (k + 1)\<rparr>))
           else Next (s\<lparr>fpc := Dropping\<rparr>))
      | Dropping \<Rightarrow> bind_outcome (release 0 s) (\<lambda>t. Next (t\<lparr>fpc := Dropped\<rparr>))
      | Dropped \<Rightarrow>
          (if notifies 0 (chan s) then on_chan (thread_step 0) s else Next (s\<lparr>fpc := Feeding 0\<rparr>))
      | Feeding k \<Rightarrow>
          (if k < n then bind_outcome (on_chan (buffered_push 0 k) s) (\<lambda>t. Next (t\<lparr>fpc := InPush k\<rparr>))
           else Next (s\<lparr>fpc := ClosingSender\<rparr>))
      | InPush k \<Rightarrow>
          bind_outcome (on_chan (thread_step 0) s)
            (\<lambda>t. case push_result 0 (chan s) of
                   None \<Rightarrow> Next t
                 | Some True \<Rightarrow> Next (t\<lparr>fpc := Feeding (k + 1)\<rparr>)
                 | Some False \<Rightarrow>
                     if feedError s = None then Fault (AssertFailed ''forEach'')
                     else Next (t\<lparr>fpc := ClosingSender\<rparr>))
      | ClosingSender \<Rightarrow>
          bind_outcome (on_chan (buffered_closeSender 0) s) (\<lambda>t. Next (t\<lparr>fpc := ClosedSender\<rparr>))
      | ClosedSender \<Rightarrow>
          (if notifies 0 (chan s) then on_chan (thread_step 0) s else Next (s\<lparr>fpc := Joining 1\<rparr>))
      | Joining k \<Rightarrow>
          (if k \<le> c then (if eater s k = Finished then Next (s\<lparr>fpc := Joining (k + 1)\<rparr>) else Blocked)
           else Next (s\<lparr>fpc := (case feedError s of None \<Rightarrow> FeedReturned | Some e \<Rightarrow> FeedThrew e)\<rparr>))
      | _ \<Rightarrow> Blocked)"

text \<open>Coroutine \<open>i\<close>; \<open>thrown\<close> is what the call of the callable ends with, when this step ends one.\<close>

definition eater_step :: "nat \<Rightarrow> exception option \<Rightarrow> feed \<Rightarrow> feed outcome" where
  "eater_step i thrown s =
     (case eater s i of
        AtPop \<Rightarrow> bind_outcome (on_chan (buffered_pop i) s) (\<lambda>t. Next (set_eater i InPop t))
      | InPop \<Rightarrow>
          bind_outcome (on_chan (thread_step i) s)
            (\<lambda>t. case pop_result i (chan s) of
                   None \<Rightarrow> Next t
                 | Some (Some v) \<Rightarrow> Next (set_eater i (InFunc v) t)
                 | Some None \<Rightarrow> Next (set_eater i Releasing t))
      | InFunc v \<Rightarrow>
          (case thrown of None \<Rightarrow> Next (set_eater i AtPop s) | Some e \<Rightarrow> Next (set_eater i (Handling e) s))
      | Handling e \<Rightarrow> Next (set_eater i Releasing (s\<lparr>feedError := handleError e (feedError s)\<rparr>))
      | Releasing \<Rightarrow> bind_outcome (release i s) (\<lambda>t. Next (set_eater i ClosingReceiver t))
      | ClosingReceiver \<Rightarrow>
          (if notifies i (chan s) then on_chan (thread_step i) s else Next (set_eater i Finished s))
      | _ \<Rightarrow> Blocked)"

fun feed_step :: "nat \<Rightarrow> nat \<Rightarrow> (for_event, feed) machine" where
  "feed_step c n Caller s = feeder_step c n s"
| "feed_step c n (Coro i thrown) s = eater_step i thrown s"

section \<open>What a run shows\<close>

text \<open>The traffic of the channel, and the calls of the callable with what they throw.\<close>

datatype feed_note = Traffic "nat traffic" | Call call

fun chan_event :: "nat \<Rightarrow> for_event \<Rightarrow> feed \<Rightarrow> nat buffered_event option" where
  "chan_event n Caller s =
     (case fpc s of
        Dropping \<Rightarrow> if receiver_refs s = 1 then Some (CloseReceivers 0) else None
      | Dropped \<Rightarrow> if notifies 0 (chan s) then Some (Go 0) else None
      | Feeding k \<Rightarrow> if k < n then Some (Push 0 k) else None
      | InPush k \<Rightarrow> Some (Go 0)
      | ClosingSender \<Rightarrow> Some (CloseSenders 0)
      | ClosedSender \<Rightarrow> if notifies 0 (chan s) then Some (Go 0) else None
      | _ \<Rightarrow> None)"
| "chan_event n (Coro i thrown) s =
     (case eater s i of
        AtPop \<Rightarrow> Some (PopCall i)
      | InPop \<Rightarrow> Some (Go i)
      | Releasing \<Rightarrow> if receiver_refs s = 1 then Some (CloseReceivers i) else None
      | ClosingReceiver \<Rightarrow> if notifies i (chan s) then Some (Go i) else None
      | _ \<Rightarrow> None)"

definition traffic_obs :: "nat \<Rightarrow> for_event \<Rightarrow> feed \<Rightarrow> nat traffic list" where
  "traffic_obs n e s = (case chan_event n e s of None \<Rightarrow> [] | Some d \<Rightarrow> buffered_obs d (chan s))"

fun call_obs :: "for_event \<Rightarrow> feed \<Rightarrow> call list" where
  "call_obs Caller s = []"
| "call_obs (Coro i thrown) s =
     (case eater s i of
        InPop \<Rightarrow> (case pop_result i (chan s) of Some (Some v) \<Rightarrow> [Called i v] | _ \<Rightarrow> [])
      | InFunc v \<Rightarrow> (case thrown of None \<Rightarrow> [] | Some e \<Rightarrow> [Thrown i e])
      | _ \<Rightarrow> [])"

definition feed_obs :: "nat \<Rightarrow> for_event \<Rightarrow> feed \<Rightarrow> feed_note list" where
  "feed_obs n e s = map Traffic (traffic_obs n e s) @ map Call (call_obs e s)"

fun traffic_of :: "feed_note list \<Rightarrow> nat traffic list" where
  "traffic_of [] = []"
| "traffic_of (Traffic x # h) = x # traffic_of h"
| "traffic_of (Call x # h) = traffic_of h"

fun calls_of :: "feed_note list \<Rightarrow> call list" where
  "calls_of [] = []"
| "calls_of (Traffic x # h) = calls_of h"
| "calls_of (Call x # h) = x # calls_of h"

lemma note_append [simp]:
  "traffic_of (h @ g) = traffic_of h @ traffic_of g" "calls_of (h @ g) = calls_of h @ calls_of g"
  "traffic_of (map Traffic xs) = xs" "calls_of (map Traffic xs) = []"
  "traffic_of (map Call ys) = []" "calls_of (map Call ys) = ys"
  by (induction h rule: traffic_of.induct; simp) (induction h rule: traffic_of.induct; simp |
      induction xs; simp | induction ys; simp)+

lemma feed_obs_parts [simp]:
  "traffic_of (feed_obs n e s) = traffic_obs n e s" "calls_of (feed_obs n e s) = call_obs e s"
  by (simp_all add: feed_obs_def)


section \<open>The invariant\<close>

fun holds_ref :: "eater_pc \<Rightarrow> bool" where
  "holds_ref AtPop = True"
| "holds_ref InPop = True"
| "holds_ref (InFunc v) = True"
| "holds_ref (Handling e) = True"
| "holds_ref Releasing = True"
| "holds_ref p = False"

fun feeder_holds :: "feeder_pc \<Rightarrow> bool" where
  "feeder_holds (Making k) = True"
| "feeder_holds Dropping = True"
| "feeder_holds p = False"

text \<open>Where a coroutine and the caller are in the channel's code.\<close>

fun eater_place :: "eater_pc \<Rightarrow> place \<Rightarrow> bool" where
  "eater_place InPop q = (q = InPopCall)"
| "eater_place ClosingReceiver q = (q = Outside \<or> q = Notifying)"
| "eater_place p q = (q = Outside)"

fun feeder_place :: "feeder_pc \<Rightarrow> place \<Rightarrow> bool" where
  "feeder_place (InPush k) q = (q = InPushCall)"
| "feeder_place Dropped q = (q = Outside \<or> q = Notifying)"
| "feeder_place ClosedSender q = (q = Outside \<or> q = Notifying)"
| "feeder_place p q = (q = Outside)"

definition places_ok :: "feed \<Rightarrow> bool" where
  "places_ok s \<longleftrightarrow> feeder_place (fpc s) (place (chan s) 0) \<and>
     (\<forall>i. i \<noteq> 0 \<longrightarrow> eater_place (eater s i) (place (chan s) i))"

fun sender_gone :: "feeder_pc \<Rightarrow> bool" where
  "sender_gone ClosedSender = True"
| "sender_gone (Joining k) = True"
| "sender_gone FeedReturned = True"
| "sender_gone (FeedThrew e) = True"
| "sender_gone p = False"

definition refs_ok :: "feed \<Rightarrow> bool" where
  "refs_ok s \<longleftrightarrow> finite {i. holds_ref (eater s i)} \<and>
     receiver_refs s = (if feeder_holds (fpc s) then 1 else 0) + card {i. holds_ref (eater s i)} \<and>
     (mReceiverClosed (chan s) \<longleftrightarrow> receiver_refs s = 0) \<and> (mSenderClosed (chan s) \<longleftrightarrow> sender_gone (fpc s))"

text \<open>The coroutines created so far, and those known to be finished.\<close>

fun born_before :: "nat \<Rightarrow> feeder_pc \<Rightarrow> nat" where
  "born_before c (Making k) = k"
| "born_before c p = Suc c"

fun joined_before :: "nat \<Rightarrow> feeder_pc \<Rightarrow> nat" where
  "joined_before c (Joining k) = k"
| "joined_before c FeedReturned = Suc c"
| "joined_before c (FeedThrew e) = Suc c"
| "joined_before c p = 1"

definition eaters_ok :: "nat \<Rightarrow> feed \<Rightarrow> bool" where
  "eaters_ok c s \<longleftrightarrow> 0 < born_before c (fpc s) \<and> born_before c (fpc s) \<le> Suc c \<and>
     0 < joined_before c (fpc s) \<and> joined_before c (fpc s) \<le> Suc c \<and>
     (\<forall>i. eater s i = Unborn \<longleftrightarrow> i = 0 \<or> born_before c (fpc s) \<le> i) \<and>
     (\<forall>i. 0 < i \<and> i < joined_before c (fpc s) \<longrightarrow> eater s i = Finished)"

text \<open>What has been sent; the last flag tells that there was an error.\<close>

fun sent_ok :: "nat \<Rightarrow> feeder_pc \<Rightarrow> nat list \<Rightarrow> nat \<Rightarrow> bool \<Rightarrow> bool" where
  "sent_ok n (Making k) acc tr err = (acc = [] \<and> tr = 0)"
| "sent_ok n Dropping acc tr err = (acc = [] \<and> tr = 0)"
| "sent_ok n Dropped acc tr err = (acc = [] \<and> tr = 0)"
| "sent_ok n (Feeding k) acc tr err = (k \<le> n \<and> acc = [0..<k] \<and> tr = k)"
| "sent_ok n (InPush k) acc tr err = (k < n \<and> (acc = [0..<k] \<or> acc = [0..<Suc k]) \<and> tr = k)"
| "sent_ok n p acc tr err = (acc = [0..<n] \<or> err \<and> (\<exists>k \<le> n. acc = [0..<k]))"

definition sent_log :: "nat \<Rightarrow> feed \<Rightarrow> nat traffic list \<Rightarrow> bool" where
  "sent_log n s h \<longleftrightarrow> sent_ok n (fpc s) (accepted h) (true_pushes 0 h) (feedError s \<noteq> None) \<and>
     accepted_by 0 h = length (accepted h)"

fun ended :: "eater_pc \<Rightarrow> bool" where
  "ended Releasing = True"
| "ended ClosingReceiver = True"
| "ended Finished = True"
| "ended p = False"

definition ends_ok :: "feed \<Rightarrow> nat traffic list \<Rightarrow> bool" where
  "ends_ok s h \<longleftrightarrow> (\<forall>i. ended (eater s i) \<longrightarrow> feedError s \<noteq> None \<or> PopReturned i None \<in> set h)"

definition feed_errors :: "feed \<Rightarrow> call list \<Rightarrow> bool" where
  "feed_errors s h \<longleftrightarrow> set_option (feedError s) \<subseteq> set (exceptions h) \<and>
     (\<forall>i e. eater s i = Handling e \<longrightarrow> e \<in> set (exceptions h)) \<and>
     (exceptions h \<noteq> [] \<longrightarrow> feedError s \<noteq> None \<or> (\<exists>i e. eater s i = Handling e)) \<and>
     (fpc s = FeedReturned \<longrightarrow> feedError s = None) \<and> (\<forall>e. fpc s = FeedThrew e \<longrightarrow> feedError s = Some e)"

abbreviation chan_ok :: "nat \<Rightarrow> nat buffered \<Rightarrow> nat traffic list \<Rightarrow> bool" where
  "chan_ok c \<equiv> chan_state c (Suc c)"

lemmas chan_ok_def = chan_state_def

definition feed_inv :: "nat \<Rightarrow> nat \<Rightarrow> feed \<times> feed_note list \<Rightarrow> bool" where
  "feed_inv c n sh \<longleftrightarrow> chan_ok c (chan (fst sh)) (traffic_of (snd sh)) \<and> places_ok (fst sh) \<and>
     refs_ok (fst sh) \<and> eaters_ok c (fst sh) \<and> sent_log n (fst sh) (traffic_of (snd sh)) \<and>
     ends_ok (fst sh) (traffic_of (snd sh)) \<and>
     (\<forall>i. popped_by i (traffic_of (snd sh)) = called_by i (calls_of (snd sh))) \<and>
     (\<forall>i. eater (fst sh) i = Unborn \<longrightarrow> called_by i (calls_of (snd sh)) = []) \<and>
     feed_errors (fst sh) (calls_of (snd sh))"

lemma feed_invD:
  assumes "feed_inv c n (s, h)"
  shows "chan_ok c (chan s) (traffic_of h)" "places_ok s" "refs_ok s" "eaters_ok c s"
    "sent_log n s (traffic_of h)" "ends_ok s (traffic_of h)"
    "popped_by i (traffic_of h) = called_by i (calls_of h)" "feed_errors s (calls_of h)"
    "eater s i = Unborn \<Longrightarrow> called_by i (calls_of h) = []"
  using assms by (simp_all add: feed_inv_def)

lemma feed_invI:
  assumes "chan_ok c (chan t) (traffic_of h)" "places_ok t" "refs_ok t" "eaters_ok c t"
    "sent_log n t (traffic_of h)" "ends_ok t (traffic_of h)"
    "\<And>i. popped_by i (traffic_of h) = called_by i (calls_of h)" "feed_errors t (calls_of h)"
    "\<And>i. eater t i = Unborn \<Longrightarrow> called_by i (calls_of h) = []"
  shows "feed_inv c n (t, h)"
  using assms by (simp add: feed_inv_def)

section \<open>Steps of the channel\<close>

lemmas chan_push = state_push [where m = c and n = "Suc c" for c, unfolded less_Suc_eq_le]
lemmas chan_pop = state_pop [where m = c and n = "Suc c" for c, unfolded less_Suc_eq_le]
lemmas chan_closeReceiver = state_closeReceiver [where m = c and n = "Suc c" for c, unfolded less_Suc_eq_le]
lemmas chan_closeSender = state_closeSender [where m = c and n = "Suc c" for c, unfolded less_Suc_eq_le]
lemmas chan_go = state_go [where m = c and n = "Suc c" for c]

section \<open>Steps of a coroutine\<close>

lemma eater_born:
  assumes "eaters_ok c s" "eater s i \<noteq> Unborn"
  shows "i \<noteq> 0" "i \<le> c" "eater s i \<noteq> Finished \<Longrightarrow> joined_before c (fpc s) \<le> i"
  using assms unfolding eaters_ok_def by (auto simp: not_le)

lemma eater_keep:
  assumes inv: "feed_inv c n (s, h)" and i: "eater s i \<noteq> Unborn" "eater s i \<noteq> Finished" "p \<noteq> Unborn"
    and ch: "chan_ok c ch (traffic_of h @ tr)" "place ch = (place (chan s))(i := q)" "eater_place p q"
      "mSenderClosed ch = mSenderClosed (chan s)"
    and refs: "if holds_ref (eater s i) = holds_ref p
      then r = receiver_refs s \<and> mReceiverClosed ch = mReceiverClosed (chan s)
      else holds_ref (eater s i) \<and> r = receiver_refs s - 1 \<and> (mReceiverClosed ch \<longleftrightarrow> r = 0)"
    and tr: "accepted tr = []" "accepted_by 0 tr = 0" "true_pushes 0 tr = 0" "\<And>j. popped_by j tr = called_by j cs"
      "\<And>j. j \<noteq> i \<Longrightarrow> called_by j cs = []"
    and err: "err = feedError s \<or> err \<noteq> None"
    and endd: "ended p \<Longrightarrow> err \<noteq> None \<or> ended (eater s i) \<or> PopReturned i None \<in> set tr"
    and t: "t = s\<lparr>chan := ch, receiver_refs := r, eater := (eater s)(i := p), feedError := err\<rparr>"
    and errs: "feed_errors t (calls_of h @ cs)"
    and g: "traffic_of g = tr" "calls_of g = cs"
  shows "feed_inv c n (t, h @ g)"
proof (rule feed_invI)
  note F = feed_invD [OF inv]
  note born = eater_born [OF F(4) i(1)]
  show "chan_ok c (chan t) (traffic_of (h @ g))" using ch(1) by (simp add: t g)
  show "places_ok t" using F(2) ch(2,3) born(1) by (auto simp: places_ok_def t)
  show "refs_ok t"
  proof (cases "holds_ref (eater s i) = holds_ref p")
    case True
    then have "{j. holds_ref (eater t j)} = {j. holds_ref (eater s j)}" by (auto simp: t)
    with F(3) ch(4) refs True show ?thesis by (simp add: refs_ok_def t)
  next
    case False
    then have e: "{j. holds_ref (eater t j)} = {j. holds_ref (eater s j)} - {i}" "holds_ref (eater s i)"
      using refs by (auto simp: t)
    then have "card {j. holds_ref (eater s j)} = Suc (card {j. holds_ref (eater t j)})"
      using F(3) card_Suc_Diff1 [of "{j. holds_ref (eater s j)}" i] by (simp add: refs_ok_def)
    with F(3) ch(4) refs False e show ?thesis by (simp add: refs_ok_def t)
  qed
  show "eaters_ok c t"
    using F(4) born(1) born(3) [OF i(2)] i unfolding eaters_ok_def t by auto
  show "sent_log n t (traffic_of (h @ g))"
  proof -
    have "sent_ok n pc acc k (feedError s \<noteq> None) \<Longrightarrow> sent_ok n pc acc k (err \<noteq> None)" for pc acc k
      using err by (cases pc) auto
    with F(5) tr show ?thesis by (simp add: sent_log_def t g)
  qed
  show "ends_ok t (traffic_of (h @ g))"
    using F(6) endd err by (auto simp: ends_ok_def t g)
  show "popped_by j (traffic_of (h @ g)) = called_by j (calls_of (h @ g))" for j
    using F(7) tr(4) by (simp add: g)
  show "feed_errors t (calls_of (h @ g))" using errs by (simp add: g)
  show "called_by j (calls_of (h @ g)) = []" if "eater t j = Unborn" for j
    using that F(9) [of j] tr(5) [of j] i(3) by (cases "j = i") (simp_all add: t g)
qed


lemma feed_errors_keep:
  assumes "feed_errors s hs" "eater t = (eater s)(i := p)" "feedError t = feedError s" "fpc t = fpc s"
    and "\<And>e. eater s i \<noteq> Handling e" "\<And>e. p \<noteq> Handling e" "exceptions cs = []"
  shows "feed_errors t (hs @ cs)"
proof -
  have h: "(eater t j = Handling e) = (eater s j = Handling e)" for j e
    unfolding assms(2) using assms(5) [of e] assms(6) [of e] by (cases "j = i") simp_all
  have "exceptions (hs @ cs) = exceptions hs" using assms(7) by simp
  with assms(1) show ?thesis unfolding feed_errors_def assms(3,4) h by simp
qed

lemma holder_open:
  assumes "refs_ok s" "holds_ref (eater s i)"
  shows "\<not> mReceiverClosed (chan s)" "0 < receiver_refs s"
    "receiver_refs s = 1 \<Longrightarrow> holds_ref (eater s j) \<Longrightarrow> j = i" "receiver_refs s = 1 \<Longrightarrow> \<not> feeder_holds (fpc s)"
proof -
  have f: "finite {i. holds_ref (eater s i)}" "i \<in> {i. holds_ref (eater s i)}"
    using assms by (simp_all add: refs_ok_def)
  then have p: "0 < card {i. holds_ref (eater s i)}" using card_gt_0_iff by blast
  define n where "n = card {i. holds_ref (eater s i)}"
  have "receiver_refs s = (if feeder_holds (fpc s) then 1 else 0) + n" "0 < n"
    "mReceiverClosed (chan s) \<longleftrightarrow> receiver_refs s = 0"
    using assms(1) p unfolding refs_ok_def n_def by blast+
  then show "\<not> mReceiverClosed (chan s)" "0 < receiver_refs s"
    "receiver_refs s = 1 \<Longrightarrow> \<not> feeder_holds (fpc s)"
    by (simp_all split: if_splits)
  show "j = i" if "receiver_refs s = 1" "holds_ref (eater s j)"
  proof -
    have "card {i. holds_ref (eater s i)} = 1"
      using assms(1) that(1) p by (auto simp: refs_ok_def split: if_splits)
    then obtain k where "{i. holds_ref (eater s i)} = {k}" using card_1_singletonE by blast
    with that(2) f(2) show ?thesis by auto
  qed
qed

text \<open>Giving up a copy of the receiver: what it does to the channel.\<close>

lemma release_spec:
  assumes inv: "feed_inv c n (s, h)" and i: "i \<le> c" "place (chan s) i = Outside"
    and one: "0 < receiver_refs s" "receiver_refs s = 1 \<Longrightarrow> \<forall>k. place (chan s) k \<noteq> InPopCall"
  shows "\<exists>ch p. release i s = Next (s\<lparr>chan := ch, receiver_refs := receiver_refs s - 1\<rparr>) \<and>
    chan_ok c ch (traffic_of h) \<and> place ch = (place (chan s))(i := p) \<and> (p = Outside \<or> p = Notifying) \<and>
    (mReceiverClosed ch \<longleftrightarrow> receiver_refs s - 1 = 0) \<and> mSenderClosed ch = mSenderClosed (chan s)"
proof -
  have ok: "chan_ok c (chan s) (traffic_of h)" and r: "refs_ok s" using feed_invD [OF inv] by blast+
  have open': "\<not> mReceiverClosed (chan s)" using r one(1) by (simp add: refs_ok_def)
  show ?thesis
  proof (cases "receiver_refs s = 1")
    case True
    obtain ch p where c: "buffered_closeReceiver i (chan s) = Next ch" "chan_ok c ch (traffic_of h)"
      "place ch = (place (chan s))(i := p)" "p = Outside \<or> p = Notifying" "mReceiverClosed ch"
      "mSenderClosed ch = mSenderClosed (chan s)"
      using chan_closeReceiver [OF ok i open'] one(2) [OF True] by blast
    have "release i s = Next (s\<lparr>chan := ch, receiver_refs := receiver_refs s - 1\<rparr>)"
      using True c(1) by (simp add: release_def on_chan_def)
    with c True show ?thesis by (intro exI [of _ ch] exI [of _ p]) simp
  next
    case False
    have "place (chan s) = (place (chan s))(i := Outside)" using i(2) by (simp add: fun_upd_idem)
    with False one(1) ok open' show ?thesis
      by (intro exI [of _ "chan s"] exI [of _ Outside]) (simp add: release_def Let_def)
  qed
qed

lemma eater_facts:
  assumes "feed_inv c n (s, h)" "eater s i \<noteq> Unborn"
  shows "i \<noteq> 0" "i \<le> c" "eater_place (eater s i) (place (chan s) i)"
  using eater_born [OF feed_invD(4) [OF assms(1)] assms(2)] feed_invD(2) [OF assms(1)]
  by (auto simp: places_ok_def)

abbreviation eater_safe :: "nat \<Rightarrow> nat \<Rightarrow> feed \<Rightarrow> feed_note list \<Rightarrow> nat \<Rightarrow> exception option \<Rightarrow> bool" where
  "eater_safe c n s h i thrown \<equiv>
     safely (\<lambda>t. feed_inv c n (t, h @ feed_obs n (Coro i thrown) s)) (eater_step i thrown s)"

lemma at_pop_inv:
  assumes inv: "feed_inv c n (s, h)" and pc: "eater s i = AtPop"
  shows "eater_safe c n s h i thrown"
proof -
  note F = feed_invD [OF inv]
  have live: "eater s i \<noteq> Unborn" "eater s i \<noteq> Finished" using pc by simp_all
  note i = eater_facts(1,2) [OF inv live(1)] and pl = eater_facts(3) [OF inv live(1)]
  note keep = eater_keep [OF inv live]
  have stay: "place (chan s) = (place (chan s))(i := place (chan s) i)" by simp
  from pc pl have "place (chan s) i = Outside" by simp
  moreover have "\<not> mReceiverClosed (chan s)" using holder_open(1) [OF F(3), of i] pc by simp
  ultimately obtain ch where ch: "buffered_pop i (chan s) = Next ch"
    "chan_ok c ch (traffic_of h @ buffered_obs (PopCall i) (chan s))"
    "place ch = (place (chan s))(i := InPopCall)" "mSenderClosed ch = mSenderClosed (chan s)"
    "mReceiverClosed ch = mReceiverClosed (chan s)"
    using chan_pop [OF F(1) i(2)] by blast
  have "feed_inv c n (s\<lparr>chan := ch, receiver_refs := receiver_refs s, eater := (eater s)(i := InPop),
      feedError := feedError s\<rparr>, h @ feed_obs n (Coro i thrown) s)"
    by (rule keep [OF _ ch(2,3), where r = "receiver_refs s" and p = InPop and cs = "[]"])
      (use pc ch in \<open>auto simp: traffic_obs_def split: list.split intro!: feed_errors_keep [OF F(8), where i = i and p = InPop and cs = "[]", simplified]\<close>)
  then show ?thesis using pc ch(1) by (simp add: eater_step_def on_chan_def set_eater_def)
qed

lemma in_pop_inv:
  assumes inv: "feed_inv c n (s, h)" and pc: "eater s i = InPop"
  shows "eater_safe c n s h i thrown"
proof -
  note F = feed_invD [OF inv]
  have live: "eater s i \<noteq> Unborn" "eater s i \<noteq> Finished" using pc by simp_all
  note i = eater_facts(1,2) [OF inv live(1)] and pl = eater_facts(3) [OF inv live(1)]
  note keep = eater_keep [OF inv live]
  have stay: "place (chan s) = (place (chan s))(i := place (chan s) i)" by simp
  from pc pl have p: "place (chan s) i = InPopCall" by simp
  show ?thesis
  proof (cases "thread_step i (chan s) = Blocked")
    case True
    with pc show ?thesis by (simp add: eater_step_def on_chan_def)
  next
    case goes: False
    obtain ch where ch: "thread_step i (chan s) = Next ch"
      "chan_ok c ch (traffic_of h @ buffered_obs (Go i) (chan s))"
      "place ch = (place (chan s))(i := if pop_result i (chan s) = None then InPopCall else Outside)"
      "mSenderClosed ch = mSenderClosed (chan s)" "mReceiverClosed ch = mReceiverClosed (chan s)"
      using chan_go [OF F(1) goes] p by auto
    define q where "q = (case pop_result i (chan s) of None \<Rightarrow> InPop | Some (Some v) \<Rightarrow> InFunc v | Some None \<Rightarrow> Releasing)"
    define cs where "cs = call_obs (Coro i thrown) s"
    have obs: "buffered_obs (Go i) (chan s) = (case pop_result i (chan s) of None \<Rightarrow> [] | Some x \<Rightarrow> [PopReturned i x])"
      by (rule obs_go_pop [OF p])
    have "feed_inv c n (s\<lparr>chan := ch, receiver_refs := receiver_refs s, eater := (eater s)(i := q),
        feedError := feedError s\<rparr>, h @ feed_obs n (Coro i thrown) s)"
    proof (rule keep [OF _ ch(2,3), where r = "receiver_refs s" and p = q and cs = cs])
      show "feed_errors (s\<lparr>chan := ch, receiver_refs := receiver_refs s, eater := (eater s)(i := q),
        feedError := feedError s\<rparr>) (calls_of h @ cs)"
        by (rule feed_errors_keep [OF F(8), where i = i and p = q])
          (use pc in \<open>auto simp: q_def cs_def split: option.split\<close>)
    qed (use pc ch(4,5) in \<open>auto simp: q_def cs_def obs traffic_obs_def simp del: buffered_obs.simps split: option.splits\<close>)
    moreover have "eater_step i thrown s = Next (s\<lparr>chan := ch, eater := (eater s)(i := q)\<rparr>)"
      using pc ch(1) fun_upd_idem [of "eater s" i InPop]
      by (auto simp: eater_step_def on_chan_def set_eater_def q_def split: option.split)
    ultimately show ?thesis by simp
  qed
qed

lemma in_func_inv:
  assumes inv: "feed_inv c n (s, h)" and pc: "eater s i = InFunc v"
  shows "eater_safe c n s h i thrown"
proof -
  note F = feed_invD [OF inv]
  have live: "eater s i \<noteq> Unborn" "eater s i \<noteq> Finished" using pc by simp_all
  note i = eater_facts(1,2) [OF inv live(1)] and pl = eater_facts(3) [OF inv live(1)]
  note keep = eater_keep [OF inv live]
  have stay: "place (chan s) = (place (chan s))(i := place (chan s) i)" by simp
  define q where "q = (case thrown of None \<Rightarrow> AtPop | Some e \<Rightarrow> Handling e)"
  define cs where "cs = call_obs (Coro i thrown) s"
  have cs: "cs = (case thrown of None \<Rightarrow> [] | Some e \<Rightarrow> [Thrown i e])" using pc by (simp add: cs_def)
  have "feed_inv c n (s\<lparr>chan := chan s, receiver_refs := receiver_refs s, eater := (eater s)(i := q),
      feedError := feedError s\<rparr>, h @ feed_obs n (Coro i thrown) s)"
  proof (rule keep [OF _ _ stay, where r = "receiver_refs s" and p = q and cs = cs and tr = "[]"])
    show "feed_errors (s\<lparr>chan := chan s, receiver_refs := receiver_refs s, eater := (eater s)(i := q),
        feedError := feedError s\<rparr>) (calls_of h @ cs)"
    proof (cases thrown)
      case None
      show ?thesis
        by (rule feed_errors_keep [OF F(8), where i = i and p = q]) (use None pc in \<open>auto simp: q_def cs\<close>)
    next
      case (Some e)
      with F(8) pc show ?thesis by (auto simp: feed_errors_def q_def cs)
    qed
  qed (use pc F(1) pl in \<open>auto simp: q_def cs traffic_obs_def split: option.splits\<close>)
  then show ?thesis using pc
    by (auto simp: eater_step_def set_eater_def q_def split: option.split)
qed

lemma handling_inv:
  assumes inv: "feed_inv c n (s, h)" and pc: "eater s i = Handling e"
  shows "eater_safe c n s h i thrown"
proof -
  note F = feed_invD [OF inv]
  have live: "eater s i \<noteq> Unborn" "eater s i \<noteq> Finished" using pc by simp_all
  note i = eater_facts(1,2) [OF inv live(1)] and pl = eater_facts(3) [OF inv live(1)]
  note keep = eater_keep [OF inv live]
  have stay: "place (chan s) = (place (chan s))(i := place (chan s) i)" by simp
  have "feed_inv c n (s\<lparr>chan := chan s, receiver_refs := receiver_refs s, eater := (eater s)(i := Releasing),
      feedError := handleError e (feedError s)\<rparr>, h @ feed_obs n (Coro i thrown) s)"
  proof (rule keep [OF _ _ stay, where r = "receiver_refs s" and p = Releasing and cs = "[]" and tr = "[]"])
    show "feed_errors (s\<lparr>chan := chan s, receiver_refs := receiver_refs s, eater := (eater s)(i := Releasing),
        feedError := handleError e (feedError s)\<rparr>) (calls_of h @ [])"
      using F(8) pc F(4) live handleError_Some [of e "feedError s"] eater_born(3) [OF F(4) live] i
      by (cases "fpc s") (auto simp: feed_errors_def)
  qed (use pc F(1) pl handleError_Some in \<open>auto simp: traffic_obs_def\<close>)
  moreover have "eater_step i thrown s = Next (s\<lparr>chan := chan s, receiver_refs := receiver_refs s,
      eater := (eater s)(i := Releasing), feedError := handleError e (feedError s)\<rparr>)"
    using pc by (cases s) (simp add: eater_step_def set_eater_def)
  ultimately show ?thesis by simp
qed

lemma releasing_inv:
  assumes inv: "feed_inv c n (s, h)" and pc: "eater s i = Releasing"
  shows "eater_safe c n s h i thrown"
proof -
  note F = feed_invD [OF inv]
  have live: "eater s i \<noteq> Unborn" "eater s i \<noteq> Finished" using pc by simp_all
  note i = eater_facts(1,2) [OF inv live(1)] and pl = eater_facts(3) [OF inv live(1)]
  note keep = eater_keep [OF inv live]
  have stay: "place (chan s) = (place (chan s))(i := place (chan s) i)" by simp
  have hr: "holds_ref (eater s i)" using pc by simp
  note H = holder_open [OF F(3) hr]
  have "\<forall>k. place (chan s) k \<noteq> InPopCall" if one: "receiver_refs s = 1"
  proof
    fix k
    show "place (chan s) k \<noteq> InPopCall"
    proof (cases "k = 0")
      case True
      with F(2) show ?thesis by (cases "fpc s") (auto simp: places_ok_def)
    next
      case False
      then have "eater_place (eater s k) (place (chan s) k)" using F(2) by (simp add: places_ok_def)
      with H(3) [OF one, of k] pc show ?thesis by (cases "eater s k") auto
    qed
  qed
  with pc pl obtain ch p where r: "release i s = Next (s\<lparr>chan := ch, receiver_refs := receiver_refs s - 1\<rparr>)"
    "chan_ok c ch (traffic_of h)" "place ch = (place (chan s))(i := p)" "p = Outside \<or> p = Notifying"
    "mReceiverClosed ch \<longleftrightarrow> receiver_refs s - 1 = 0" "mSenderClosed ch = mSenderClosed (chan s)"
    using release_spec [OF inv i(2) _ H(2)] by auto
  have obs: "feed_obs n (Coro i thrown) s = []"
    using pc by (simp add: feed_obs_def traffic_obs_def)
  have "feed_inv c n (s\<lparr>chan := ch, receiver_refs := receiver_refs s - 1, eater := (eater s)(i := ClosingReceiver),
      feedError := feedError s\<rparr>, h @ [])"
  proof (rule keep [OF _ _ r(3), where r = "receiver_refs s - 1" and p = ClosingReceiver and cs = "[]" and tr = "[]"])
    show "feed_errors (s\<lparr>chan := ch, receiver_refs := receiver_refs s - 1, eater := (eater s)(i := ClosingReceiver),
        feedError := feedError s\<rparr>) (calls_of h @ [])"
      by (rule feed_errors_keep [OF F(8), where i = i and p = ClosingReceiver]) (use pc in auto)
  qed (use pc r in auto)
  then show ?thesis using pc r(1) obs by (simp add: eater_step_def set_eater_def)
qed

lemma closing_inv:
  assumes inv: "feed_inv c n (s, h)" and pc: "eater s i = ClosingReceiver"
  shows "eater_safe c n s h i thrown"
proof -
  note F = feed_invD [OF inv]
  have live: "eater s i \<noteq> Unborn" "eater s i \<noteq> Finished" using pc by simp_all
  note i = eater_facts(1,2) [OF inv live(1)] and pl = eater_facts(3) [OF inv live(1)]
  note keep = eater_keep [OF inv live]
  have stay: "place (chan s) = (place (chan s))(i := place (chan s) i)" by simp
  show ?thesis
  proof (cases "notifies i (chan s)")
    case True
    have p: "place (chan s) i = Notifying"
      using pc pl True placeD(3) [of "chan s" i] by auto
    have "buffered_inv (Suc c) (chan s)" using F(1) by (simp add: chan_ok_def)
    from notifying_goes_on [OF this p] obtain ch q where ch: "thread_step i (chan s) = Next ch"
      "chan_ok c ch (traffic_of h @ buffered_obs (Go i) (chan s))"
      "place ch = (place (chan s))(i := q)" "q = Notifying \<or> q = Outside"
      "mSenderClosed ch = mSenderClosed (chan s)" "mReceiverClosed ch = mReceiverClosed (chan s)"
      using chan_go [OF F(1)] p by (metis moved.simps(4))
    have obs: "feed_obs n (Coro i thrown) s = []"
      using pc True by (simp add: feed_obs_def traffic_obs_def)
    have "feed_inv c n (s\<lparr>chan := ch, receiver_refs := receiver_refs s, eater := (eater s)(i := ClosingReceiver),
        feedError := feedError s\<rparr>, h @ [])"
    proof (rule keep [OF _ _ ch(3), where r = "receiver_refs s" and p = ClosingReceiver and cs = "[]" and tr = "[]"])
      show "feed_errors (s\<lparr>chan := ch, receiver_refs := receiver_refs s, eater := (eater s)(i := ClosingReceiver),
          feedError := feedError s\<rparr>) (calls_of h @ [])"
        by (rule feed_errors_keep [OF F(8), where i = i and p = ClosingReceiver]) (use pc in auto)
    qed (use pc ch True in auto)
    moreover have "(eater s)(i := ClosingReceiver) = eater s" using pc by (simp add: fun_upd_idem)
    ultimately show ?thesis using pc True ch(1) obs by (simp add: eater_step_def on_chan_def)
  next
    case False
    have p: "place (chan s) i = Outside"
      using pc pl False by (auto simp: place_def split: if_splits)
    have obs: "feed_obs n (Coro i thrown) s = []"
      using pc False by (simp add: feed_obs_def traffic_obs_def)
    have "feed_inv c n (s\<lparr>chan := chan s, receiver_refs := receiver_refs s, eater := (eater s)(i := Finished),
        feedError := feedError s\<rparr>, h @ [])"
    proof (rule keep [OF _ _ stay, where r = "receiver_refs s" and p = Finished and cs = "[]" and tr = "[]"])
      show "feed_errors (s\<lparr>chan := chan s, receiver_refs := receiver_refs s, eater := (eater s)(i := Finished),
          feedError := feedError s\<rparr>) (calls_of h @ [])"
        by (rule feed_errors_keep [OF F(8), where i = i and p = Finished]) (use pc in auto)
    qed (use pc F(1) p in auto)
    then show ?thesis using pc False obs by (simp add: eater_step_def set_eater_def)
  qed
qed

lemma eater_step_inv:
  assumes inv: "feed_inv c n (s, h)"
  shows "eater_safe c n s h i thrown"
proof (cases "eater s i")
  case AtPop
  then show ?thesis by (rule at_pop_inv [OF inv])
next
  case InPop
  then show ?thesis by (rule in_pop_inv [OF inv])
next
  case (InFunc v)
  then show ?thesis by (rule in_func_inv [OF inv])
next
  case (Handling e)
  then show ?thesis by (rule handling_inv [OF inv])
next
  case Releasing
  then show ?thesis by (rule releasing_inv [OF inv])
next
  case ClosingReceiver
  then show ?thesis by (rule closing_inv [OF inv])
qed (simp_all add: eater_step_def)

section \<open>Steps of the caller\<close>

text \<open>A step of the caller that leaves the coroutines alone.\<close>

lemma feeder_keep:
  assumes inv: "feed_inv c n (s, h)"
    and ch: "chan_ok c ch (traffic_of h @ tr)" "place ch = (place (chan s))(0 := q)" "feeder_place p q"
      "mSenderClosed ch \<longleftrightarrow> sender_gone p"
    and refs: "if feeder_holds (fpc s) = feeder_holds p
      then r = receiver_refs s \<and> mReceiverClosed ch = mReceiverClosed (chan s)
      else feeder_holds (fpc s) \<and> r = receiver_refs s - 1 \<and> (mReceiverClosed ch \<longleftrightarrow> r = 0)"
    and counts: "born_before c p = born_before c (fpc s)" "0 < joined_before c p" "joined_before c p \<le> Suc c"
      "\<And>i. joined_before c (fpc s) \<le> i \<Longrightarrow> i < joined_before c p \<Longrightarrow> eater s i = Finished"
    and sent: "sent_ok n p (accepted (traffic_of h @ tr)) (true_pushes 0 (traffic_of h @ tr)) (feedError s \<noteq> None)"
    and tr: "accepted_by 0 tr = length (accepted tr)" "\<And>j. popped_by j tr = []"
    and errs: "p = FeedReturned \<Longrightarrow> feedError s = None" "\<And>e. p = FeedThrew e \<Longrightarrow> feedError s = Some e"
    and g: "traffic_of g = tr" "calls_of g = []"
  shows "feed_inv c n (s\<lparr>chan := ch, receiver_refs := r, fpc := p\<rparr>, h @ g)" (is "feed_inv c n (?t, _)")
proof (rule feed_invI)
  note F = feed_invD [OF inv]
  show "chan_ok c (chan ?t) (traffic_of (h @ g))" using ch(1) by (simp add: g)
  show "places_ok ?t" using F(2) ch(2,3) by (auto simp: places_ok_def)
  show "refs_ok ?t"
  proof (cases "feeder_holds (fpc s) = feeder_holds p")
    case True
    with F(3) ch(4) refs show ?thesis by (simp add: refs_ok_def)
  next
    case False
    with F(3) ch(4) refs show ?thesis by (auto simp: refs_ok_def)
  qed
  show "eaters_ok c ?t"
  proof -
    have "eater s i = Finished" if "0 < i" "i < joined_before c p" for i
      using F(4) counts(4) [of i] that by (cases "i < joined_before c (fpc s)") (auto simp: eaters_ok_def)
    with F(4) counts(1-3) show ?thesis by (simp add: eaters_ok_def)
  qed
  show "sent_log n ?t (traffic_of (h @ g))" using F(5) sent tr(1) by (simp add: sent_log_def g)
  show "ends_ok ?t (traffic_of (h @ g))" using F(6) by (auto simp: ends_ok_def g)
  show "popped_by j (traffic_of (h @ g)) = called_by j (calls_of (h @ g))" for j
    using F(7) tr(2) by (simp add: g)
  show "feed_errors ?t (calls_of (h @ g))" using F(8) errs by (simp add: feed_errors_def g)
  show "called_by j (calls_of (h @ g)) = []" if "eater ?t j = Unborn" for j
    using that F(9) [of j] by (simp add: g)
qed

abbreviation feeder_safe :: "nat \<Rightarrow> nat \<Rightarrow> feed \<Rightarrow> feed_note list \<Rightarrow> bool" where
  "feeder_safe c n s h \<equiv> safely (\<lambda>t. feed_inv c n (t, h @ feed_obs n Caller s)) (feeder_step c n s)"

lemma feeder_facts:
  assumes "feed_inv c n (s, h)"
  shows "feeder_place (fpc s) (place (chan s) 0)" "mSenderClosed (chan s) \<longleftrightarrow> sender_gone (fpc s)"
    "0 < joined_before c (fpc s)" "joined_before c (fpc s) \<le> Suc c"
    "sent_ok n (fpc s) (accepted (traffic_of h)) (true_pushes 0 (traffic_of h)) (feedError s \<noteq> None)"
    "accepted_by 0 (traffic_of h) = length (accepted (traffic_of h))"
  using feed_invD(2-5) [OF assms] by (simp_all add: places_ok_def refs_ok_def eaters_ok_def sent_log_def)

text \<open>The caller alone: no channel operation.\<close>

lemma feeder_local:
  assumes inv: "feed_inv c n (s, h)" and "feeder_place p (place (chan s) 0)" "sender_gone p = sender_gone (fpc s)"
    and "feeder_holds p = feeder_holds (fpc s)"
    and "born_before c p = born_before c (fpc s)" "0 < joined_before c p" "joined_before c p \<le> Suc c"
    and "\<And>i. joined_before c (fpc s) \<le> i \<Longrightarrow> i < joined_before c p \<Longrightarrow> eater s i = Finished"
    and "sent_ok n p (accepted (traffic_of h)) (true_pushes 0 (traffic_of h)) (feedError s \<noteq> None)"
    and "p = FeedReturned \<Longrightarrow> feedError s = None" "\<And>e. p = FeedThrew e \<Longrightarrow> feedError s = Some e"
  shows "feed_inv c n (s\<lparr>fpc := p\<rparr>, h)"
proof -
  have "feed_inv c n (s\<lparr>chan := chan s, receiver_refs := receiver_refs s, fpc := p\<rparr>, h @ [])"
    by (rule feeder_keep [OF inv, where tr = "[]" and q = "place (chan s) 0"])
      (use assms feed_invD(1) [OF inv] feeder_facts(2) [OF inv] in simp_all)
  then show ?thesis by simp
qed

lemma making_refs:
  assumes r: "refs_ok s" and pc: "fpc s = Making k" and k: "eater s k = Unborn"
  shows "refs_ok (set_eater k AtPop (s\<lparr>receiver_refs := receiver_refs s + 1, fpc := Making (k + 1)\<rparr>))"
    (is "refs_ok ?t")
proof -
  define A where "A = {i. holds_ref (eater s i)}"
  have eq: "{i. holds_ref (eater ?t i)} = insert k A"
    by (auto simp: set_eater_def A_def)
  have A: "finite A" "receiver_refs s = 1 + card A" "mReceiverClosed (chan s) \<longleftrightarrow> receiver_refs s = 0"
    "\<not> mSenderClosed (chan s)" "k \<notin> A"
    using r pc k unfolding refs_ok_def A_def by auto
  have t: "receiver_refs ?t = receiver_refs s + 1" "chan ?t = chan s" "fpc ?t = Making (k + 1)"
    by (simp_all add: set_eater_def)
  have "card (insert k A) = Suc (card A)" "finite (insert k A)" using A(1,5) by simp_all
  then show ?thesis unfolding refs_ok_def eq t using A(2-4) by simp
qed

lemma making_inv:
  assumes inv: "feed_inv c n (s, h)" and pc: "fpc s = Making k"
  shows "feeder_safe c n s h"
proof (cases "k \<le> c")
  case True
  let ?t = "set_eater k AtPop (s\<lparr>receiver_refs := receiver_refs s + 1, fpc := Making (k + 1)\<rparr>)"
  note F = feed_invD [OF inv]
  have k: "0 < k" "eater s k = Unborn" "\<And>i. eater s i = Unborn \<longleftrightarrow> i = 0 \<or> k \<le> i"
    using F(4) pc by (auto simp: eaters_ok_def)
  have obs: "feed_obs n Caller s = []" using pc by (simp add: feed_obs_def traffic_obs_def)
  have "feed_inv c n (?t, h)"
  proof (rule feed_invI)
    have "eater_place (eater s k) (place (chan s) k)" using F(2) k(1) by (simp add: places_ok_def)
    then show "places_ok ?t" using F(2) pc k(1,2) by (auto simp: places_ok_def set_eater_def)
    show "refs_ok ?t" by (rule making_refs [OF F(3) pc k(2)])
    have t: "fpc ?t = Making (k + 1)" by (simp add: set_eater_def)
    have e: "eater ?t i = Unborn \<longleftrightarrow> i = 0 \<or> k + 1 \<le> i" for i
      using k(1) k(3) [of i] by (cases "i = k") (auto simp: set_eater_def)
    show "eaters_ok c ?t" unfolding eaters_ok_def e t using True by simp
    have "\<not> ended (eater ?t k)" by (simp add: set_eater_def)
    show "ends_ok ?t (traffic_of h)" using F(6) by (auto simp: ends_ok_def set_eater_def)
    show "feed_errors ?t (calls_of h)"
    proof -
      have e: "(eater ?t i = Handling e) = (eater s i = Handling e)" for i e
        using k(2) by (cases "i = k") (simp_all add: set_eater_def)
      show ?thesis using F(8) pc unfolding feed_errors_def e by (simp add: set_eater_def)
    qed
    show "called_by i (calls_of h) = []" if "eater ?t i = Unborn" for i
      using that F(9) [of i] by (cases "i = k") (simp_all add: set_eater_def)
  qed (use F pc in \<open>auto simp: set_eater_def sent_log_def\<close>)
  then show ?thesis using pc True obs by (simp add: feeder_step_def)
next
  case False
  have "feed_inv c n (s\<lparr>fpc := Dropping\<rparr>, h)"
    by (rule feeder_local [OF inv]) (use pc False feeder_facts [OF inv] feed_invD(4) [OF inv] in \<open>auto simp: eaters_ok_def\<close>)
  with pc False show ?thesis by (simp add: feeder_step_def feed_obs_def traffic_obs_def)
qed


lemma no_pop_place:
  assumes inv: "feed_inv c n (s, h)" and "\<And>i. eater s i \<noteq> InPop"
  shows "place (chan s) k \<noteq> InPopCall"
proof (cases "k = 0")
  case True
  with feeder_facts(1) [OF inv] show ?thesis by (cases "fpc s") auto
next
  case False
  then have "eater_place (eater s k) (place (chan s) k)"
    using feed_invD(2) [OF inv] by (simp add: places_ok_def)
  with assms(2) [of k] show ?thesis by (cases "eater s k") auto
qed

lemma no_push_place:
  assumes inv: "feed_inv c n (s, h)" and "\<And>j. fpc s \<noteq> InPush j"
  shows "place (chan s) k \<noteq> InPushCall"
proof (cases "k = 0")
  case True
  with feeder_facts(1) [OF inv] assms(2) show ?thesis by (cases "fpc s") auto
next
  case False
  then have "eater_place (eater s k) (place (chan s) k)"
    using feed_invD(2) [OF inv] by (simp add: places_ok_def)
  then show ?thesis by (cases "eater s k") auto
qed

lemma no_holders:
  assumes "refs_ok s" "feeder_holds (fpc s)" "receiver_refs s = 1"
  shows "\<not> holds_ref (eater s i)"
proof -
  have "finite {i. holds_ref (eater s i)}" "card {i. holds_ref (eater s i)} = 0"
    using assms unfolding refs_ok_def by simp_all
  then show ?thesis by auto
qed

lemma dropping_inv:
  assumes inv: "feed_inv c n (s, h)" and pc: "fpc s = Dropping"
  shows "feeder_safe c n s h"
proof -
  note F = feed_invD [OF inv] and L = feeder_facts [OF inv]
  have one: "0 < receiver_refs s" using F(3) pc by (simp add: refs_ok_def)
  have "eater s i \<noteq> InPop" if "receiver_refs s = 1" for i
    using no_holders [OF F(3) _ that, of i] pc by auto
  then have "receiver_refs s = 1 \<Longrightarrow> \<forall>k. place (chan s) k \<noteq> InPopCall"
    using no_pop_place [OF inv] by blast
  with L(1) pc one obtain ch p where r: "release 0 s = Next (s\<lparr>chan := ch, receiver_refs := receiver_refs s - 1\<rparr>)"
    "chan_ok c ch (traffic_of h)" "place ch = (place (chan s))(0 := p)" "p = Outside \<or> p = Notifying"
    "mReceiverClosed ch \<longleftrightarrow> receiver_refs s - 1 = 0" "mSenderClosed ch = mSenderClosed (chan s)"
    using release_spec [OF inv, of 0] by auto
  have obs: "feed_obs n Caller s = []" using pc by (simp add: feed_obs_def traffic_obs_def)
  have "feed_inv c n (s\<lparr>chan := ch, receiver_refs := receiver_refs s - 1, fpc := Dropped\<rparr>, h @ [])"
    by (rule feeder_keep [OF inv _ r(3), where tr = "[]"]) (use r pc L in auto)
  then show ?thesis using pc r(1) obs by (simp add: feeder_step_def)
qed

text \<open>Delivering the notices of a close.\<close>

lemma delivering_inv:
  assumes inv: "feed_inv c n (s, h)" and p: "place (chan s) 0 = Notifying"
    and at: "fpc s = Dropped \<or> fpc s = ClosedSender"
  shows "safely (\<lambda>t. feed_inv c n (t, h)) (on_chan (thread_step 0) s)"
proof -
  note F = feed_invD [OF inv] and L = feeder_facts [OF inv]
  have b: "buffered_inv (Suc c) (chan s)" using F(1) by (simp add: chan_ok_def)
  have obs: "buffered_obs (Go 0) (chan s) = []" using p by (simp add: place_def split: if_splits)
  obtain ch q where ch: "thread_step 0 (chan s) = Next ch" "chan_ok c ch (traffic_of h)"
    "place ch = (place (chan s))(0 := q)" "q = Notifying \<or> q = Outside"
    "mSenderClosed ch = mSenderClosed (chan s)" "mReceiverClosed ch = mReceiverClosed (chan s)"
    using chan_go [OF F(1) notifying_goes_on [OF b p]] p obs
    by (auto simp del: buffered_obs.simps)
  have "feed_inv c n (s\<lparr>chan := ch, receiver_refs := receiver_refs s, fpc := fpc s\<rparr>, h @ [])"
    by (rule feeder_keep [OF inv _ ch(3), where tr = "[]"]) (use ch at L in auto)
  then show ?thesis using ch(1) by (simp add: on_chan_def)
qed

lemma dropped_inv:
  assumes inv: "feed_inv c n (s, h)" and pc: "fpc s = Dropped"
  shows "feeder_safe c n s h"
proof (cases "notifies 0 (chan s)")
  case True
  then have "place (chan s) 0 = Notifying"
    using feeder_facts(1) [OF inv] pc placeD(3) [of "chan s" 0] by auto
  from delivering_inv [OF inv this] pc True show ?thesis
    by (simp add: feeder_step_def feed_obs_def traffic_obs_def)
next
  case False
  then have "place (chan s) 0 = Outside"
    using feeder_facts(1) [OF inv] pc by (auto simp: place_def split: if_splits)
  then have "feed_inv c n (s\<lparr>fpc := Feeding 0\<rparr>, h)"
    by (intro feeder_local [OF inv]) (use pc feeder_facts [OF inv] in auto)
  with pc False show ?thesis by (simp add: feeder_step_def feed_obs_def traffic_obs_def)
qed

lemma feeding_inv:
  assumes inv: "feed_inv c n (s, h)" and pc: "fpc s = Feeding k"
  shows "feeder_safe c n s h"
proof (cases "k < n")
  case True
  note F = feed_invD [OF inv] and L = feeder_facts [OF inv]
  define tr where "tr = buffered_obs (Push 0 k) (chan s)"
  obtain ch where ch: "buffered_push 0 k (chan s) = Next ch" "chan_ok c ch (traffic_of h @ tr)"
    "place ch = (place (chan s))(0 := InPushCall)" "mSenderClosed ch = mSenderClosed (chan s)"
    "mReceiverClosed ch = mReceiverClosed (chan s)"
    using chan_push [OF F(1), of 0 k] L(1,2) pc by (auto simp: tr_def)
  have tr: "accepted tr = [] \<and> accepted_by 0 tr = 0 \<or> accepted tr = [k] \<and> accepted_by 0 tr = 1"
    "true_pushes 0 tr = 0" "popped_by j tr = []" for j
    by (auto simp: tr_def)
  have obs: "traffic_of (feed_obs n Caller s) = tr" "calls_of (feed_obs n Caller s) = []"
    using pc True by (simp_all add: traffic_obs_def tr_def)
  have "feed_inv c n (s\<lparr>chan := ch, receiver_refs := receiver_refs s, fpc := InPush k\<rparr>, h @ feed_obs n Caller s)"
    by (rule feeder_keep [OF inv _ ch(3), where tr = tr]) (use ch pc L True tr obs in auto)
  then show ?thesis using pc True ch(1) by (simp add: feeder_step_def on_chan_def)
next
  case False
  then have "feed_inv c n (s\<lparr>fpc := ClosingSender\<rparr>, h)"
    by (intro feeder_local [OF inv]) (use pc feeder_facts [OF inv] in auto)
  with pc False show ?thesis by (simp add: feeder_step_def feed_obs_def traffic_obs_def)
qed


text \<open>A push fails only when the coroutines have given up, which they do with an error.\<close>

lemma chan_size: "chan_ok c ch h \<Longrightarrow> 0 < c"
  using buffered_invD(3) [of "Suc c" ch] by (simp add: chan_ok_def logs_def sized_log_def)

lemma false_push_error:
  assumes inv: "feed_inv c n (s, h)" and pc: "fpc s = InPush k" and closed: "mReceiverClosed (chan s)"
  shows "feedError s \<noteq> None"
proof -
  note F = feed_invD [OF inv] and L = feeder_facts [OF inv]
  have "\<not> holds_ref (eater s 1)" using holder_open(1) [OF F(3)] closed by blast
  moreover have "eater s 1 \<noteq> Unborn"
    using F(4) pc chan_size [OF F(1)] by (auto simp: eaters_ok_def)
  ultimately have "ended (eater s 1)" by (cases "eater s 1") simp_all
  then have "feedError s \<noteq> None \<or> PopReturned 1 None \<in> set (traffic_of h)"
    using F(6) by (simp add: ends_ok_def)
  moreover have "PopReturned 1 None \<notin> set (traffic_of h)"
    using F(1) L(2) pc unfolding chan_ok_def logs_def end_log_def by auto
  ultimately show ?thesis by blast
qed

text \<open>What a push that returns tells the caller.\<close>

lemma push_returned:
  assumes inv: "feed_inv c n (s, h)" and pc: "fpc s = InPush k"
    and logs: "logs c ch (traffic_of h @ [PushReturned 0 b])" "Resized \<notin> set (traffic_of h)"
    and ch: "mReceiverClosed ch = mReceiverClosed (chan s)"
  shows "b \<Longrightarrow> accepted (traffic_of h) = [0..<Suc k]"
    and "\<not> b \<Longrightarrow> feedError s \<noteq> None \<and> (\<exists>j \<le> n. accepted (traffic_of h) = [0..<j])"
proof -
  note L = feeder_facts [OF inv]
  assume b
  have "true_pushes 0 (traffic_of h @ [PushReturned 0 b]) \<le> accepted_by 0 (traffic_of h @ [PushReturned 0 b])"
    by (rule logs_pushes [OF logs(1)])
  with \<open>b\<close> show "accepted (traffic_of h) = [0..<Suc k]" using L(5,6) pc by auto
next
  note L = feeder_facts [OF inv]
  assume "\<not> b"
  with logs have "mReceiverClosed ch" unfolding logs_def sized_log_def by auto
  then have "feedError s \<noteq> None" using false_push_error [OF inv pc] ch by simp
  moreover have "k < n \<and> (accepted (traffic_of h) = [0..<k] \<or> accepted (traffic_of h) = [0..<Suc k])"
    using L(5) pc by simp
  ultimately show "feedError s \<noteq> None \<and> (\<exists>j \<le> n. accepted (traffic_of h) = [0..<j])"
    using less_imp_le Suc_leI by blast
qed

lemma in_push_inv:
  assumes inv: "feed_inv c n (s, h)" and pc: "fpc s = InPush k"
  shows "feeder_safe c n s h"
proof (cases "thread_step 0 (chan s) = Blocked")
  case True
  with pc show ?thesis by (simp add: feeder_step_def on_chan_def)
next
  case False
  note F = feed_invD [OF inv] and L = feeder_facts [OF inv]
  have p: "place (chan s) 0 = InPushCall" using L(1) pc by simp
  define b where "b = push_result 0 (chan s)"
  define tr where "tr = (case b of None \<Rightarrow> [] | Some b \<Rightarrow> [PushReturned (0::nat) b :: nat traffic])"
  define q where "q = (case b of None \<Rightarrow> InPush k | Some b \<Rightarrow> if b then Feeding (k + 1) else ClosingSender)"
  have go: "buffered_obs (Go 0) (chan s) = tr" using obs_go_push [OF p] by (simp add: tr_def b_def)
  obtain ch where ch: "thread_step 0 (chan s) = Next ch" "chan_ok c ch (traffic_of h @ tr)"
    "place ch = (place (chan s))(0 := if b = None then InPushCall else Outside)"
    "mSenderClosed ch = mSenderClosed (chan s)" "mReceiverClosed ch = mReceiverClosed (chan s)"
    using chan_go [OF F(1) False] p go by (auto simp: b_def simp del: buffered_obs.simps)
  have obs: "traffic_of (feed_obs n Caller s) = tr" "calls_of (feed_obs n Caller s) = []"
    using pc go by (simp_all add: traffic_obs_def del: buffered_obs.simps)
  have ret: "b = Some True \<Longrightarrow> accepted (traffic_of h) = [0..<Suc k]"
    "b = Some False \<Longrightarrow> feedError s \<noteq> None \<and> (\<exists>j \<le> n. accepted (traffic_of h) = [0..<j])"
    using push_returned(1) [OF inv pc _ _ ch(5), of True] push_returned(2) [OF inv pc _ _ ch(5), of False] ch(2)
    by (simp_all add: tr_def chan_ok_def)
  have "feed_inv c n (s\<lparr>chan := ch, receiver_refs := receiver_refs s, fpc := q\<rparr>, h @ feed_obs n Caller s)"
  proof -
    consider "b = None" "q = InPush k" | "b = Some True" "q = Feeding (k + 1)" | "b = Some False" "q = ClosingSender"
      by (cases b) (auto simp: q_def)
    then show ?thesis
    proof cases
      case 1
      show ?thesis by (rule feeder_keep [OF inv ch(2,3)]) (use ch pc L obs 1 in \<open>auto simp: tr_def\<close>)
    next
      case 2
      show ?thesis by (rule feeder_keep [OF inv ch(2,3)]) (use ch pc L obs 2 ret(1) in \<open>auto simp: tr_def\<close>)
    next
      case 3
      show ?thesis by (rule feeder_keep [OF inv ch(2,3)]) (use ch pc L obs 3 ret(2) in \<open>auto simp: tr_def\<close>)
    qed
  qed
  moreover have "feeder_step c n s = Next (s\<lparr>chan := ch, fpc := q\<rparr>)"
    using pc ch(1) ret(2) by (cases s) (auto simp: feeder_step_def on_chan_def q_def b_def split: option.split)
  ultimately show ?thesis by simp
qed

lemma closing_sender_inv:
  assumes inv: "feed_inv c n (s, h)" and pc: "fpc s = ClosingSender"
  shows "feeder_safe c n s h"
proof -
  note F = feed_invD [OF inv] and L = feeder_facts [OF inv]
  obtain ch p where ch: "buffered_closeSender 0 (chan s) = Next ch" "chan_ok c ch (traffic_of h)"
    "place ch = (place (chan s))(0 := p)" "p = Outside \<or> p = Notifying" "mSenderClosed ch"
    "mReceiverClosed ch = mReceiverClosed (chan s)"
    using chan_closeSender [OF F(1), of 0] L(1,2) pc no_push_place [OF inv] by auto
  have obs: "feed_obs n Caller s = []" using pc by (simp add: feed_obs_def traffic_obs_def)
  have "feed_inv c n (s\<lparr>chan := ch, receiver_refs := receiver_refs s, fpc := ClosedSender\<rparr>, h @ [])"
    by (rule feeder_keep [OF inv _ ch(3), where tr = "[]"]) (use ch pc L in auto)
  then show ?thesis using pc ch(1) obs by (simp add: feeder_step_def on_chan_def)
qed

lemma closed_sender_inv:
  assumes inv: "feed_inv c n (s, h)" and pc: "fpc s = ClosedSender"
  shows "feeder_safe c n s h"
proof (cases "notifies 0 (chan s)")
  case True
  then have "place (chan s) 0 = Notifying"
    using feeder_facts(1) [OF inv] pc placeD(3) [of "chan s" 0] by auto
  from delivering_inv [OF inv this] pc True show ?thesis
    by (simp add: feeder_step_def feed_obs_def traffic_obs_def)
next
  case False
  then have "place (chan s) 0 = Outside"
    using feeder_facts(1) [OF inv] pc by (auto simp: place_def split: if_splits)
  then have "feed_inv c n (s\<lparr>fpc := Joining 1\<rparr>, h)"
    by (intro feeder_local [OF inv]) (use pc feeder_facts [OF inv] in auto)
  with pc False show ?thesis by (simp add: feeder_step_def feed_obs_def traffic_obs_def)
qed

lemma joining_inv:
  assumes inv: "feed_inv c n (s, h)" and pc: "fpc s = Joining k"
  shows "feeder_safe c n s h"
proof (cases "k \<le> c")
  case True
  show ?thesis
  proof (cases "eater s k = Finished")
    case fin: True
    then have "i = k \<Longrightarrow> eater s i = Finished" for i by simp
    then have "feed_inv c n (s\<lparr>fpc := Joining (k + 1)\<rparr>, h)"
      by (intro feeder_local [OF inv]) (use pc True feeder_facts [OF inv] in \<open>auto simp: less_Suc_eq_le le_antisym\<close>)
    with pc True fin show ?thesis by (simp add: feeder_step_def feed_obs_def traffic_obs_def)
  next
    case False
    with pc True show ?thesis by (simp add: feeder_step_def)
  qed
next
  case False
  let ?p = "case feedError s of None \<Rightarrow> FeedReturned | Some e \<Rightarrow> FeedThrew e"
  have "feed_inv c n (s\<lparr>fpc := ?p\<rparr>, h)"
    by (rule feeder_local [OF inv]) (use pc False feeder_facts [OF inv] in \<open>auto split: option.splits\<close>)
  with pc False show ?thesis by (simp add: feeder_step_def feed_obs_def traffic_obs_def)
qed

lemma feeder_step_inv:
  assumes inv: "feed_inv c n (s, h)"
  shows "feeder_safe c n s h"
proof (cases "fpc s")
  case (Making k)
  then show ?thesis by (rule making_inv [OF inv])
next
  case Dropping
  then show ?thesis by (rule dropping_inv [OF inv])
next
  case Dropped
  then show ?thesis by (rule dropped_inv [OF inv])
next
  case (Feeding k)
  then show ?thesis by (rule feeding_inv [OF inv])
next
  case (InPush k)
  then show ?thesis by (rule in_push_inv [OF inv])
next
  case ClosingSender
  then show ?thesis by (rule closing_sender_inv [OF inv])
next
  case ClosedSender
  then show ?thesis by (rule closed_sender_inv [OF inv])
next
  case (Joining k)
  then show ?thesis by (rule joining_inv [OF inv])
qed (simp_all add: feeder_step_def)


section \<open>What has been called\<close>

text \<open>
  The callable has been called on the accepted elements but for those still in the channel or
  on their way to a coroutine.
\<close>

lemma calls_accepted:
  assumes inv: "feed_inv c n (s, h)"
  shows "mset (calls (calls_of h)) + mset (concat (map (\<lambda>i. on_its_way i (chan s)) [0..<Suc c])) +
    mset (mReadyData (chan s)) = mset (accepted (traffic_of h))"
proof -
  note F = feed_invD [OF inv]
  let ?tr = "traffic_of h" and ?way = "\<lambda>i. on_its_way i (chan s)"
  have f: "accepted ?tr = assigned ?tr @ mReadyData (chan s)" "\<And>i. assigned_to i ?tr = popped_by i ?tr @ ?way i"
    using F(1) by (simp_all add: chan_ok_def logs_def fifo_log_def)
  have out: "called_by i (calls_of h) = []" "?way i = []" if i: "Suc c \<le> i" for i
  proof -
    have "eater s i = Unborn" using F(4) i by (auto simp: eaters_ok_def)
    then show "called_by i (calls_of h) = []" by (rule F(9))
    have "rooms_inv (Suc c) (receivers (chan s))"
      using buffered_invD(2) [of "Suc c" "chan s"] F(1) by (simp add: chan_ok_def)
    then have "apc (receivers (chan s)) i = Out" using rooms_invD(2) [of "Suc c"] i not_less by blast
    then show "?way i = []" by (simp add: on_its_way_def coming_Out)
  qed
  have "mset (assigned ?tr) = mset (concat (map (\<lambda>i. assigned_to i ?tr) [0..<Suc c]))"
    by (rule assigned_by_threads) (simp only: f(2) F(7) out append.simps)
  also have "\<dots> = mset (concat (map (\<lambda>i. called_by i (calls_of h)) [0..<Suc c])) +
      mset (concat (map ?way [0..<Suc c]))"
    unfolding f(2) F(7) by (rule mset_concat_append)
  also have "mset (concat (map (\<lambda>i. called_by i (calls_of h)) [0..<Suc c])) = mset (calls (calls_of h))"
    by (rule calls_by_coros [OF out(1), symmetric])
  finally show ?thesis by (simp add: f(1))
qed

lemma accepted_prefix:
  assumes inv: "feed_inv c n (s, h)"
  shows "\<exists>k \<le> n. accepted (traffic_of h) = [0..<k]"
proof -
  have "sent_ok n (fpc s) (accepted (traffic_of h)) (true_pushes 0 (traffic_of h)) (feedError s \<noteq> None)"
    by (rule feeder_facts(5) [OF inv])
  then show ?thesis by (cases "fpc s") (auto intro: Suc_leI less_imp_le exI [of _ 0])
qed

lemma calls_once:
  assumes inv: "feed_inv c n (s, h)"
  shows "distinct (calls (calls_of h))" "set (calls (calls_of h)) \<subseteq> {..<n}" "length (calls (calls_of h)) \<le> n"
proof -
  obtain k where k: "k \<le> n" "accepted (traffic_of h) = [0..<k]" using accepted_prefix [OF inv] by blast
  then have sub: "mset (calls (calls_of h)) \<subseteq># mset [0..<k]"
    using calls_accepted [OF inv] by (metis mset_subset_eq_add_left add.assoc)
  show "distinct (calls (calls_of h))"
    using distinct_subseteq_mset [OF sub] by simp
  show "set (calls (calls_of h)) \<subseteq> {..<n}"
    using set_mset_mono [OF sub] k(1) by auto
  show "length (calls (calls_of h)) \<le> n"
    using size_mset_mono [OF sub] k(1) by simp
qed

lemma eater_idle:
  assumes "eaters_ok c s" "\<not> (0 < i \<and> i \<le> c)"
  shows "eater s i = Unborn"
proof -
  have "eater s i = Unborn \<longleftrightarrow> i = 0 \<or> born_before c (fpc s) \<le> i" "born_before c (fpc s) \<le> Suc c"
    using assms(1) unfolding eaters_ok_def by blast+
  with assms(2) show ?thesis by auto
qed

text \<open>When the loop has returned, every element has been called.\<close>

lemma returned_all:
  assumes inv: "feed_inv c n (s, h)" and pc: "fpc s = FeedReturned"
  shows "mset (calls (calls_of h)) = mset [0..<n]" "exceptions (calls_of h) = []"
proof -
  note F = feed_invD [OF inv] and L = feeder_facts [OF inv]
  have err: "feedError s = None" using F(8) pc by (simp add: feed_errors_def)
  have fin: "eater s i = Finished" if "0 < i" "i \<le> c" for i
    using F(4) pc that by (simp add: eaters_ok_def)
  have "PopReturned 1 None \<in> set (traffic_of h)"
    using F(6) err fin [of 1] chan_size [OF F(1)] unfolding ends_ok_def by fastforce
  then have ready: "mReadyData (chan s) = []"
    using F(1) unfolding chan_ok_def logs_def end_log_def by blast
  have "on_its_way i (chan s) = []" for i
  proof -
    have "place (chan s) i \<noteq> InPopCall"
    proof (rule no_pop_place [OF inv])
      fix j show "eater s j \<noteq> InPop"
        using fin [of j] eater_idle [OF F(4), of j] by (cases "0 < j \<and> j \<le> c") auto
    qed
    moreover have "place (chan s) i \<noteq> InPushCall" by (rule no_push_place [OF inv]) (simp add: pc)
    ultimately have "apc (receivers (chan s)) i = Out" by (auto simp: place_def split: if_splits)
    then show ?thesis by (simp add: on_its_way_def coming_Out)
  qed
  then have "concat (map (\<lambda>i. on_its_way i (chan s)) [0..<Suc c]) = []" by simp
  then have "mset (calls (calls_of h)) = mset (accepted (traffic_of h))"
    using calls_accepted [OF inv] ready by (simp only: mset.simps add_0_right)
  then show "mset (calls (calls_of h)) = mset [0..<n]" using L(5) pc err by simp
  have "eater s i \<noteq> Handling e" for i e
    using fin [of i] eater_idle [OF F(4), of i] by (cases "0 < i \<and> i \<le> c") auto
  then show "exceptions (calls_of h) = []" using F(8) err by (auto simp: feed_errors_def)
qed


section \<open>Progress\<close>

fun feed_final :: "feeder_pc \<Rightarrow> bool" where
  "feed_final FeedReturned = True"
| "feed_final (FeedThrew e) = True"
| "feed_final p = False"

fun may_wait :: "eater_pc \<Rightarrow> bool" where
  "may_wait Unborn = True"
| "may_wait InPop = True"
| "may_wait Finished = True"
| "may_wait p = False"

fun feeder_waits :: "feeder_pc \<Rightarrow> bool" where
  "feeder_waits (InPush k) = True"
| "feeder_waits (Joining k) = True"
| "feeder_waits p = feed_final p"

lemma on_chan_Blocked: "on_chan f s = Blocked \<longleftrightarrow> f (chan s) = Blocked"
  by (simp add: on_chan_def bind_outcome_Blocked)

lemma release_not_blocked: "release i s \<noteq> Blocked"
  by (simp add: release_def on_chan_Blocked critical_not_blocked Let_def)

lemma eater_goes_on:
  assumes inv: "feed_inv c n (s, h)" and pc: "\<not> may_wait (eater s i)"
  shows "eater_step i None s \<noteq> Blocked"
proof (cases "eater s i = ClosingReceiver \<and> notifies i (chan s)")
  case True
  have "eater s i \<noteq> Unborn" using True by simp
  then have "place (chan s) i = Notifying"
    using eater_facts(3) [OF inv, of i] True placeD(3) [of "chan s" i] by auto
  with True notifying_goes_on [of "Suc c" "chan s" i] feed_invD(1) [OF inv] show ?thesis
    by (simp add: eater_step_def on_chan_Blocked chan_ok_def)
next
  case False
  with pc show ?thesis
    by (cases "eater s i")
      (auto simp: eater_step_def on_chan_Blocked bind_outcome_Blocked critical_not_blocked release_not_blocked)
qed

lemma feeder_goes_on:
  assumes inv: "feed_inv c n (s, h)" and pc: "\<not> feeder_waits (fpc s)"
  shows "feeder_step c n s \<noteq> Blocked"
proof (cases "(fpc s = Dropped \<or> fpc s = ClosedSender) \<and> notifies 0 (chan s)")
  case True
  then have "place (chan s) 0 = Notifying"
    using feeder_facts(1) [OF inv] placeD(3) [of "chan s" 0] by auto
  with True notifying_goes_on [of "Suc c" "chan s" 0] feed_invD(1) [OF inv] show ?thesis
    by (auto simp: feeder_step_def on_chan_Blocked chan_ok_def)
next
  case False
  with pc show ?thesis
    by (cases "fpc s")
      (auto simp: feeder_step_def on_chan_Blocked bind_outcome_Blocked critical_not_blocked release_not_blocked)
qed

text \<open>Nobody waits for ever: if no coroutine and not the caller can go on, there is a contradiction.\<close>

lemma thread_blocked_rests:
  assumes inv: "feed_inv c n (s, h)" and "thread_step i (chan s) = Blocked"
  shows "rests i (chan s)"
  using thread_place [of "Suc c" "chan s" i] feed_invD(1) [OF inv] assms(2) by (auto simp: chan_ok_def)

lemma outside_rests: "place ch i = Outside \<Longrightarrow> rests i ch"
  using placeD [of ch i] by (simp add: rests_def)

lemma in_call_parked:
  "rests i ch \<Longrightarrow> place ch i = InPushCall \<Longrightarrow> apc (senders ch) i = AwParked"
  "rests i ch \<Longrightarrow> place ch i = InPopCall \<Longrightarrow> apc (receivers ch) i = AwParked"
  by (auto simp: rests_def place_def split: if_splits)

lemma all_rest_at: "all_rest (Suc c) ch \<Longrightarrow> i \<le> c \<Longrightarrow> rests i ch"
  by (simp add: all_rest_def list_all_iff del: upt_Suc)

lemma stuck_rests:
  assumes inv: "feed_inv c n (s, h)" and e: "\<And>i. eater_step i None s = Blocked" and f: "feeder_step c n s = Blocked"
  shows "all_rest (Suc c) (chan s)" "may_wait (eater s i)" "feeder_waits (fpc s)"
proof -
  show w: "may_wait (eater s i)" for i using eater_goes_on [OF inv, of i] e by blast
  show fw: "feeder_waits (fpc s)" using feeder_goes_on [OF inv] f by blast
  have "rests i (chan s)" for i
  proof (cases "eater s i = Unborn")
    case False
    note ef = eater_facts [OF inv False]
    show ?thesis
    proof (cases "eater s i = InPop")
      case True
      with e [of i] have "thread_step i (chan s) = Blocked"
        by (auto simp: eater_step_def bind_outcome_Blocked on_chan_Blocked split: option.splits)
      then show ?thesis by (rule thread_blocked_rests [OF inv])
    next
      case pop: False
      with ef(3) w [of i] False have "place (chan s) i = Outside" by (cases "eater s i") auto
      then show ?thesis by (rule outside_rests)
    qed
  next
    case True
    show ?thesis
    proof (cases "\<exists>k. i = 0 \<and> fpc s = InPush k")
      case True
      with f have "thread_step i (chan s) = Blocked"
        by (auto simp: feeder_step_def bind_outcome_Blocked on_chan_Blocked split: option.splits bool.splits if_splits)
      then show ?thesis by (rule thread_blocked_rests [OF inv])
    next
      case False
      have "place (chan s) i = Outside"
      proof (cases "i = 0")
        case True
        with feeder_facts(1) [OF inv] fw False show ?thesis by (cases "fpc s") auto
      next
        case i: False
        then have "eater_place (eater s i) (place (chan s) i)"
          using feed_invD(2) [OF inv] by (simp add: places_ok_def)
        with True show ?thesis by simp
      qed
      then show ?thesis by (rule outside_rests)
    qed
  qed
  then show "all_rest (Suc c) (chan s)" by (simp add: all_rest_def list_all_iff)
qed


text \<open>When the channel rests, the one who waits in it finds nothing to do.\<close>

lemma resting_pop:
  assumes inv: "feed_inv c n (s, h)" and rest: "all_rest (Suc c) (chan s)" and e: "eater s i = InPop"
  shows "mReadyData (chan s) = []" "\<not> mSenderClosed (chan s)"
proof -
  have b: "buffered_inv (Suc c) (chan s)" using feed_invD(1) [OF inv] by (simp add: chan_ok_def)
  have live: "eater s i \<noteq> Unborn" using e by simp
  have "place (chan s) i = InPopCall" "i \<le> c" using eater_facts [OF inv live] e by simp_all
  then have "apc (receivers (chan s)) i = AwParked"
    using all_rest_at [OF rest, of i] in_call_parked(2) by blast
  then show "mReadyData (chan s) = []" "\<not> mSenderClosed (chan s)"
    using all_rest_waits [OF b rest] by blast+
qed

lemma resting_push:
  assumes inv: "feed_inv c n (s, h)" and rest: "all_rest (Suc c) (chan s)" and pc: "fpc s = InPush k"
  shows "mReadyData (chan s) \<noteq> []" "\<exists>i. holds_ref (eater s i)"
proof -
  note F = feed_invD [OF inv]
  have b: "buffered_inv (Suc c) (chan s)" using F(1) by (simp add: chan_ok_def)
  have "place (chan s) 0 = InPushCall" using feeder_facts [OF inv] pc by simp
  then have "apc (senders (chan s)) 0 = AwParked"
    using all_rest_at [OF rest, of 0] in_call_parked(1) by blast
  then have r: "mReadyData (chan s) \<noteq> []" "\<not> mReceiverClosed (chan s)"
    using all_rest_waits [OF b rest] by blast+
  show "mReadyData (chan s) \<noteq> []" by (rule r(1))
  show "\<exists>i. holds_ref (eater s i)"
  proof (rule ccontr)
    assume "\<not> (\<exists>i. holds_ref (eater s i))"
    then have "{i. holds_ref (eater s i)} = {}" by blast
    with F(3) pc r(2) show False unfolding refs_ok_def by auto
  qed
qed

lemma feed_progress:
  assumes inv: "feed_inv c n (s, h)" and nf: "\<not> feed_final (fpc s)"
  shows "\<exists>e t. feed_step c n e s = Next t"
proof (rule ccontr)
  assume none: "\<nexists>e t. feed_step c n e s = Next t"
  have "eater_step i None s \<noteq> Next t" "feeder_step c n s \<noteq> Next t" for i t
    using none feed_step.simps by metis+
  then have "eater_step i None s = Blocked" "feeder_step c n s = Blocked" for i
    using eater_step_inv [OF inv, of i None] feeder_step_inv [OF inv]
    by (metis outcome.exhaust safely.simps(2))+
  then have rest: "all_rest (Suc c) (chan s)" and w: "\<And>i. may_wait (eater s i)" "feeder_waits (fpc s)"
    and f: "feeder_step c n s = Blocked"
    using stuck_rests [OF inv] by blast+
  note pop = resting_pop [OF inv rest]
  have "(\<exists>k. fpc s = InPush k) \<or> (\<exists>k. fpc s = Joining k)"
    using w(2) nf by (cases "fpc s") auto
  then show False
  proof (elim disjE exE)
    fix k assume "fpc s = InPush k"
    from resting_push [OF inv rest this] obtain i where "mReadyData (chan s) \<noteq> []" "holds_ref (eater s i)"
      by blast
    moreover from this w(1) [of i] have "eater s i = InPop" by (cases "eater s i") simp_all
    ultimately show False using pop(1) by blast
  next
    fix k assume pc: "fpc s = Joining k"
    with f have k: "k \<le> c" "eater s k \<noteq> Finished"
      by (auto simp: feeder_step_def split: if_splits)
    have "eater s k \<noteq> Unborn" using feed_invD(4) [OF inv] pc k(1) by (auto simp: eaters_ok_def)
    with w(1) [of k] k(2) have "eater s k = InPop" by (cases "eater s k") simp_all
    with pop(2) feeder_facts(2) [OF inv] pc show False by auto
  qed
qed

section \<open>Termination\<close>

fun eater_units :: "eater_pc \<Rightarrow> nat" where
  "eater_units Unborn = 5"
| "eater_units AtPop = 4"
| "eater_units InPop = 3"
| "eater_units (InFunc v) = 6"
| "eater_units (Handling e) = 3"
| "eater_units Releasing = 2"
| "eater_units ClosingReceiver = 1"
| "eater_units Finished = 0"

fun feeder_units :: "nat \<Rightarrow> nat \<Rightarrow> feeder_pc \<Rightarrow> nat" where
  "feeder_units c n (Making k) = (Suc c - k) + 2 * n + c + 16"
| "feeder_units c n Dropping = 2 * n + c + 15"
| "feeder_units c n Dropped = 2 * n + c + 14"
| "feeder_units c n (Feeding k) = 2 * (n - k) + c + 12"
| "feeder_units c n (InPush k) = 2 * (n - k) + c + 11"
| "feeder_units c n ClosingSender = c + 8"
| "feeder_units c n ClosedSender = c + 7"
| "feeder_units c n (Joining k) = Suc c - k + 1"
| "feeder_units c n FeedReturned = 0"
| "feeder_units c n (FeedThrew e) = 0"

definition feed_units :: "nat \<Rightarrow> nat \<Rightarrow> feed \<Rightarrow> feed_note list \<Rightarrow> nat" where
  "feed_units c n s h = 4 * (n - length (calls (calls_of h))) + (\<Sum>i<Suc c. eater_units (eater s i)) +
     feeder_units c n (fpc s)"

definition feed_left :: "nat \<Rightarrow> nat \<Rightarrow> feed \<times> feed_note list \<Rightarrow> nat" where
  "feed_left c n sh = feed_units c n (fst sh) (snd sh) * (6 * Suc c + 1) + buffered_left (Suc c) (chan (fst sh))"

text \<open>A step uses up a unit, or is a step inside a call of the channel.\<close>

lemma feed_left_less:
  assumes "feed_inv c n (t, g)" "feed_units c n t g < feed_units c n s h \<or>
    feed_units c n t g = feed_units c n s h \<and> buffered_left (Suc c) (chan t) < buffered_left (Suc c) (chan s)"
  shows "feed_left c n (t, g) < feed_left c n (s, h)"
  using assms(2)
proof
  assume less: "feed_units c n t g < feed_units c n s h"
  have "buffered_inv (Suc c) (chan t)" using feed_invD(1) [OF assms(1)] by (simp add: chan_ok_def)
  then have b: "buffered_left (Suc c) (chan t) < 6 * Suc c + 1" using buffered_left_bound by fastforce
  have "(feed_units c n t g + 1) * (6 * Suc c + 1) \<le> feed_units c n s h * (6 * Suc c + 1)"
    using less by (intro mult_right_mono) simp_all
  then show ?thesis using b by (simp add: feed_left_def)
next
  assume "feed_units c n t g = feed_units c n s h \<and> buffered_left (Suc c) (chan t) < buffered_left (Suc c) (chan s)"
  then show ?thesis by (simp add: feed_left_def)
qed

lemma eater_units_upd:
  "i \<le> c \<Longrightarrow> (\<Sum>j<Suc c. eater_units (((e :: nat \<Rightarrow> eater_pc)(i := p)) j)) + eater_units (e i) =
    (\<Sum>j<Suc c. eater_units (e j)) + eater_units p"
  using sum.remove [of "{..<Suc c}" i "\<lambda>j. eater_units ((e(i := p)) j)"]
    sum.remove [of "{..<Suc c}" i "\<lambda>j. eater_units (e j)"]
  by simp


lemma units_eater:
  assumes "i \<le> c" "eater t = (eater s)(i := p)" "fpc t = fpc s"
    and "length (calls (calls_of g)) = length (calls (calls_of h)) + k" "length (calls (calls_of g)) \<le> n"
    and "eater_units p < eater_units (eater s i) + 4 * k"
  shows "feed_units c n t g < feed_units c n s h"
  using eater_units_upd [OF assms(1), of "eater s" p] assms(2-6) by (simp add: feed_units_def)

lemma eater_step_left:
  assumes inv: "feed_inv c n (s, h)" and st: "eater_step i thrown s = Next t"
    and g: "g = h @ feed_obs n (Coro i thrown) s"
  shows "feed_left c n (t, g) < feed_left c n (s, h)"
proof -
  have inv': "feed_inv c n (t, g)" using eater_step_inv [OF inv, of i thrown] st g by simp
  have live: "eater s i \<noteq> Unborn" using st by (auto simp: eater_step_def)
  have i: "i \<le> c" using eater_facts(2) [OF inv live] .
  have len: "length (calls (calls_of g)) \<le> n" by (rule calls_once(3) [OF inv'])
  have calls: "calls_of g = calls_of h @ call_obs (Coro i thrown) s" by (simp add: g)
  have "feed_units c n t g < feed_units c n s h \<or> feed_units c n t g = feed_units c n s h \<and>
      buffered_left (Suc c) (chan t) < buffered_left (Suc c) (chan s)"
  proof (cases "(eater s i = InPop \<and> pop_result i (chan s) = None) \<or> (eater s i = ClosingReceiver \<and> notifies i (chan s))")
    case True
    then have "on_chan (thread_step i) s = Next t" "calls_of g = calls_of h"
      using st calls by (auto simp: eater_step_def split: if_splits)
    then obtain ch where ch: "thread_step i (chan s) = Next ch" "t = s\<lparr>chan := ch\<rparr>" "calls_of g = calls_of h"
      by (auto simp: on_chan_def)
    have "buffered_inv (Suc c) (chan s)" using feed_invD(1) [OF inv] by (simp add: chan_ok_def)
    from thread_step_left [OF this ch(1)] ch(2,3) show ?thesis by (simp add: feed_units_def)
  next
    case False
    obtain p k where "eater t = (eater s)(i := p)" "fpc t = fpc s"
      "length (calls (call_obs (Coro i thrown) s)) = k" "eater_units p < eater_units (eater s i) + 4 * k"
      using st False
      by (cases "eater s i")
        (auto simp: eater_step_def on_chan_def release_def set_eater_def Let_def split: option.splits if_splits)
    then have "feed_units c n t g < feed_units c n s h"
      using units_eater [OF i, of t s p g h k n] len calls by simp
    then show ?thesis by blast
  qed
  then show ?thesis by (rule feed_left_less [OF inv'])
qed

lemma feeder_step_left:
  assumes inv: "feed_inv c n (s, h)" and st: "feeder_step c n s = Next t"
    and g: "g = h @ feed_obs n Caller s"
  shows "feed_left c n (t, g) < feed_left c n (s, h)"
proof -
  have inv': "feed_inv c n (t, g)" using feeder_step_inv [OF inv] st g by simp
  have calls: "calls_of g = calls_of h" by (simp add: g)
  have "feed_units c n t g < feed_units c n s h \<or> feed_units c n t g = feed_units c n s h \<and>
      buffered_left (Suc c) (chan t) < buffered_left (Suc c) (chan s)"
  proof (cases "(\<exists>k. fpc s = InPush k \<and> push_result 0 (chan s) = None) \<or>
      ((fpc s = Dropped \<or> fpc s = ClosedSender) \<and> notifies 0 (chan s))")
    case True
    then have "on_chan (thread_step 0) s = Next t"
      using st by (auto simp: feeder_step_def split: if_splits)
    then obtain ch where ch: "thread_step 0 (chan s) = Next ch" "t = s\<lparr>chan := ch\<rparr>"
      by (auto simp: on_chan_def)
    have "buffered_inv (Suc c) (chan s)" using feed_invD(1) [OF inv] by (simp add: chan_ok_def)
    from thread_step_left [OF this ch(1)] ch(2) calls show ?thesis by (simp add: feed_units_def)
  next
    case False
    show ?thesis
    proof (cases "\<exists>k. fpc s = Making k \<and> k \<le> c")
      case True
      then obtain k where k: "fpc s = Making k" "k \<le> c" by blast
      then have t: "eater t = (eater s)(k := AtPop)" "fpc t = Making (k + 1)"
        using st by (auto simp: feeder_step_def set_eater_def)
      have "eater s k = Unborn" using feed_invD(4) [OF inv] k by (simp add: eaters_ok_def)
      then show ?thesis using eater_units_upd [OF k(2), of "eater s" AtPop] t k calls
        by (intro disjI1) (simp add: feed_units_def del: sum.lessThan_Suc fun_upd_apply)
    next
      case mk: False
      have sent: "sent_ok n (fpc s) (accepted (traffic_of h)) (true_pushes 0 (traffic_of h)) (feedError s \<noteq> None)"
        by (rule feeder_facts(5) [OF inv])
      have "eater t = eater s" "feeder_units c n (fpc t) < feeder_units c n (fpc s)"
        using st False mk sent
        by (cases "fpc s"; force simp: feeder_step_def on_chan_def release_def Let_def
            split: option.splits if_splits bool.splits)+
      then show ?thesis using calls by (simp add: feed_units_def)
    qed
  qed
  then show ?thesis by (rule feed_left_less [OF inv'])
qed


definition feed_init :: "nat \<Rightarrow> feed" where
  "feed_init c = \<lparr>chan = buffered_new c, receiver_refs = 1, eater = (\<lambda>i. Unborn), feedError = None, fpc = Making 1\<rparr>"

lemma feed_start_eq:
  "feed_start c = (if c = 0 then Fault (AssertFailed ''setMaxQueueSize'') else Next (feed_init c))"
  by (simp add: feed_start_def feed_init_def makeBufferedChannel_eq)

lemma feed_init_inv: "feed_inv (Suc m) n (feed_init (Suc m), [])"
proof -
  have "chan_ok (Suc m) (buffered_new (Suc m)) []"
    using stream_log_init [of "Suc (Suc m)" m] by (simp add: chan_ok_def stream_log_def)
  moreover have "place (buffered_new (Suc m) :: nat buffered) i = Outside" for i
    by (simp add: place_def notifies_iff buffered_new_def BufferedChannel_def)
  moreover have "\<not> mSenderClosed (buffered_new (Suc m))" "\<not> mReceiverClosed (buffered_new (Suc m))"
    by (simp_all add: buffered_new_def BufferedChannel_def)
  ultimately show ?thesis
    by (auto simp: feed_inv_def feed_init_def places_ok_def refs_ok_def eaters_ok_def sent_log_def ends_ok_def feed_errors_def)
qed

lemma feed_step_inv:
  assumes "feed_inv c n (s, h)"
  shows "safely (\<lambda>t. feed_inv c n (t, h @ feed_obs n e s)) (feed_step c n e s)"
proof (cases e)
  case Caller
  with feeder_step_inv [OF assms] show ?thesis by simp
next
  case (Coro i thrown)
  with eater_step_inv [OF assms] show ?thesis by simp
qed

interpretation feed:
  terminating "logged (feed_obs n) (feed_step (Suc m) n)" "(feed_init (Suc m), [])" "feed_inv (Suc m) n"
    "\<lambda>sh. feed_final (fpc (fst sh))" "feed_left (Suc m) n"
proof
  show "feed_inv (Suc m) n (feed_init (Suc m), [])" by (rule feed_init_inv)
next
  fix sh e
  assume "feed_inv (Suc m) n sh"
  then show "ensures (feed_inv (Suc m) n) (logged (feed_obs n) (feed_step (Suc m) n) e sh)"
    using feed_step_inv [of "Suc m" n "fst sh" "snd sh" e]
    by (cases "feed_step (Suc m) n e (fst sh)") (simp_all add: logged_def)
next
  fix sh :: "feed \<times> feed_note list"
  assume "feed_inv (Suc m) n sh" "\<not> feed_final (fpc (fst sh))"
  then obtain e t where "feed_step (Suc m) n e (fst sh) = Next t"
    using feed_progress [of "Suc m" n "fst sh" "snd sh"] by auto
  then have "logged (feed_obs n) (feed_step (Suc m) n) e sh = Next (t, snd sh @ feed_obs n e (fst sh))"
    by (simp add: logged_def)
  then show "\<exists>e t. logged (feed_obs n) (feed_step (Suc m) n) e sh = Next t" by blast
next
  fix sh th e
  assume I: "feed_inv (Suc m) n sh" and t: "logged (feed_obs n) (feed_step (Suc m) n) e sh = Next th"
  obtain s h where sh: "sh = (s, h)" by (cases sh)
  from t sh obtain u where u: "feed_step (Suc m) n e s = Next u" "th = (u, h @ feed_obs n e s)"
    by (auto simp: logged_def)
  show "feed_left (Suc m) n th < feed_left (Suc m) n sh"
  proof (cases e)
    case Caller
    with u I sh show ?thesis using feeder_step_left [of "Suc m" n s h u] by simp
  next
    case (Coro i thrown)
    with u I sh show ?thesis using eater_step_left [of "Suc m" n s h i thrown u] by simp
  qed
qed

section \<open>Properties\<close>

lemma feed_started:
  assumes "feed_start c = Next s0" "run (feed_step c n) es s0 = Next t" "h = observe (feed_obs n) (feed_step c n) es s0"
  obtains m where "c = Suc m" "s0 = feed_init (Suc m)"
    "run (logged (feed_obs n) (feed_step (Suc m) n)) es (feed_init (Suc m), []) = Next (t, h)"
    "feed_inv c n (t, h)"
proof -
  from assms(1) obtain m where m: "c = Suc m" "s0 = feed_init (Suc m)"
    by (cases c) (simp_all add: feed_start_eq)
  have r: "run (logged (feed_obs n) (feed_step (Suc m) n)) es (feed_init (Suc m), []) = Next (t, h)"
    using logged_run [OF assms(2), of "feed_obs n" "[]"] assms(3) m by simp
  from that [OF m r] feed.along_run [OF feed_init_inv r] m show thesis by simp
qed


text \<open>One element and one coroutine, which takes it while the caller waits in its push.\<close>

definition one_by_one :: "for_event list" where
  "one_by_one = replicate 5 Caller @ replicate 5 (Coro 1 None) @ replicate 5 Caller @
     replicate 5 (Coro 1 None) @ replicate 2 Caller"

lemmas feed_eval = feed_init_def feeder_step_def eater_step_def on_chan_def release_def set_eater_def
  push_result_def pop_result_def Let_def

lemma one_by_one_run:
  "\<exists>t. run (feed_step 1 1) one_by_one (feed_init 1) = Next t \<and> fpc t = FeedReturned \<and>
     calls_of (observe (feed_obs 1) (feed_step 1 1) one_by_one (feed_init 1)) = [Called 1 0]"
  by (simp add: one_by_one_def numeral_eq_Suc feed_eval buffered_eval room_eval feed_obs_def traffic_obs_def)


text \<open>
  C16. \<^verbatim>\<open>forEach\<close> through the channel returns: no run is longer than a bound that depends only on
  the number of elements and coroutines, and from every state that it can reach it gets to
  its end, whatever calls throw; in particular the caller does not wait for ever in a \<^verbatim>\<open>push\<close>
  when all coroutines have given up, and no coroutine does in a \<^verbatim>\<open>pop\<close>.
\<close>

theorem feed_returns:
  assumes "feed_start c = Next s0" "run (feed_step c n) es s0 = Next t"
  shows "length es \<le> (6 * n + 7 * c + 25) * (6 * c + 7) \<and>
    (\<exists>fs u. run (feed_step c n) fs t = Next u \<and> feed_final (fpc u))"
proof -
  define h where "h = observe (feed_obs n) (feed_step c n) es s0"
  obtain m where m: "c = Suc m" "s0 = feed_init (Suc m)"
    "run (logged (feed_obs n) (feed_step (Suc m) n)) es (feed_init (Suc m), []) = Next (t, h)"
    "feed_inv c n (t, h)"
    using feed_started [OF assms h_def] by metis
  have "(\<Sum>i<Suc c. eater_units (eater s0 i)) = 5 * Suc c" by (simp add: m(2) feed_init_def)
  then have u: "feed_units c n s0 [] = 6 * n + 7 * c + 21" by (simp add: feed_units_def m(2) feed_init_def)
  have b: "buffered_left (Suc c) (chan s0) \<le> 6 * Suc c"
    using buffered_left_bound [of "Suc c" "chan s0"] feed_invD(1) [OF feed_init_inv [of m n]] m(1,2) by (simp add: chan_ok_def)
  have "length es \<le> feed_left c n (s0, [])"
    using feed.bounded [OF feed_init_inv m(3)] m(1,2) by simp
  also have "\<dots> \<le> (6 * n + 7 * c + 21) * (6 * Suc c + 1) + 6 * Suc c"
    using u b by (simp add: feed_left_def)
  also have "\<dots> \<le> (6 * n + 7 * c + 25) * (6 * c + 7)" by (simp add: algebra_simps)
  finally have "length es \<le> (6 * n + 7 * c + 25) * (6 * c + 7)" .
  moreover obtain fs th where th: "run (logged (feed_obs n) (feed_step c n)) fs (t, h) = Next th"
    "feed_final (fpc (fst th))"
    using feed.completes [where s = "(t, h)" and m = m and n = n] m(1,4) by auto
  moreover from logged_run_back [OF th(1)] th(2) obtain u where "run (feed_step c n) fs t = Next u" "feed_final (fpc u)"
    by auto
  ultimately show ?thesis by blast
qed


lemma feed_returns_witness:
  "\<exists>s0 t. feed_start 1 = Next s0 \<and> run (feed_step 1 1) one_by_one s0 = Next t \<and>
     length one_by_one \<le> 494 \<and> fpc t = FeedReturned"
proof -
  have s0: "feed_start 1 = Next (feed_init 1)" by (simp add: feed_start_eq)
  obtain t where t: "run (feed_step 1 1) one_by_one (feed_init 1) = Next t" "fpc t = FeedReturned"
    using one_by_one_run by blast
  from feed_returns [OF s0 t(1)] s0 t show ?thesis by simp
qed

end
