(* ===== verification/TimedMutex.thy ===== *)
theory TimedMutex
  imports Mutex
begin

text \<open>
  \<^verbatim>\<open>experimental::BaseTimedMutex\<close> of \<^verbatim>\<open>include/co/timed_mutex.hpp\<close>, cut into atomic steps like
  the \<^verbatim>\<open>BaseMutex\<close> of theory \<open>Mutex\<close>, which it is compared with. The waiters are objects on
  the stacks of their threads; pointers to them, in the deque, in \<^verbatim>\<open>unlock\<close> and in the
  handlers of their timers, name the thread and how many waiters it has made, so that a
  pointer to a waiter that is gone is told apart from one to a later waiter.
\<close>

section \<open>Waiters\<close>

datatype lock_result = Succeeded | TimedOut

text \<open>Whether there is a timer, whether it waits, and whether its handler has been queued.\<close>

datatype timer_state = NoTimer | Pending | HandlerQueued | CancelledTimer

record waiter_obj =
  alreadyFinalized :: bool
  result :: "(nat, lock_result) light_future"
  timer :: timer_state

definition TimedMutexWaiter :: "waiter_obj" where
  "TimedMutexWaiter = \<lparr>alreadyFinalized = False, result = LightFutureData, timer = NoTimer\<rparr>"

definition TimedMutexWaiter_for :: "waiter_obj" where
  "TimedMutexWaiter_for = TimedMutexWaiter\<lparr>timer := Pending\<rparr>"

text \<open>\<^verbatim>\<open>operator bool\<close>: the first call reserves the waiter.\<close>

definition reserve :: "waiter_obj \<Rightarrow> bool \<times> waiter_obj" where
  "reserve w = (if alreadyFinalized w then (False, w) else (True, w\<lparr>alreadyFinalized := True\<rparr>))"

text \<open>The container of \<^verbatim>\<open>TimedFairPolicy\<close>, a \<^verbatim>\<open>std::deque\<close>.\<close>

type_synonym pointer = "nat \<times> nat"

definition timedAddToWaiter :: "pointer list \<Rightarrow> pointer \<Rightarrow> pointer list" where
  "timedAddToWaiter c t = c @ [t]"

definition timedGetNextWaiter :: "pointer list \<Rightarrow> pointer \<times> pointer list" where
  "timedGetNextWaiter c = (hd c, tl c)"

text \<open>
  \<^verbatim>\<open>TimedHighThroughputPolicy\<close> is that of the mutex once more: its container is declared to hold
  promises and not the waiters of this mutex, so that it cannot be used here.
\<close>

definition TimedHighThroughputPolicy :: policy where
  "TimedHighThroughputPolicy = \<lparr>addToWaiter = (\<lambda>c t. c @ [t]), getNextWaiter = (\<lambda>c. (last c, butlast c))\<rparr>"

interpretation timed_throughput: waiter_policy TimedHighThroughputPolicy
  using throughput.waiter_policy_axioms by (simp add: TimedHighThroughputPolicy_def HighThroughputPolicy_def)

section \<open>The machine\<close>

text \<open>
  As for \<^verbatim>\<open>BaseMutex\<close>; \<open>TBackOut\<close> is \<^verbatim>\<open>try_lock_for\<close> after its timeout, \<open>TPopping\<close> and
  \<open>TReserving\<close> are the loop in \<^verbatim>\<open>unlock\<close> with the value of \<^verbatim>\<open>next\<close>, \<open>TGranting\<close> what follows it.
\<close>

datatype timed_pc =
  TIdle | TSpin nat | TFetchAdd | TEnqueue | TAwaitReady | TAwaitSuspend | TParked | TBackOut
  | THolding | TPopping "pointer option" | TReserving "pointer option" | TGranting pointer

record timed =
  tCountOfWaiter :: int
  tWaiter :: "pointer list"
  tpc :: "nat \<Rightarrow> timed_pc"
  waiters :: "nat \<Rightarrow> waiter_obj option"
  born :: "nat \<Rightarrow> nat"
  handlers :: "pointer list"

definition timed_init :: timed where
  "timed_init = \<lparr>tCountOfWaiter = 0, tWaiter = [], tpc = (\<lambda>i. TIdle), waiters = (\<lambda>i. None),
     born = (\<lambda>i. 0), handlers = []\<rparr>"

definition tgoto :: "nat \<Rightarrow> timed_pc \<Rightarrow> timed \<Rightarrow> timed" where
  "tgoto i p s = s\<lparr>tpc := (tpc s)(i := p)\<rparr>"

definition make_waiter :: "nat \<Rightarrow> waiter_obj \<Rightarrow> timed \<Rightarrow> timed" where
  "make_waiter i w s = s\<lparr>waiters := (waiters s)(i := Some w), born := (born s)(i := born s i + 1)\<rparr>"

definition set_waiter :: "nat \<Rightarrow> waiter_obj \<Rightarrow> timed \<Rightarrow> timed" where
  "set_waiter i w s = s\<lparr>waiters := (waiters s)(i := Some w)\<rparr>"

definition drop_waiter :: "nat \<Rightarrow> timed \<Rightarrow> timed" where
  "drop_waiter i s = s\<lparr>waiters := (waiters s)(i := None)\<rparr>"

definition deref :: "pointer \<Rightarrow> timed \<Rightarrow> waiter_obj option" where
  "deref p s = (if snd p = born s (fst p) then waiters s (fst p) else None)"

definition timed_cas :: "bool \<Rightarrow> timed \<Rightarrow> bool \<times> int \<times> timed" where
  "timed_cas weak s =
     (if tCountOfWaiter s = 0 \<and> \<not> weak then (True, 0, s\<lparr>tCountOfWaiter := 1\<rparr>)
      else (False, tCountOfWaiter s, s))"

definition timed_try_lock :: "nat \<Rightarrow> bool \<Rightarrow> timed \<Rightarrow> timed outcome" where
  "timed_try_lock i weak s =
     (case timed_cas weak s of (res, expected, t) \<Rightarrow>
        if expected < 0 then Fault (AssertFailed ''try_lock'')
        else if res then Next (tgoto i THolding t) else Next t)"

text \<open>\<^verbatim>\<open>spinLock\<close>, with the waiter that \<^verbatim>\<open>lock\<close> makes when it returns false.\<close>

definition spinLock_step :: "nat \<Rightarrow> bool \<Rightarrow> timed \<Rightarrow> timed outcome" where
  "spinLock_step i weak s =
     (case tpc s i of
        TSpin n \<Rightarrow>
          (case timed_cas weak s of (res, expected, t) \<Rightarrow>
             if expected < 0 then Fault (AssertFailed ''spinLock'')
             else if res then Next (tgoto i THolding t)
             else if expected > 1 then Next (tgoto i TFetchAdd t)
             else if Suc n < 8 then Next (tgoto i (TSpin (Suc n)) t)
             else Next (tgoto i TFetchAdd t))
      | TFetchAdd \<Rightarrow>
          (let waitingCount = tCountOfWaiter s + 1;
               t = s\<lparr>tCountOfWaiter := waitingCount\<rparr>
           in if waitingCount = 1 then Next (tgoto i THolding t)
              else Next (tgoto i TEnqueue (make_waiter i TimedMutexWaiter t)))
      | _ \<Rightarrow> Blocked)"

text \<open>
  What follows \<^verbatim>\<open>await(p.result)\<close> in \<^verbatim>\<open>lock\<close> (its waiter has no timer) and in \<^verbatim>\<open>try_lock_for\<close>.
\<close>

definition after_await :: "nat \<Rightarrow> timed \<Rightarrow> timed outcome" where
  "after_await i s =
     (case waiters s i of
        None \<Rightarrow> Fault UseAfterFree
      | Some w \<Rightarrow>
          (case get_unchecked (result w) of
             Inl e \<Rightarrow> Fault e
           | Inr (Inl ex) \<Rightarrow> Fault (AssertFailed ''await'')
           | Inr (Inr res) \<Rightarrow>
               if res = Succeeded then Next (tgoto i THolding (drop_waiter i s))
               else if timer w = NoTimer then Fault (AssertFailed ''lock'')
               else Next (tgoto i TBackOut s)))"

text \<open>The rest of \<^verbatim>\<open>lock\<close> and \<^verbatim>\<open>try_lock_for\<close>: \<^verbatim>\<open>addToWaiter\<close>, \<^verbatim>\<open>await\<close>, and giving up.\<close>

definition wait_step :: "nat \<Rightarrow> timed \<Rightarrow> timed outcome" where
  "wait_step i s =
     (case waiters s i of
        None \<Rightarrow> Blocked
      | Some w \<Rightarrow>
          (case tpc s i of
             TEnqueue \<Rightarrow> Next (tgoto i TAwaitReady (s\<lparr>tWaiter := timedAddToWaiter (tWaiter s) (i, born s i)\<rparr>))
           | TAwaitReady \<Rightarrow>
               (if await_ready (result w) then after_await i s else Next (tgoto i TAwaitSuspend s))
           | TAwaitSuspend \<Rightarrow>
               (case await_suspend i (result w) of
                  Inl e \<Rightarrow> Fault e
                | Inr (True, f) \<Rightarrow> Next (tgoto i TParked (set_waiter i (w\<lparr>result := f\<rparr>) s))
                | Inr (False, f) \<Rightarrow> after_await i s)
           | TBackOut \<Rightarrow>
               Next (tgoto i TIdle (drop_waiter i (s\<lparr>tCountOfWaiter := tCountOfWaiter s - 1\<rparr>)))
           | _ \<Rightarrow> Blocked))"

definition resumed :: "nat option \<Rightarrow> timed \<Rightarrow> timed outcome" where
  "resumed k s = (case k of None \<Rightarrow> Next s | Some k \<Rightarrow> after_await k s)"

definition timed_unlock :: "nat \<Rightarrow> timed \<Rightarrow> timed outcome" where
  "timed_unlock i s =
     (let waitingCount = tCountOfWaiter s - 1;
          t = s\<lparr>tCountOfWaiter := waitingCount\<rparr>
      in if waitingCount < 0 then Fault (AssertFailed ''unlock'')
         else if waitingCount = 0 then Next (tgoto i TIdle t)
         else Next (tgoto i (TPopping None) t))"

text \<open>
  The loop of \<^verbatim>\<open>unlock\<close>. Its \<^verbatim>\<open>*next\<close> needs \<^verbatim>\<open>next\<close> not to be null; when the waiter is already
  reserved, \<^verbatim>\<open>next\<close> is not null and the assertion after it fails, so that the rest of the
  loop's body is not reached.
\<close>

definition timed_unlock_step :: "nat \<Rightarrow> timed \<Rightarrow> timed outcome" where
  "timed_unlock_step i s =
     (case tpc s i of
        TPopping next \<Rightarrow>
          (if tWaiter s = [] then Next (tgoto i (TReserving next) s)
           else (case timedGetNextWaiter (tWaiter s) of
                   (next, rest) \<Rightarrow> Next (tgoto i (TReserving (Some next)) (s\<lparr>tWaiter := rest\<rparr>))))
      | TReserving None \<Rightarrow> Fault NullDeref
      | TReserving (Some next) \<Rightarrow>
          (case deref next s of
             None \<Rightarrow> Fault UseAfterFree
           | Some w \<Rightarrow>
               (case reserve w of
                  (True, w) \<Rightarrow> Next (tgoto i (TGranting next) (set_waiter (fst next) w s))
                | (False, w) \<Rightarrow> Fault (AssertFailed ''unlock'')))
      | TGranting next \<Rightarrow>
          (case deref next s of
             None \<Rightarrow> Fault UseAfterFree
           | Some w \<Rightarrow>
               let w = (if timer w = Pending then w\<lparr>timer := CancelledTimer\<rparr> else w) in
               (case set_value Succeeded (result w) of
                  Inl e \<Rightarrow> Fault e
                | Inr (k, f) \<Rightarrow>
                    resumed k (tgoto i TIdle (set_waiter (fst next) (w\<lparr>result := f\<rparr>) s))))
      | _ \<Rightarrow> Blocked)"

text \<open>The timer of thread \<open>i\<close>'s waiter expires, and a queued handler runs.\<close>

definition expire :: "nat \<Rightarrow> timed \<Rightarrow> timed outcome" where
  "expire i s =
     (case waiters s i of
        None \<Rightarrow> Blocked
      | Some w \<Rightarrow>
          (if timer w = Pending
           then Next (set_waiter i (w\<lparr>timer := HandlerQueued\<rparr>) (s\<lparr>handlers := handlers s @ [(i, born s i)]\<rparr>))
           else Blocked))"

definition timeout_handler :: "timed \<Rightarrow> timed outcome" where
  "timeout_handler s =
     (case handlers s of
        [] \<Rightarrow> Blocked
      | p # rest \<Rightarrow>
          (case deref p s of
             None \<Rightarrow> Fault UseAfterFree
           | Some w \<Rightarrow>
               let s = s\<lparr>handlers := rest\<rparr> in
               (case reserve w of
                  (False, w) \<Rightarrow> Next s
                | (True, w) \<Rightarrow>
                    (case set_value TimedOut (result w) of
                       Inl e \<Rightarrow> Fault e
                     | Inr (k, f) \<Rightarrow> resumed k (set_waiter (fst p) (w\<lparr>result := f\<rparr>) s)))))"

fun timed_unlocking :: "timed_pc \<Rightarrow> bool" where
  "timed_unlocking (TPopping next) = True"
| "timed_unlocking (TReserving next) = True"
| "timed_unlocking (TGranting next) = True"
| "timed_unlocking p = False"

fun spinning :: "timed_pc \<Rightarrow> bool" where
  "spinning (TSpin n) = True"
| "spinning TFetchAdd = True"
| "spinning p = False"

datatype timed_event =
  TLock nat | TTryLock nat bool | TTryLockFor nat | TUnlock nat | TGo nat bool | Expire nat | RunHandler

text \<open>
  \<open>TTryLockFor\<close> is a call of \<^verbatim>\<open>try_lock_for\<close> with a positive duration; with any other it is a
  call of \<^verbatim>\<open>try_lock\<close>.
\<close>

fun timed_step :: "(timed_event, timed) machine" where
  "timed_step (TLock i) s = (if tpc s i = TIdle then Next (tgoto i (TSpin 0) s) else Blocked)"
| "timed_step (TTryLock i weak) s = (if tpc s i = TIdle then timed_try_lock i weak s else Blocked)"
| "timed_step (TTryLockFor i) s =
     (if tpc s i = TIdle then Next (tgoto i TEnqueue (make_waiter i TimedMutexWaiter_for s)) else Blocked)"
| "timed_step (TUnlock i) s = (if tpc s i = THolding then timed_unlock i s else Blocked)"
| "timed_step (TGo i weak) s =
     (if timed_unlocking (tpc s i) then timed_unlock_step i s
      else if spinning (tpc s i) then spinLock_step i weak s
      else wait_step i s)"
| "timed_step (Expire i) s = expire i s"
| "timed_step RunHandler s = timeout_handler s"

lemmas timed_eval = timed_init_def tgoto_def make_waiter_def set_waiter_def drop_waiter_def deref_def
  timed_cas_def timed_try_lock_def spinLock_step_def after_await_def wait_step_def resumed_def
  timed_unlock_def timed_unlock_step_def expire_def timeout_handler_def reserve_def
  TimedMutexWaiter_def TimedMutexWaiter_for_def timedAddToWaiter_def timedGetNextWaiter_def Let_def


section \<open>Without timeouts: a simulation by \<open>BaseMutex\<close>\<close>

text \<open>
  The machine whose threads call \<^verbatim>\<open>lock\<close>, \<^verbatim>\<open>try_lock\<close> and \<^verbatim>\<open>unlock\<close> only.
\<close>

fun untimed_step :: "(timed_event, timed) machine" where
  "untimed_step (TTryLockFor i) s = Blocked"
| "untimed_step e s = timed_step e s"

text \<open>Where a thread stands in \<^verbatim>\<open>BaseMutex\<close>.\<close>

fun base_pc :: "timed_pc \<Rightarrow> lock_pc" where
  "base_pc TIdle = Idle"
| "base_pc (TSpin n) = Spin n"
| "base_pc TFetchAdd = FetchAdd"
| "base_pc TEnqueue = Enqueue"
| "base_pc TAwaitReady = AwaitReady"
| "base_pc TAwaitSuspend = AwaitSuspend"
| "base_pc TParked = Parked"
| "base_pc TBackOut = Idle"
| "base_pc THolding = Holding"
| "base_pc (TPopping next) = Popping"
| "base_pc (TReserving next) = (case next of None \<Rightarrow> Popping | Some p \<Rightarrow> Granting (fst p))"
| "base_pc (TGranting p) = Granting (fst p)"

fun points_to :: "timed_pc \<Rightarrow> nat \<Rightarrow> bool" where
  "points_to (TReserving (Some p)) k = (fst p = k)"
| "points_to (TGranting p) k = (fst p = k)"
| "points_to pc k = False"

definition promise_rel :: "(nat, lock_result) light_future \<Rightarrow> (nat, unit) light_future \<Rightarrow> bool" where
  "promise_rel f g \<longleftrightarrow> continuationPtr f = continuationPtr g \<and>
     (if is_ready g then val f = Placeholder Succeeded \<and> val g = Placeholder ()
      else val f = Unset \<and> val g = Unset)"

definition waiter_rel :: "waiter_obj option \<Rightarrow> (nat, unit) light_future \<Rightarrow> bool" where
  "waiter_rel w g = (case w of None \<Rightarrow> False | Some w \<Rightarrow> timer w = NoTimer \<and> promise_rel (result w) g)"

definition fresh_ptr :: "timed \<Rightarrow> pointer \<Rightarrow> bool" where
  "fresh_ptr s p \<longleftrightarrow> snd p = born s (fst p) \<and>
     (case waiters s (fst p) of None \<Rightarrow> True | Some w \<Rightarrow> \<not> alreadyFinalized w)"

fun slot_ok :: "timed \<Rightarrow> mutex \<Rightarrow> nat \<Rightarrow> timed_pc \<Rightarrow> bool" where
  "slot_ok s m i TEnqueue \<longleftrightarrow> waiters s i = Some TimedMutexWaiter"
| "slot_ok s m i TAwaitReady \<longleftrightarrow> waiter_rel (waiters s i) (promise m i)"
| "slot_ok s m i TAwaitSuspend \<longleftrightarrow> waiter_rel (waiters s i) (promise m i)"
| "slot_ok s m i TParked \<longleftrightarrow> waiter_rel (waiters s i) (promise m i)"
| "slot_ok s m i TBackOut \<longleftrightarrow> False"
| "slot_ok s m i (TPopping next) \<longleftrightarrow> waiters s i = None \<and> next = None"
| "slot_ok s m i (TReserving next) \<longleftrightarrow> waiters s i = None \<and> (case next of None \<Rightarrow> True | Some p \<Rightarrow> fresh_ptr s p)"
| "slot_ok s m i (TGranting p) \<longleftrightarrow> waiters s i = None \<and> snd p = born s (fst p)"
| "slot_ok s m i pc \<longleftrightarrow> waiters s i = None"

definition base_sim :: "timed \<Rightarrow> mutex \<Rightarrow> bool" where
  "base_sim s m \<longleftrightarrow> tCountOfWaiter s = mCountOfWaiter m \<and> map fst (tWaiter s) = mWaiter m \<and>
     handlers s = [] \<and> (\<forall>i. pcs m i = base_pc (tpc s i)) \<and> (\<forall>i. slot_ok s m i (tpc s i)) \<and>
     (\<forall>p \<in> set (tWaiter s). fresh_ptr s p)"

lemma base_simD:
  assumes "base_sim s m"
  shows "mCountOfWaiter m = tCountOfWaiter s" "mWaiter m = map fst (tWaiter s)" "handlers s = []"
    "pcs m i = base_pc (tpc s i)" "slot_ok s m i (tpc s i)" "p \<in> set (tWaiter s) \<Longrightarrow> fresh_ptr s p"
  using assms unfolding base_sim_def by auto

lemma tgoto_simps [simp]:
  "tpc (tgoto i p s) = (tpc s)(i := p)" "tCountOfWaiter (tgoto i p s) = tCountOfWaiter s"
  "tWaiter (tgoto i p s) = tWaiter s" "waiters (tgoto i p s) = waiters s" "born (tgoto i p s) = born s"
  "handlers (tgoto i p s) = handlers s"
  by (simp_all add: tgoto_def)

lemma waiter_simps [simp]:
  "tpc (set_waiter i w s) = tpc s" "tCountOfWaiter (set_waiter i w s) = tCountOfWaiter s"
  "tWaiter (set_waiter i w s) = tWaiter s" "born (set_waiter i w s) = born s"
  "handlers (set_waiter i w s) = handlers s" "waiters (set_waiter i w s) = (waiters s)(i := Some w)"
  "tpc (drop_waiter i s) = tpc s" "tCountOfWaiter (drop_waiter i s) = tCountOfWaiter s"
  "tWaiter (drop_waiter i s) = tWaiter s" "born (drop_waiter i s) = born s"
  "handlers (drop_waiter i s) = handlers s" "waiters (drop_waiter i s) = (waiters s)(i := None)"
  by (simp_all add: set_waiter_def drop_waiter_def)

lemma fresh_ptr_tgoto [simp]: "fresh_ptr (tgoto i p s) q = fresh_ptr s q"
  by (simp add: fresh_ptr_def)

text \<open>What a thread's own pointers say about the threads they point to.\<close>

lemma points_to_granted: "base_sim s m \<Longrightarrow> points_to (tpc s j) k \<Longrightarrow> granted m k"
  unfolding granted_def by (cases "(tpc s j, k)" rule: points_to.cases) (auto simp: base_simD(4) intro!: exI [of _ j])

lemma points_to_carries: "base_sim s m \<Longrightarrow> points_to (tpc s j) k \<Longrightarrow> token m j"
  unfolding token_def by (cases "(tpc s j, k)" rule: points_to.cases) (auto simp: base_simD(4))

lemma pointed_unique:
  "base_sim s m \<Longrightarrow> mutex_inv m \<Longrightarrow> points_to (tpc s i) k \<Longrightarrow> points_to (tpc s j) k' \<Longrightarrow> i = j"
  using points_to_carries mutex_invD(3) by metis

lemma unpointed:
  assumes "base_sim s m" "mutex_inv m" "\<not> awaiting (base_pc (tpc s k))"
  shows "\<not> points_to (tpc s j) k" "k \<notin> fst ` set (tWaiter s)"
proof -
  have "\<not> waiting m k" using assms(3) by (simp add: waiting_def base_simD(4) [OF assms(1)])
  then have "k \<notin> set (mWaiter m)" "\<not> granted m k" using mutex_invD(9) [OF assms(2), of k] by blast+
  then show "\<not> points_to (tpc s j) k" "k \<notin> fst ` set (tWaiter s)"
    using points_to_granted [OF assms(1)] base_simD(2) [OF assms(1)] by auto
qed

lemma pointed_waits:
  assumes "base_sim s m" "mutex_inv m" "points_to (tpc s j) k"
  shows "waiting m k" "\<exists>w. waiters s k = Some w \<and> timer w = NoTimer \<and> promise_rel (result w) (promise m k)"
    "k \<notin> fst ` set (tWaiter s)" "k \<noteq> j"
proof -
  have g: "granted m k" by (rule points_to_granted [OF assms(1,3)])
  with mutex_invD(9) [OF assms(2)] show w: "waiting m k" by blast
  then have "awaiting (base_pc (tpc s k))" by (simp add: waiting_def base_simD(4) [OF assms(1)])
  with base_simD(5) [OF assms(1), of k]
  show "\<exists>w. waiters s k = Some w \<and> timer w = NoTimer \<and> promise_rel (result w) (promise m k)"
    by (cases "tpc s k") (auto simp: waiter_rel_def split: option.splits)
  from mutex_invD(10) [OF assms(2) g] show "k \<notin> fst ` set (tWaiter s)"
    by (simp add: base_simD(2) [OF assms(1)])
  show "k \<noteq> j"
    using w assms(3) base_simD(4) [OF assms(1), of k]
    by (cases "(tpc s j, k)" rule: points_to.cases) (auto simp: waiting_def)
qed

text \<open>A thread's slot depends on its own waiter and promise and on the waiter it points to.\<close>

lemma slot_frame:
  assumes "slot_ok s m j pc" "waiters t j = waiters s j" "promise m' j = promise m j"
    and "\<And>k. points_to pc k \<Longrightarrow> waiters t k = waiters s k \<and> born t k = born s k"
  shows "slot_ok t m' j pc"
proof (cases pc)
  case (TReserving nx)
  with assms(1,2,4) show ?thesis by (cases nx) (auto simp: fresh_ptr_def)
qed (use assms in auto)

text \<open>A step of thread \<open>i\<close> on its own slot and the shared data.\<close>

lemma sim_local:
  assumes sim: "base_sim s m" and "tpc t = (tpc s)(i := pc)" "pcs m' = (pcs m)(i := base_pc pc)"
    and "tCountOfWaiter t = mCountOfWaiter m'" "map fst (tWaiter t) = mWaiter m'" "handlers t = []"
    and "\<And>j. j \<noteq> i \<Longrightarrow> waiters t j = waiters s j \<and> born t j = born s j \<and> promise m' j = promise m j"
    and "waiters t i = waiters s i \<and> born t i = born s i \<or> (\<forall>j. \<not> points_to (tpc s j) i)"
    and "slot_ok t m' i pc" "\<And>p. p \<in> set (tWaiter t) \<Longrightarrow> fresh_ptr t p"
  shows "base_sim t m'"
proof -
  have "slot_ok t m' j (tpc t j)" for j
  proof (cases "j = i")
    case True
    with assms(2,9) show ?thesis by simp
  next
    case False
    have "slot_ok t m' j (tpc s j)"
    proof (rule slot_frame [OF base_simD(5) [OF sim]])
      show "waiters t j = waiters s j" "promise m' j = promise m j" using assms(7) False by blast+
      show "waiters t k = waiters s k \<and> born t k = born s k" if "points_to (tpc s j) k" for k
        using assms(7,8) that by (cases "k = i") blast+
    qed
    with False assms(2) show ?thesis by simp
  qed
  then show ?thesis using assms(2-6,10) base_simD(4) [OF sim] by (auto simp: base_sim_def)
qed

text \<open>The same when the step changes the waiter of thread \<open>i\<close> in place, to which others may point.\<close>

lemma sim_local_same:
  assumes sim: "base_sim s m" and "tpc t = (tpc s)(i := pc)" "pcs m' = (pcs m)(i := base_pc pc)"
    and "tCountOfWaiter t = mCountOfWaiter m'" "tWaiter t = tWaiter s" "map fst (tWaiter t) = mWaiter m'"
    and "handlers t = []" "waiters s i = Some w" "waiters t = (waiters s)(i := Some w')" "born t = born s"
    and "alreadyFinalized w' = alreadyFinalized w"
    and "\<And>j. j \<noteq> i \<Longrightarrow> promise m' j = promise m j" "slot_ok t m' i pc"
  shows "base_sim t m'"
proof -
  have fresh: "fresh_ptr t p = fresh_ptr s p" for p
    using assms(8-11) by (simp add: fresh_ptr_def)
  have "slot_ok t m' j (tpc t j)" for j
  proof (cases "j = i")
    case True
    with assms(2,13) show ?thesis by simp
  next
    case False
    with base_simD(5) [OF sim, of j] assms(2,9,10,12) fresh show ?thesis
      by (cases "tpc s j") (auto split: option.splits)
  qed
  with assms(2-7) base_simD(4,6) [OF sim] fresh show ?thesis by (auto simp: base_sim_def)
qed

text \<open>What a step of the timed mutex is for \<^verbatim>\<open>BaseMutex\<close>: a step, or none.\<close>

fun follows :: "mutex \<Rightarrow> timed outcome \<Rightarrow> bool" where
  "follows m Blocked = True"
| "follows m (Fault f) = (f = NullDeref)"
| "follows m (Next t) = (base_sim t m \<or> (\<exists>e m'. mutex_step FairPolicy e m = Next m' \<and> base_sim t m'))"

lemma follows_if [simp]: "follows m (if b then x else y) = (if b then follows m x else follows m y)"
  by simp


lemma followsI:
  "mutex_step FairPolicy e m = Next m' \<Longrightarrow> base_sim t m' \<Longrightarrow> r = Next t \<Longrightarrow> follows m r"
  by auto

lemma timed_try_lock_sim:
  assumes sim: "base_sim s m" and inv: "mutex_inv m" and idle: "tpc s i = TIdle"
  shows "follows m (timed_try_lock i weak s)"
proof -
  note S = base_simD [OF sim]
  have c: "0 \<le> tCountOfWaiter s" using mutex_invD(5) [OF inv] S(1) by simp
  have p: "pcs m i = Idle" "slot_ok s m i TIdle" using S(4,5) [of i] idle by simp_all
  show ?thesis
  proof (cases "tCountOfWaiter s = 0 \<and> \<not> weak")
    case True
    let ?t = "tgoto i THolding (s\<lparr>tCountOfWaiter := 1\<rparr>)"
    let ?m = "goto i Holding (m\<lparr>mCountOfWaiter := 1\<rparr>)"
    have "mutex_step FairPolicy (CallTryLock i False) m = Next ?m"
      using True p S(1) by (simp add: try_lock_def cas_lock_def)
    moreover have "base_sim ?t ?m"
      by (rule sim_local [OF sim, where i = i and pc = THolding])
        (use S p in \<open>auto simp: fresh_ptr_def\<close>)
    moreover have "timed_try_lock i weak s = Next ?t"
      using True by (simp add: timed_try_lock_def timed_cas_def)
    ultimately show ?thesis by (rule followsI)
  next
    case False
    with c sim show ?thesis by (auto simp: timed_try_lock_def timed_cas_def)
  qed
qed

text \<open>The fast path: a free lock is taken.\<close>

lemma take_lock_sim:
  assumes sim: "base_sim s m" and spin: "spinning (tpc s i)"
  shows "base_sim (tgoto i THolding (s\<lparr>tCountOfWaiter := 1\<rparr>)) (goto i Holding (m\<lparr>mCountOfWaiter := 1\<rparr>))"
proof -
  note S = base_simD [OF sim]
  have "waiters s i = None" using S(5) [of i] spin by (cases "tpc s i") simp_all
  then show ?thesis
    by (intro sim_local [OF sim, where i = i and pc = THolding]) (use S in \<open>auto simp: fresh_ptr_def\<close>)
qed

lemma spin_sim:
  assumes sim: "base_sim s m" and inv: "mutex_inv m" and TSpin: "tpc s i = TSpin n"
  shows "follows m (spinLock_step i weak s)"
proof -
  note S = base_simD [OF sim]
  have c: "0 \<le> tCountOfWaiter s" using mutex_invD(5) [OF inv] S(1) by simp
  have own: "waiters s i = None" using S(5) [of i] TSpin by simp
  have pm: "pcs m i = Spin n" using S(4) [of i] TSpin by simp
  have move: "base_sim (tgoto i pc s) (goto i (base_pc pc) m)" if "pc = TFetchAdd \<or> pc = TSpin k" for pc k
    by (rule sim_local [OF sim, where i = i and pc = pc]) (use S own that in \<open>auto simp: fresh_ptr_def\<close>)
  show ?thesis
  proof (cases "tCountOfWaiter s = 0 \<and> \<not> weak")
    case True
    let ?t = "tgoto i THolding (s\<lparr>tCountOfWaiter := 1\<rparr>)"
    let ?m = "goto i Holding (m\<lparr>mCountOfWaiter := 1\<rparr>)"
    have "mutex_step FairPolicy (Go i False) m = Next ?m"
      using True pm S(1) by (simp add: lock_step_def cas_lock_def)
    moreover have "base_sim ?t ?m" by (rule take_lock_sim [OF sim]) (simp add: TSpin)
    moreover have "spinLock_step i weak s = Next ?t"
      using True TSpin by (simp add: spinLock_step_def timed_cas_def)
    ultimately show ?thesis by (rule followsI)
  next
    case False
    have step: "mutex_step FairPolicy (Go i True) m =
        (if tCountOfWaiter s > 1 \<or> \<not> Suc n < 8 then Next (goto i FetchAdd m)
         else Next (goto i (Spin (Suc n)) m))"
      using pm S(1) c by (auto simp: lock_step_def cas_lock_def)
    have "spinLock_step i weak s =
        (if tCountOfWaiter s > 1 \<or> \<not> Suc n < 8 then Next (tgoto i TFetchAdd s)
         else Next (tgoto i (TSpin (Suc n)) s))"
      using False TSpin c by (auto simp: spinLock_step_def timed_cas_def)
    with step show ?thesis
      using followsI [OF _ move [of TFetchAdd], of "Go i True"]
        followsI [OF _ move [of "TSpin (Suc n)" "Suc n"], of "Go i True"]
      by (cases "tCountOfWaiter s > 1 \<or> \<not> Suc n < 8") (simp_all del: mutex_step.simps follows.simps)
  qed
qed

lemma fetch_add_sim:
  assumes sim: "base_sim s m" and inv: "mutex_inv m" and TFetchAdd: "tpc s i = TFetchAdd"
  shows "follows m (spinLock_step i weak s)"
proof -
  note S = base_simD [OF sim]
  have na: "\<not> awaiting (base_pc (tpc s i))" using TFetchAdd by simp
  note free = unpointed [OF sim inv na]
  have pm: "pcs m i = FetchAdd" using S(4) [of i] TFetchAdd by simp
  show ?thesis
  proof (cases "tCountOfWaiter s = 0")
    case True
    let ?t = "tgoto i THolding (s\<lparr>tCountOfWaiter := 1\<rparr>)"
    let ?m = "goto i Holding (m\<lparr>mCountOfWaiter := 1\<rparr>)"
    have "mutex_step FairPolicy (Go i False) m = Next ?m"
      using True pm S(1) by (simp add: lock_step_def)
    moreover have "base_sim ?t ?m" by (rule take_lock_sim [OF sim]) (simp add: TFetchAdd)
    moreover have "spinLock_step i weak s = Next ?t"
      using True TFetchAdd by (simp add: spinLock_step_def)
    ultimately show ?thesis by (rule followsI)
  next
    case False
    let ?t = "tgoto i TEnqueue (make_waiter i TimedMutexWaiter (s\<lparr>tCountOfWaiter := tCountOfWaiter s + 1\<rparr>))"
    let ?m = "goto i Enqueue (m\<lparr>mCountOfWaiter := mCountOfWaiter m + 1\<rparr>)"
    have "mutex_step FairPolicy (Go i False) m = Next ?m"
      using False pm S(1) by (simp add: lock_step_def Let_def)
    moreover have "base_sim ?t ?m"
    proof (rule sim_local [OF sim, where i = i and pc = TEnqueue])
      show "fresh_ptr ?t p" if "p \<in> set (tWaiter ?t)" for p
        using that S(6) [of p] free(2) by (force simp: make_waiter_def fresh_ptr_def)
    qed (use S free in \<open>auto simp: make_waiter_def\<close>)
    moreover have "spinLock_step i weak s = Next ?t"
      using False TFetchAdd by (simp add: spinLock_step_def Let_def)
    ultimately show ?thesis by (rule followsI)
  qed
qed

lemma spinLock_sim:
  assumes "base_sim s m" "mutex_inv m" "spinning (tpc s i)"
  shows "follows m (spinLock_step i weak s)"
  using assms spin_sim [OF assms(1,2)] fetch_add_sim [OF assms(1,2)]
  by (cases "tpc s i") (simp_all del: follows.simps)

lemma timed_unlock_sim:
  assumes sim: "base_sim s m" and inv: "mutex_inv m" and hold: "tpc s i = THolding"
  shows "follows m (timed_unlock i s)"
proof -
  note S = base_simD [OF sim]
  have pm: "pcs m i = Holding" and own: "waiters s i = None" using S(4,5) [of i] hold by simp_all
  have "0 < mCountOfWaiter m"
    using mutex_invD(4,5) [OF inv] pm by (metis active.simps(5) emptyE less_le mem_actives)
  then have c: "0 < tCountOfWaiter s" using S(1) by simp
  let ?pc = "if tCountOfWaiter s = 1 then TIdle else TPopping None"
  let ?t = "tgoto i ?pc (s\<lparr>tCountOfWaiter := tCountOfWaiter s - 1\<rparr>)"
  let ?m = "goto i (base_pc ?pc) (m\<lparr>mCountOfWaiter := mCountOfWaiter m - 1\<rparr>)"
  have "mutex_step FairPolicy (CallUnlock i) m = Next ?m"
    using pm S(1) c by (auto simp: unlock_def Let_def)
  moreover have "base_sim ?t ?m"
    by (rule sim_local [OF sim, where i = i and pc = ?pc]) (use S own in \<open>auto simp: fresh_ptr_def\<close>)
  moreover have "timed_unlock i s = Next ?t" using c by (auto simp: timed_unlock_def Let_def)
  ultimately show ?thesis by (rule followsI)
qed


text \<open>A waiter whose promise is set returns from \<^verbatim>\<open>await\<close> with the lock.\<close>

lemma after_await_succeeded:
  assumes "waiters s i = Some w" "timer w = NoTimer" "result w = \<lparr>continuationPtr = InvalidHandle, val = Placeholder Succeeded\<rparr>"
  shows "after_await i s = Next (tgoto i THolding (drop_waiter i s))"
  using assms by (simp add: after_await_def get_unchecked_def is_ready_weak_def)

lemma promise_rel_ready:
  assumes "promise_rel f g" "is_ready g"
  shows "f = \<lparr>continuationPtr = InvalidHandle, val = Placeholder Succeeded\<rparr>"
  using assms by (cases f) (auto simp: promise_rel_def is_ready_def)

lemma wake_sim:
  assumes sim: "base_sim s m" and inv: "mutex_inv m" and aw: "awaiting (base_pc (tpc s i))"
    and ready: "is_ready (promise m i)"
  shows "base_sim (tgoto i THolding (drop_waiter i s)) (goto i Holding m)"
proof -
  note S = base_simD [OF sim]
  have "\<not> waiting m i" using ready by (simp add: waiting_def)
  then have free: "\<not> points_to (tpc s j) i" "i \<notin> fst ` set (tWaiter s)" for j
    using points_to_granted [OF sim] mutex_invD(9) [OF inv, of i] S(2) by auto
  show ?thesis
  proof (rule sim_local [OF sim, where i = i and pc = THolding])
    show "fresh_ptr (tgoto i THolding (drop_waiter i s)) p"
      if "p \<in> set (tWaiter (tgoto i THolding (drop_waiter i s)))" for p
      using that S(6) [of p] by (auto simp: drop_waiter_def fresh_ptr_def)
  qed (use S free in \<open>auto simp: drop_waiter_def\<close>)
qed

lemma enqueue_sim:
  assumes sim: "base_sim s m" and inv: "mutex_inv m" and TEnqueue: "tpc s i = TEnqueue"
  shows "follows m (wait_step i s)"
proof -
  note S = base_simD [OF sim]
  have pm: "pcs m i = Enqueue" and own: "waiters s i = Some TimedMutexWaiter"
    using S(4,5) [of i] TEnqueue by simp_all
  have free: "\<not> points_to (tpc s j) i" "i \<notin> fst ` set (tWaiter s)" for j
    using unpointed [OF sim inv, of i] TEnqueue by auto
  let ?t = "tgoto i TAwaitReady (s\<lparr>tWaiter := tWaiter s @ [(i, born s i)]\<rparr>)"
  let ?m = "goto i AwaitReady (m\<lparr>promise := (promise m)(i := LightFutureData),
      mWaiter := mWaiter m @ [i]\<rparr>)"
  have "mutex_step FairPolicy (Go i False) m = Next ?m"
    using pm by (simp add: lock_step_def FairPolicy_def)
  moreover have "base_sim ?t ?m"
    by (rule sim_local [OF sim, where i = i and pc = TAwaitReady])
      (use S own free in \<open>auto simp: fresh_ptr_def TimedMutexWaiter_def waiter_rel_def promise_rel_def
         LightFutureData_def is_ready_def\<close>)
  moreover have "wait_step i s = Next ?t"
    using TEnqueue own by (simp add: wait_step_def timedAddToWaiter_def)
  ultimately show ?thesis by (rule followsI)
qed

lemma await_ready_sim:
  assumes sim: "base_sim s m" and inv: "mutex_inv m" and TAwaitReady: "tpc s i = TAwaitReady"
  shows "follows m (wait_step i s)"
proof -
  note S = base_simD [OF sim]
  have pm: "pcs m i = AwaitReady" using S(4) [of i] TAwaitReady by simp
  obtain w where w: "waiters s i = Some w" "timer w = NoTimer" "promise_rel (result w) (promise m i)"
    using S(5) [of i] TAwaitReady by (auto simp: waiter_rel_def split: option.splits)
  show ?thesis
  proof (cases "is_ready (promise m i)")
    case True
    note f = promise_rel_ready [OF w(3) True]
    have "mutex_step FairPolicy (Go i False) m = Next (goto i Holding m)"
      using pm True by (simp add: lock_step_def future_defs)
    moreover have "base_sim (tgoto i THolding (drop_waiter i s)) (goto i Holding m)"
      by (rule wake_sim [OF sim inv _ True]) (simp add: TAwaitReady)
    moreover have "wait_step i s = Next (tgoto i THolding (drop_waiter i s))"
      using TAwaitReady w f after_await_succeeded [OF w(1,2) f]
      by (simp add: wait_step_def future_defs)
    ultimately show ?thesis by (rule followsI)
  next
    case False
    have "mutex_step FairPolicy (Go i False) m = Next (goto i AwaitSuspend m)"
      using pm False by (simp add: lock_step_def future_defs)
    moreover have "base_sim (tgoto i TAwaitSuspend s) (goto i AwaitSuspend m)"
      by (rule sim_local [OF sim, where i = i and pc = TAwaitSuspend])
        (use S w in \<open>auto simp: fresh_ptr_def waiter_rel_def\<close>)
    moreover have "wait_step i s = Next (tgoto i TAwaitSuspend s)"
      using TAwaitReady w False by (simp add: wait_step_def future_defs promise_rel_def)
    ultimately show ?thesis by (rule followsI)
  qed
qed

lemma await_suspend_sim:
  assumes sim: "base_sim s m" and inv: "mutex_inv m" and TAwaitSuspend: "tpc s i = TAwaitSuspend"
  shows "follows m (wait_step i s)"
proof -
  note S = base_simD [OF sim]
  have pm: "pcs m i = AwaitSuspend" using S(4) [of i] TAwaitSuspend by simp
  obtain w where w: "waiters s i = Some w" "timer w = NoTimer" "promise_rel (result w) (promise m i)"
    using S(5) [of i] TAwaitSuspend by (auto simp: waiter_rel_def split: option.splits)
  have h: "continuationPtr (promise m i) = EmptyHandle \<or> is_ready (promise m i)"
    using mutex_invD(11) [OF inv, of i] pm by (auto simp: handle_ok_def is_ready_def)
  show ?thesis
  proof (cases "is_ready (promise m i)")
    case True
    note f = promise_rel_ready [OF w(3) True]
    have "(promise m)(i := promise m i) = promise m" by simp
    then have "mutex_step FairPolicy (Go i False) m = Next (goto i Holding m)"
      using pm True by (simp add: lock_step_def future_defs)
    moreover have "base_sim (tgoto i THolding (drop_waiter i s)) (goto i Holding m)"
      by (rule wake_sim [OF sim inv _ True]) (simp add: TAwaitSuspend)
    moreover have "wait_step i s = Next (tgoto i THolding (drop_waiter i s))"
      using TAwaitSuspend w f after_await_succeeded [OF w(1,2) f]
      by (simp add: wait_step_def future_defs)
    ultimately show ?thesis by (rule followsI)
  next
    case False
    with h have e: "continuationPtr (promise m i) = EmptyHandle" by blast
    let ?w = "w\<lparr>result := (result w)\<lparr>continuationPtr := Handle i\<rparr>\<rparr>"
    let ?t = "tgoto i TParked (set_waiter i ?w s)"
    let ?m = "goto i Parked (m\<lparr>promise := (promise m)(i := (promise m i)\<lparr>continuationPtr := Handle i\<rparr>)\<rparr>)"
    have "mutex_step FairPolicy (Go i False) m = Next ?m"
      using pm e by (simp add: lock_step_def future_defs)
    moreover have "base_sim ?t ?m"
    proof (rule sim_local_same [OF sim, where i = i and pc = TParked and w = w and w' = ?w])
      show "slot_ok ?t ?m i TParked"
        using w False by (simp add: set_waiter_def waiter_rel_def promise_rel_def is_ready_def)
    qed (use S w in \<open>auto simp: set_waiter_def\<close>)
    moreover have "wait_step i s = Next ?t"
      using TAwaitSuspend w e by (simp add: wait_step_def future_defs promise_rel_def)
    ultimately show ?thesis by (rule followsI)
  qed
qed

lemma wait_sim:
  assumes sim: "base_sim s m" and inv: "mutex_inv m"
  shows "follows m (wait_step i s)"
proof (cases "tpc s i")
  case TEnqueue
  then show ?thesis by (rule enqueue_sim [OF sim inv])
next
  case TAwaitReady
  then show ?thesis by (rule await_ready_sim [OF sim inv])
next
  case TAwaitSuspend
  then show ?thesis by (rule await_suspend_sim [OF sim inv])
next
  case TBackOut
  with base_simD(5) [OF sim, of i] show ?thesis by simp
qed (auto simp: wait_step_def split: option.split)


lemma popping_sim:
  assumes sim: "base_sim s m" and inv: "mutex_inv m" and pc: "tpc s i = TPopping nx"
  shows "follows m (timed_unlock_step i s)"
proof -
  note S = base_simD [OF sim]
  have pm: "pcs m i = Popping" and own: "nx = None" "waiters s i = None"
    using S(4,5) [of i] pc by simp_all
  show ?thesis
  proof (cases "tWaiter s")
    case Nil
    have "base_sim (tgoto i (TReserving None) s) m"
    proof (rule sim_local [OF sim, where i = i and pc = "TReserving None"])
      show "pcs m = (pcs m)(i := base_pc (TReserving None))" using pm by (simp add: fun_upd_idem)
    qed (use S own in auto)
    then show ?thesis using Nil pc own by (simp add: timed_unlock_step_def)
  next
    case (Cons p q)
    have fp: "fresh_ptr s p" using S(6) [of p] Cons by simp
    let ?t = "tgoto i (TReserving (Some p)) (s\<lparr>tWaiter := q\<rparr>)"
    let ?m = "goto i (Granting (fst p)) (m\<lparr>mWaiter := map fst q\<rparr>)"
    have "mutex_step FairPolicy (Go i False) m = Next ?m"
      using pm S(2) Cons by (simp add: unlock_step_def FairPolicy_def)
    moreover have "base_sim ?t ?m"
      by (rule sim_local [OF sim, where i = i and pc = "TReserving (Some p)"])
        (use S own fp Cons in \<open>auto simp: fresh_ptr_def\<close>)
    moreover have "timed_unlock_step i s = Next ?t"
      using pc Cons by (simp add: timed_unlock_step_def timedGetNextWaiter_def)
    ultimately show ?thesis by (rule followsI)
  qed
qed

lemma reserving_sim:
  assumes sim: "base_sim s m" and inv: "mutex_inv m" and pc: "tpc s i = TReserving nx"
  shows "follows m (timed_unlock_step i s)"
proof (cases nx)
  case None
  with pc show ?thesis by (simp add: timed_unlock_step_def)
next
  case (Some p)
  note S = base_simD [OF sim]
  obtain k g where p: "p = (k, g)" by (cases p)
  have pt: "points_to (tpc s i) k" using pc Some p by simp
  obtain w where w: "waiters s k = Some w" using pointed_waits(2) [OF sim inv pt] by blast
  have own: "waiters s i = None" "g = born s k" "\<not> alreadyFinalized w"
    using S(5) [of i] pc Some p w by (simp_all add: fresh_ptr_def)
  let ?w = "w\<lparr>alreadyFinalized := True\<rparr>"
  let ?t = "tgoto i (TGranting p) (set_waiter k ?w s)"
  have pcs: "pcs m j = base_pc (tpc ?t j)" for j
    using S(4) [of j] pc Some p by simp
  have "slot_ok ?t m j (tpc ?t j)" for j
  proof (cases "j = i")
    case True
    with own p pointed_waits(4) [OF sim inv pt] show ?thesis by (simp add: set_waiter_def)
  next
    case False
    then have np: "\<not> points_to (tpc s j) k" using pointed_unique [OF sim inv pt] by blast
    show ?thesis
    proof (cases "j = k")
      case True
      with S(5) [of k] False w pointed_waits(1) [OF sim inv pt] S(4) [of k] show ?thesis
        by (cases "tpc s k") (auto simp: set_waiter_def waiter_rel_def waiting_def split: option.splits)
    next
      case jk: False
      have "slot_ok ?t m j (tpc s j)"
        by (rule slot_frame [OF S(5)]) (use jk np in \<open>auto simp: set_waiter_def\<close>)
      with False show ?thesis by simp
    qed
  qed
  moreover have "fresh_ptr ?t q" if "q \<in> set (tWaiter ?t)" for q
    using that S(6) [of q] pointed_waits(3) [OF sim inv pt] by (force simp: set_waiter_def fresh_ptr_def)
  ultimately have "base_sim ?t m"
    using S(1-3) pcs unfolding base_sim_def by (simp add: set_waiter_def)
  moreover have "timed_unlock_step i s = Next ?t"
    using pc Some p w own by (simp add: timed_unlock_step_def deref_def reserve_def)
  ultimately show ?thesis by simp
qed

text \<open>Setting the promise of a waiter, and resuming it if it is suspended.\<close>

lemma granted_sim:
  assumes sim: "base_sim s m" and inv: "mutex_inv m" and pc: "tpc s i = TGranting (k, g)"
    and w: "waiters s k = Some w" "timer w = NoTimer"
  shows "base_sim (tgoto i TIdle (set_waiter k (w\<lparr>result :=
      \<lparr>continuationPtr = InvalidHandle, val = Placeholder Succeeded\<rparr>\<rparr>) s))
    (goto i Idle (m\<lparr>promise := (promise m)(k := \<lparr>continuationPtr = InvalidHandle, val = Placeholder ()\<rparr>)\<rparr>))"
proof -
  note S = base_simD [OF sim]
  have pt: "points_to (tpc s i) k" using pc by simp
  have own: "waiters s i = None" using S(5) [of i] pc by simp
  note ki = pointed_waits(4) [OF sim inv pt] and nd = pointed_waits(3) [OF sim inv pt]
  have aw: "awaiting (pcs m k)" using pointed_waits(1) [OF sim inv pt] by (simp add: waiting_def)
  let ?f = "\<lparr>continuationPtr = InvalidHandle, val = Placeholder Succeeded\<rparr>"
  let ?g = "\<lparr>continuationPtr = InvalidHandle, val = Placeholder ()\<rparr>"
  let ?w = "w\<lparr>result := ?f\<rparr>"
  let ?t = "tgoto i TIdle (set_waiter k ?w s)"
  let ?m = "goto i Idle (m\<lparr>promise := (promise m)(k := ?g)\<rparr>)"
  have np: "\<not> points_to (tpc s j) k" if "j \<noteq> i" for j
    using pointed_unique [OF sim inv pt] that by blast
  have pk: "pcs m k = base_pc (tpc s k)" by (rule S(4))
  have "slot_ok ?t ?m j (tpc ?t j)" for j
  proof (cases "j = i")
    case True
    with own ki show ?thesis by (simp add: set_waiter_def)
  next
    case False
    show ?thesis
    proof (cases "j = k")
      case True
      with S(5) [of k] False aw pk w show ?thesis
        by (cases "tpc s k") (auto simp: set_waiter_def waiter_rel_def promise_rel_def is_ready_def split: option.splits)
    next
      case jk: False
      have "slot_ok ?t ?m j (tpc s j)"
        by (rule slot_frame [OF S(5)]) (use jk np [OF False] in \<open>auto simp: set_waiter_def\<close>)
      with False show ?thesis by simp
    qed
  qed
  moreover have "fresh_ptr ?t q" if "q \<in> set (tWaiter ?t)" for q
    using that S(6) [of q] nd by (force simp: set_waiter_def fresh_ptr_def)
  ultimately show ?thesis
    using S(1-4) unfolding base_sim_def by (simp add: set_waiter_def)
qed

lemma granted_woken_sim:
  assumes sim: "base_sim s m" and inv: "mutex_inv m" and pt: "points_to (tpc s i) k"
    and nd: "k \<notin> fst ` set (tWaiter s)"
    and sim': "base_sim (tgoto i TIdle (set_waiter k w s)) m'"
  shows "base_sim (tgoto k THolding (drop_waiter k (tgoto i TIdle (set_waiter k w s)))) (goto k Holding m')"
    (is "base_sim (tgoto k THolding (drop_waiter k ?t)) _")
proof -
  note S = base_simD [OF sim]
  have np: "\<not> points_to (tpc s j) k" if "j \<noteq> i" for j
    using pointed_unique [OF sim inv pt] that by blast
  have kk: "\<not> points_to (tpc ?t j) k" for j using np by (cases "j = i") simp_all
  show ?thesis
  proof (rule sim_local [OF sim', where i = k and pc = THolding])
    show "fresh_ptr (tgoto k THolding (drop_waiter k ?t)) q"
      if "q \<in> set (tWaiter (tgoto k THolding (drop_waiter k ?t)))" for q
      using that S(6) [of q] nd by (force simp: set_waiter_def drop_waiter_def fresh_ptr_def)
  qed (use base_simD [OF sim'] kk in \<open>auto simp: drop_waiter_def set_waiter_def\<close>)
qed

lemma granting_sim:
  assumes sim: "base_sim s m" and inv: "mutex_inv m" and pc: "tpc s i = TGranting p"
  shows "follows m (timed_unlock_step i s)"
proof -
  note S = base_simD [OF sim]
  obtain k g where p: "p = (k, g)" by (cases p)
  have pt: "points_to (tpc s i) k" using pc p by simp
  have pm: "pcs m i = Granting k" and own: "waiters s i = None" "g = born s k"
    using S(4,5) [of i] pc p by simp_all
  note wt = pointed_waits(1) [OF sim inv pt] and ki = pointed_waits(4) [OF sim inv pt]
    and nd = pointed_waits(3) [OF sim inv pt]
  obtain w where w: "waiters s k = Some w" "timer w = NoTimer" "promise_rel (result w) (promise m k)"
    using pointed_waits(2) [OF sim inv pt] by blast
  have ready: "\<not> is_ready (promise m k)" and aw: "awaiting (pcs m k)"
    using wt by (simp_all add: waiting_def)
  let ?f = "\<lparr>continuationPtr = InvalidHandle, val = Placeholder Succeeded\<rparr>"
  let ?g = "\<lparr>continuationPtr = InvalidHandle, val = Placeholder ()\<rparr>"
  let ?w = "w\<lparr>result := ?f\<rparr>"
  let ?t = "tgoto i TIdle (set_waiter k ?w s)"
  let ?m = "goto i Idle (m\<lparr>promise := (promise m)(k := ?g)\<rparr>)"
  have sim': "base_sim ?t ?m" by (rule granted_sim [OF sim inv pc [unfolded p] w(1,2)])
  have h: "handle_ok k (pcs m k) (continuationPtr (promise m k))" by (rule mutex_invD(11) [OF inv])
  show ?thesis
  proof (cases "pcs m k = Parked")
    case True
    then have hk: "continuationPtr (promise m k) = Handle k" using h by (simp add: handle_ok_def)
    have "mutex_step FairPolicy (Go i False) m = Next (goto k Holding ?m)"
      using pm hk by (cases "promise m k") (simp add: unlock_step_def set_value_def on_ready_def)
    moreover have "base_sim (tgoto k THolding (drop_waiter k ?t)) (goto k Holding ?m)"
      by (rule granted_woken_sim [OF sim inv pt nd sim'])
    moreover have "timed_unlock_step i s = Next (tgoto k THolding (drop_waiter k ?t))"
      using pc p w own hk
      by (simp add: timed_unlock_step_def deref_def set_value_def on_ready_def promise_rel_def resumed_def
          after_await_def set_waiter_def get_unchecked_def is_ready_weak_def)
    ultimately show ?thesis by (rule followsI)
  next
    case False
    then have hk: "continuationPtr (promise m k) = EmptyHandle"
      using h aw ready by (cases "pcs m k") (auto simp: handle_ok_def is_ready_def)
    have "mutex_step FairPolicy (Go i False) m = Next ?m"
      using pm hk by (cases "promise m k") (simp add: unlock_step_def set_value_def on_ready_def)
    moreover have "timed_unlock_step i s = Next ?t"
      using pc p w own hk
      by (cases "result w")
        (simp add: timed_unlock_step_def deref_def set_value_def on_ready_def promise_rel_def resumed_def)
    ultimately show ?thesis using sim' followsI by blast
  qed
qed

lemma untimed_sim:
  assumes sim: "base_sim s m" and inv: "mutex_inv m"
  shows "follows m (untimed_step e s)"
proof (cases e)
  case (TLock i)
  note S = base_simD [OF sim]
  show ?thesis
  proof (cases "tpc s i = TIdle")
    case True
    have "mutex_step FairPolicy (CallLock i) m = Next (goto i (Spin 0) m)"
      using S(4) [of i] True by simp
    moreover have "base_sim (tgoto i (TSpin 0) s) (goto i (Spin 0) m)"
      by (rule sim_local [OF sim, where i = i and pc = "TSpin 0"])
        (use S S(5) [of i] True in \<open>auto simp: fresh_ptr_def\<close>)
    moreover have "untimed_step e s = Next (tgoto i (TSpin 0) s)" using TLock True by simp
    ultimately show ?thesis by (rule followsI)
  qed (simp add: TLock)
next
  case (TTryLock i weak)
  with timed_try_lock_sim [OF sim inv, of i weak] show ?thesis by simp
next
  case (TUnlock i)
  with timed_unlock_sim [OF sim inv, of i] show ?thesis by simp
next
  case (TGo i weak)
  show ?thesis
  proof (cases "timed_unlocking (tpc s i)")
    case True
    with TGo popping_sim [OF sim inv, of i] reserving_sim [OF sim inv, of i] granting_sim [OF sim inv, of i]
    show ?thesis by (cases "tpc s i") simp_all
  next
    case False
    with TGo spinLock_sim [OF sim inv, of i weak] wait_sim [OF sim inv, of i] show ?thesis by simp
  qed
next
  case (Expire i)
  have "timer w \<noteq> Pending" if "waiters s i = Some w" for w
    using base_simD(5) [OF sim, of i] that
    by (cases "tpc s i") (auto simp: waiter_rel_def TimedMutexWaiter_def)
  then show ?thesis by (simp add: Expire expire_def split: option.split)
next
  case RunHandler
  then show ?thesis by (simp add: timeout_handler_def base_simD(3) [OF sim])
qed simp


lemma timed_init_sim: "base_sim timed_init mutex_init"
  by (simp add: base_sim_def timed_init_def mutex_init_def)

lemma untimed_run_sim:
  assumes "base_sim s m" "mutex_inv m" "run untimed_step es s = Next t"
  shows "\<exists>ms m'. run (mutex_step FairPolicy) ms m = Next m' \<and> base_sim t m' \<and> mutex_inv m'"
  using assms
proof (induction es arbitrary: s m)
  case Nil
  have "run (mutex_step FairPolicy) [] m = Next m" by simp
  moreover have "base_sim t m" using Nil by simp
  ultimately show ?case using Nil.prems(2) by blast
next
  case (Cons e es)
  then obtain u where u: "untimed_step e s = Next u" "run untimed_step es u = Next t" by auto
  from untimed_sim [OF Cons.prems(1,2), of e] u(1)
  consider "base_sim u m" | d m1 where "mutex_step FairPolicy d m = Next m1" "base_sim u m1" by auto
  then show ?case
  proof cases
    case 1
    with Cons.IH [OF _ Cons.prems(2) u(2)] show ?thesis by blast
  next
    case 2
    have "mutex_inv m1" using fair.mutex.keep [OF Cons.prems(2) 2(1)] .
    with Cons.IH [OF 2(2) _ u(2)] obtain ms m' where
      "run (mutex_step FairPolicy) ms m1 = Next m'" "base_sim t m'" "mutex_inv m'" by blast
    with 2(1) have "run (mutex_step FairPolicy) (d # ms) m = Next m'" by simp
    with \<open>base_sim t m'\<close> \<open>mutex_inv m'\<close> show ?thesis by blast
  qed
qed


section \<open>Properties\<close>

text \<open>
  C17. As long as \<^verbatim>\<open>try_lock_for\<close> is not used, \<^verbatim>\<open>BaseTimedMutex\<close> implements the fair \<^verbatim>\<open>BaseMutex\<close>:
  every run is one of it, with the same counter, the same queue and every thread at the same
  point, so that two threads never hold the lock together. The one fault it can have, and
  \<^verbatim>\<open>BaseMutex\<close> does not, is the null pointer that \<^verbatim>\<open>unlock\<close> dereferences when it found no
  waiter in the queue.
\<close>

theorem timed_mutex_refines:
  assumes "run untimed_step es timed_init = Next s"
  shows "(\<exists>ms m. run (mutex_step FairPolicy) ms mutex_init = Next m \<and> mCountOfWaiter m = tCountOfWaiter s \<and>
      mWaiter m = map fst (tWaiter s) \<and> (\<forall>i. pcs m i = base_pc (tpc s i))) \<and>
    (tpc s i = THolding \<and> tpc s j = THolding \<longrightarrow> i = j) \<and>
    (untimed_step e s = Fault f \<longrightarrow> f = NullDeref)"
proof -
  obtain ms m where m: "run (mutex_step FairPolicy) ms mutex_init = Next m" "base_sim s m" "mutex_inv m"
    using untimed_run_sim [OF timed_init_sim mutex_inv_init assms] by blast
  note S = base_simD [OF m(2)]
  have "i = j" if "tpc s i = THolding" "tpc s j = THolding"
    using mutex_invD(3) [OF m(3), of i j] S(4) [of i] S(4) [of j] that by (simp add: token_def)
  moreover have "untimed_step e s = Fault f \<longrightarrow> f = NullDeref"
    using untimed_sim [OF m(2,3), of e] by auto
  ultimately show ?thesis using m(1) S(1,2,4) by blast
qed

text \<open>Thread 0 takes the lock, thread 1 fails to and is about to enqueue itself.\<close>

definition second_enqueues :: "timed_event list" where
  "second_enqueues = [TLock 0, TGo 0 False, TLock 1] @ replicate 9 (TGo 1 False)"

lemma timed_mutex_refines_witness:
  "\<exists>s. run untimed_step second_enqueues timed_init = Next s \<and> tpc s 0 = THolding \<and> tpc s 1 = TEnqueue \<and>
     \<not> (tpc s 0 = THolding \<and> tpc s 1 = THolding)"
proof -
  obtain s where s: "run untimed_step second_enqueues timed_init = Next s" "tpc s 0 = THolding"
    "tpc s 1 = TEnqueue"
    by (simp add: second_enqueues_def timed_eval numeral_eq_Suc)
  with timed_mutex_refines [OF s(1), of 0 1] show ?thesis by auto
qed

text \<open>
  \<^verbatim>\<open>unlock\<close> of \<^verbatim>\<open>BaseTimedMutex\<close> dereferences a null pointer when a thread in \<^verbatim>\<open>lock\<close> has been
  counted and has not enqueued itself yet: \<^verbatim>\<open>BaseMutex\<close> waits for it there.
\<close>

lemma timed_unlock_null:
  "run untimed_step (second_enqueues @ [TUnlock 0, TGo 0 False, TGo 0 False]) timed_init = Fault NullDeref"
  by (simp add: second_enqueues_def timed_eval numeral_eq_Suc)

text \<open>A call of \<^verbatim>\<open>try_lock_for\<close> that times out.\<close>

definition times_out :: "nat \<Rightarrow> timed_event list" where
  "times_out i = [TTryLockFor i, TGo i False, TGo i False, TGo i False, Expire i, RunHandler, TGo i False]"


text \<open>
  A waiter of \<^verbatim>\<open>try_lock_for\<close> that gets the lock costs another one its turn: the counter
  returns to 0 while a thread is still suspended in \<^verbatim>\<open>lock\<close>, with no thread left to resume it.
\<close>

lemma timed_waiter_lost:
  "\<exists>t. run timed_step ([TLock 0, TGo 0 False, TTryLockFor 1, TGo 1 False, TGo 1 False, TGo 1 False, TLock 2] @
        replicate 12 (TGo 2 False) @ [TUnlock 0, TGo 0 False, TGo 0 False, TGo 0 False, TUnlock 1])
      timed_init = Next t \<and>
     tCountOfWaiter t = 0 \<and> tpc t 0 = TIdle \<and> tpc t 1 = TIdle \<and> tpc t 2 = TParked"
  by (simp add: timed_eval future_defs numeral_eq_Suc)

end
