(* ===== verification/SpecificPtr.thy ===== *)
theory SpecificPtr
  imports Prelude
begin

text \<open>
  \<^verbatim>\<open>Routine::SpecificPtr\<close> of \<^verbatim>\<open>include/co/routine_specific_ptr.hpp\<close> and the storage of a coroutine
  it uses, \<^verbatim>\<open>Data::StorageItem\<close> and \<^verbatim>\<open>mLocalStorage\<close> of \<^verbatim>\<open>include/co/routine.hpp\<close>. Outside of a
  coroutine it forwards to a \<^verbatim>\<open>boost::thread_specific_ptr\<close>, which is a parameter.
\<close>

section \<open>Items\<close>

text \<open>
  A pointer is null or names an object. \<^verbatim>\<open>cleanupFunction\<close> is empty or that of the
  \<^verbatim>\<open>SpecificPtr\<close> it names.
\<close>

type_synonym pointer = "nat option"

record storage_item =
  item_data :: pointer
  cleanupFunction :: "nat option"

definition StorageItem :: storage_item where
  "StorageItem = \<lparr>item_data = None, cleanupFunction = None\<rparr>"

definition StorageItem_of :: "pointer \<Rightarrow> nat \<Rightarrow> storage_item" where
  "StorageItem_of t ownCleanup = \<lparr>item_data = t, cleanupFunction = Some ownCleanup\<rparr>"

text \<open>The calls of cleanup functions when an item is destroyed: the function and its argument.\<close>

definition item_destroy :: "storage_item \<Rightarrow> (nat \<times> pointer) list" where
  "item_destroy i = (case cleanupFunction i of None \<Rightarrow> [] | Some k \<Rightarrow> [(k, item_data i)])"

text \<open>Move construction and move assignment: the calls, the new item and what is left of the old.\<close>

definition item_move :: "storage_item \<Rightarrow> storage_item \<times> storage_item" where
  "item_move other = (other, other\<lparr>cleanupFunction := None\<rparr>)"

definition item_assign :: "storage_item \<Rightarrow> storage_item \<Rightarrow> (nat \<times> pointer) list \<times> storage_item \<times> storage_item" where
  "item_assign i other =
     ((case cleanupFunction i of None \<Rightarrow> [] | Some k \<Rightarrow> [(k, item_data i)]),
      \<lparr>item_data = item_data other, cleanupFunction = cleanupFunction other\<rparr>,
      other\<lparr>cleanupFunction := None\<rparr>)"

section \<open>The pointer\<close>

text \<open>
  The storage of a coroutine is a map from \<^verbatim>\<open>SpecificPtr\<close> objects to items, here a list with one
  entry for a key; its order stands for that of the hash table.
\<close>

type_synonym storage = "(nat \<times> storage_item) list"

fun put :: "nat \<Rightarrow> storage_item \<Rightarrow> storage \<Rightarrow> storage" where
  "put k i [] = [(k, i)]"
| "put k i ((k', i') # m) = (if k' = k then (k, i) # m else (k', i') # put k i m)"

text \<open>\<^verbatim>\<open>boost::thread_specific_ptr\<close>, on a state of its own.\<close>

record 't thread_ptr =
  tsp_get :: "nat \<Rightarrow> 't \<Rightarrow> pointer"
  tsp_release :: "nat \<Rightarrow> 't \<Rightarrow> pointer \<times> 't"
  tsp_reset :: "nat \<Rightarrow> pointer \<Rightarrow> 't \<Rightarrow> 't"

record 't ptr_state =
  curr :: "nat option"
  mLocalStorage :: "nat \<Rightarrow> storage"
  mThreadPtr :: 't

definition sp_get :: "'t thread_ptr \<Rightarrow> nat \<Rightarrow> 't ptr_state \<Rightarrow> pointer" where
  "sp_get T this s =
     (case curr s of
        Some c \<Rightarrow> (case map_of (mLocalStorage s c) this of Some itr \<Rightarrow> item_data itr | None \<Rightarrow> None)
      | None \<Rightarrow> tsp_get T this (mThreadPtr s))"

definition sp_deref :: "'t thread_ptr \<Rightarrow> nat \<Rightarrow> 't ptr_state \<Rightarrow> fault + nat" where
  "sp_deref T this s = (case sp_get T this s of None \<Rightarrow> Inl NullDeref | Some x \<Rightarrow> Inr x)"

definition sp_release :: "'t thread_ptr \<Rightarrow> nat \<Rightarrow> 't ptr_state \<Rightarrow> pointer \<times> 't ptr_state" where
  "sp_release T this s =
     (case curr s of
        Some c \<Rightarrow>
          (case map_of (mLocalStorage s c) this of
             Some itr \<Rightarrow>
               (item_data itr,
                s\<lparr>mLocalStorage := (mLocalStorage s)(c := put this (itr\<lparr>item_data := None\<rparr>) (mLocalStorage s c))\<rparr>)
           | None \<Rightarrow> (None, s))
      | None \<Rightarrow> (case tsp_release T this (mThreadPtr s) of (p, t) \<Rightarrow> (p, s\<lparr>mThreadPtr := t\<rparr>)))"

text \<open>
  \<^verbatim>\<open>reset\<close>: the map's \<^verbatim>\<open>operator[]\<close> makes an empty item when there is none, which is then move
  assigned to from a temporary, whose destructor finds no cleanup function.
\<close>

definition sp_reset :: "'t thread_ptr \<Rightarrow> nat \<Rightarrow> pointer \<Rightarrow> 't ptr_state \<Rightarrow> (nat \<times> pointer) list \<times> 't ptr_state" where
  "sp_reset T this newValue s =
     (case curr s of
        Some c \<Rightarrow>
          (let itr = (case map_of (mLocalStorage s c) this of Some itr \<Rightarrow> itr | None \<Rightarrow> StorageItem) in
           case item_assign itr (StorageItem_of newValue this) of
             (calls, itr, temp) \<Rightarrow>
               (calls @ item_destroy temp,
                s\<lparr>mLocalStorage := (mLocalStorage s)(c := put this itr (mLocalStorage s c))\<rparr>))
      | None \<Rightarrow> ([], s\<lparr>mThreadPtr := tsp_reset T this newValue (mThreadPtr s)\<rparr>))"

text \<open>The end of a coroutine destroys its storage; \<^verbatim>\<open>~SpecificPtr\<close> resets where it runs.\<close>

definition storage_destroy :: "nat \<Rightarrow> 't ptr_state \<Rightarrow> (nat \<times> pointer) list \<times> 't ptr_state" where
  "storage_destroy c s =
     (concat (map (\<lambda>(k, i). item_destroy i) (mLocalStorage s c)),
      s\<lparr>mLocalStorage := (mLocalStorage s)(c := [])\<rparr>)"

definition sp_destroy :: "'t thread_ptr \<Rightarrow> nat \<Rightarrow> 't ptr_state \<Rightarrow> (nat \<times> pointer) list \<times> 't ptr_state" where
  "sp_destroy T this s = sp_reset T this None s"

section \<open>Programs that use the pointer\<close>

text \<open>
  The operations of a program, in the order in which they happen: control switches to a
  coroutine or out of one, the pointer of a key is reset or released, and a coroutine ends.
\<close>

datatype ptr_event = Switch "nat option" | Reset nat pointer | Release nat | EndOf nat

fun ptr_step :: "'t thread_ptr \<Rightarrow> (ptr_event, 't ptr_state) machine" where
  "ptr_step T (Switch c) s = Next (s\<lparr>curr := c\<rparr>)"
| "ptr_step T (Reset k p) s = Next (snd (sp_reset T k p s))"
| "ptr_step T (Release k) s = Next (snd (sp_release T k s))"
| "ptr_step T (EndOf c) s = (if curr s = Some c then Blocked else Next (snd (storage_destroy c s)))"

text \<open>The objects of coroutine \<open>c\<close> and key \<open>k\<close>: given by reset, cleaned up, and released.\<close>

definition objs :: "pointer \<Rightarrow> nat list" where
  "objs p = (case p of None \<Rightarrow> [] | Some x \<Rightarrow> [x])"

definition cleaned_objs :: "nat \<Rightarrow> (nat \<times> pointer) list \<Rightarrow> nat list" where
  "cleaned_objs k cs = concat (map (\<lambda>(k', p). if k' = k then objs p else []) cs)"

fun given_obs :: "nat \<Rightarrow> nat \<Rightarrow> ptr_event \<Rightarrow> 't ptr_state \<Rightarrow> nat list" where
  "given_obs c k (Reset k' p) s = (if curr s = Some c \<and> k' = k then objs p else [])"
| "given_obs c k e s = []"

fun cleaned_obs :: "'t thread_ptr \<Rightarrow> nat \<Rightarrow> nat \<Rightarrow> ptr_event \<Rightarrow> 't ptr_state \<Rightarrow> nat list" where
  "cleaned_obs T c k (Reset k' p) s = (if curr s = Some c then cleaned_objs k (fst (sp_reset T k' p s)) else [])"
| "cleaned_obs T c k (EndOf c') s = (if c' = c then cleaned_objs k (fst (storage_destroy c s)) else [])"
| "cleaned_obs T c k e s = []"

fun released_obs :: "'t thread_ptr \<Rightarrow> nat \<Rightarrow> nat \<Rightarrow> ptr_event \<Rightarrow> 't ptr_state \<Rightarrow> nat list" where
  "released_obs T c k (Release k') s = (if curr s = Some c \<and> k' = k then objs (fst (sp_release T k s)) else [])"
| "released_obs T c k e s = []"

definition stored :: "nat \<Rightarrow> nat \<Rightarrow> 't ptr_state \<Rightarrow> nat list" where
  "stored c k s = (case map_of (mLocalStorage s c) k of None \<Rightarrow> [] | Some i \<Rightarrow> objs (item_data i))"

section \<open>Lemmas\<close>

lemma put_map_of [simp]: "map_of (put k i m) k' = (if k' = k then Some i else map_of m k')"
  by (induction k i m rule: put.induct) auto

lemma put_keys: "fst ` set (put k i m) = insert k (fst ` set m)"
  by (induction k i m rule: put.induct) auto

lemma put_distinct: "distinct (map fst m) \<Longrightarrow> distinct (map fst (put k i m))"
proof (induction k i m rule: put.induct)
  case (2 k i k' i' m)
  then show ?case using put_keys [of k i m] by (auto simp flip: set_map)
qed simp

text \<open>Every stored item cleans up for its own key.\<close>

definition storage_ok :: "storage \<Rightarrow> bool" where
  "storage_ok m \<longleftrightarrow> distinct (map fst m) \<and> list_all (\<lambda>(k, i). cleanupFunction i = Some k) m"

lemma put_own:
  "list_all (\<lambda>(k, i). cleanupFunction i = Some k) m \<Longrightarrow> cleanupFunction i = Some k \<Longrightarrow>
    list_all (\<lambda>(k, i). cleanupFunction i = Some k) (put k i m)"
  by (induction k i m rule: put.induct) auto

lemma storage_ok_put: "storage_ok m \<Longrightarrow> cleanupFunction i = Some k \<Longrightarrow> storage_ok (put k i m)"
  by (simp add: storage_ok_def put_distinct put_own)

lemma storage_ok_item: "storage_ok m \<Longrightarrow> map_of m k = Some i \<Longrightarrow> cleanupFunction i = Some k"
  by (auto simp: storage_ok_def list_all_iff dest!: map_of_SomeD)

definition ptr_ok :: "'t ptr_state \<Rightarrow> bool" where
  "ptr_ok s \<longleftrightarrow> (\<forall>c. storage_ok (mLocalStorage s c))"


lemma cleaned_simps [simp]:
  "cleaned_objs k [] = []"
  "cleaned_objs k ((k', p) # cs) = (if k' = k then objs p else []) @ cleaned_objs k cs"
  "cleaned_objs k (cs @ ds) = cleaned_objs k cs @ cleaned_objs k ds"
  by (simp_all add: cleaned_objs_def)

lemma objs_None [simp]: "objs None = []"
  by (simp add: objs_def)

text \<open>Destroying a storage cleans up the one object of each key.\<close>

lemma destroy_cleans:
  "storage_ok m \<Longrightarrow> cleaned_objs k (concat (map (\<lambda>(k, i). item_destroy i) m)) =
    (case map_of m k of None \<Rightarrow> [] | Some i \<Rightarrow> objs (item_data i))"
proof (induction m)
  case Nil
  then show ?case by simp
next
  case (Cons a m)
  obtain k' i where a: "a = (k', i)" by (cases a)
  have ok: "storage_ok m" "cleanupFunction i = Some k'" "k' \<notin> fst ` set m"
    using Cons.prems by (auto simp: storage_ok_def a)
  have "map_of m k' = None" using ok(3) by (simp add: map_of_eq_None_iff)
  then show ?case using Cons.IH [OF ok(1)] ok(2) by (simp add: a item_destroy_def)
qed

lemma sp_reset_storage:
  assumes "curr s = Some c"
  shows "mLocalStorage (snd (sp_reset T k p s)) =
      (mLocalStorage s)(c := put k (StorageItem_of p k) (mLocalStorage s c))"
    "fst (sp_reset T k p s) =
      (case map_of (mLocalStorage s c) k of None \<Rightarrow> [] | Some i \<Rightarrow> item_destroy i)"
  using assms by (auto simp: sp_reset_def item_assign_def item_destroy_def StorageItem_of_def StorageItem_def
      split: option.split)

lemma ptr_step_balance:
  assumes ok: "ptr_ok s" and st: "ptr_step T e s = Next t"
  shows "ptr_ok t \<and> stored c k s @ given_obs c k e s = (cleaned_obs T c k e s @ released_obs T c k e s) @ stored c k t"
proof (cases e)
  case (Switch d)
  with ok st show ?thesis by (auto simp: ptr_ok_def stored_def)
next
  case (Reset k' p)
  then have t: "t = snd (sp_reset T k' p s)" using st by simp
  show ?thesis
  proof (cases "curr s")
    case None
    with ok t Reset show ?thesis by (simp add: sp_reset_def ptr_ok_def stored_def)
  next
    case (Some d)
    note r = sp_reset_storage [OF Some, of T k' p]
    have "ptr_ok t" using ok unfolding ptr_ok_def t r(1) by (auto simp: StorageItem_of_def intro: storage_ok_put)
    moreover have "cleanupFunction i = Some k'" if "map_of (mLocalStorage s d) k' = Some i" for i
      using ok that storage_ok_item unfolding ptr_ok_def by blast
    ultimately show ?thesis using Some Reset r
      by (auto simp: t stored_def item_destroy_def StorageItem_of_def split: option.split)
  qed
next
  case (Release k')
  then have t: "t = snd (sp_release T k' s)" using st by simp
  show ?thesis
  proof (cases "curr s")
    case None
    with ok t Release show ?thesis by (simp add: sp_release_def ptr_ok_def stored_def split: prod.split)
  next
    case (Some d)
    show ?thesis
    proof (cases "map_of (mLocalStorage s d) k'")
      case None
      with ok t Some Release show ?thesis by (auto simp: sp_release_def stored_def)
    next
      case (Some i)
      have "cleanupFunction i = Some k'" using ok Some storage_ok_item unfolding ptr_ok_def by blast
      with ok t Some \<open>curr s = Some d\<close> Release show ?thesis
        by (auto simp: sp_release_def stored_def ptr_ok_def intro: storage_ok_put)
    qed
  qed
next
  case (EndOf d)
  then have t: "t = snd (storage_destroy d s)" using st by (simp split: if_splits)
  have "storage_ok (mLocalStorage s d)" using ok by (simp add: ptr_ok_def)
  from destroy_cleans [OF this] ok EndOf t show ?thesis
    by (auto simp: storage_destroy_def ptr_ok_def stored_def storage_ok_def)
qed

section \<open>Properties\<close>

text \<open>
  C29. The storage of coroutines owns its objects. In every program, for every coroutine and
  \<^verbatim>\<open>SpecificPtr\<close>, the objects handed to \<^verbatim>\<open>reset\<close> there are, in order, those cleaned up or released
  since, each once, and then the one that \<^verbatim>\<open>get\<close> returns in that coroutine; after the end of
  the coroutine there is none left.
\<close>

theorem specific_ptr_ownership:
  assumes "run (ptr_step T) es s0 = Next t" "mLocalStorage s0 = (\<lambda>c. [])"
  shows "observe (given_obs c k) (ptr_step T) es s0 =
      observe (\<lambda>e s. cleaned_obs T c k e s @ released_obs T c k e s) (ptr_step T) es s0 @ stored c k t \<and>
    (curr t = Some c \<longrightarrow> objs (sp_get T k t) = stored c k t) \<and>
    (\<forall>u. ptr_step T (EndOf c) t = Next u \<longrightarrow> stored c k u = [])"
proof -
  have "ptr_ok s0" "stored c k s0 = []" using assms(2) by (simp_all add: ptr_ok_def storage_ok_def stored_def)
  then have "observe (given_obs c k) (ptr_step T) es s0 =
      observe (\<lambda>e s. cleaned_obs T c k e s @ released_obs T c k e s) (ptr_step T) es s0 @ stored c k t"
    using observe_fifo_inv [where I = ptr_ok and q = "stored c k" and ins = "given_obs c k"
        and outs = "\<lambda>e s. cleaned_obs T c k e s @ released_obs T c k e s", OF _ _ assms(1)] ptr_step_balance
    by fastforce
  moreover have "curr t = Some c \<longrightarrow> objs (sp_get T k t) = stored c k t"
    by (auto simp: sp_get_def stored_def split: option.split)
  moreover have "\<forall>u. ptr_step T (EndOf c) t = Next u \<longrightarrow> stored c k u = []"
    by (auto simp: storage_destroy_def stored_def)
  ultimately show ?thesis by blast
qed

text \<open>A thread pointer that keeps one pointer for each key, and a program of coroutine 0.\<close>

definition map_ptr :: "(nat \<Rightarrow> pointer) thread_ptr" where
  "map_ptr = \<lparr>tsp_get = (\<lambda>k t. t k), tsp_release = (\<lambda>k t. (t k, t(k := None))), tsp_reset = (\<lambda>k p t. t(k := p))\<rparr>"

definition ptr_program :: "ptr_event list" where
  "ptr_program = [Switch (Some 0), Reset 7 (Some 1), Reset 7 (Some 2), Release 7, Reset 7 (Some 3)]"

lemma specific_ptr_ownership_witness:
  "\<exists>s0 t. run (ptr_step map_ptr) ptr_program s0 = Next t \<and> mLocalStorage s0 = (\<lambda>c. []) \<and>
     observe (given_obs 0 7) (ptr_step map_ptr) ptr_program s0 = [1, 2] @ stored 0 7 t \<and> stored 0 7 t = [3]"
proof -
  let ?s0 = "\<lparr>curr = None, mLocalStorage = (\<lambda>c. []), mThreadPtr = (\<lambda>k. None)\<rparr>"
  obtain t where t: "run (ptr_step map_ptr) ptr_program ?s0 = Next t" "stored 0 7 t = [3]"
    by (simp add: ptr_program_def sp_reset_def sp_release_def item_assign_def StorageItem_def
        StorageItem_of_def stored_def objs_def)
  have "observe (\<lambda>e s. cleaned_obs map_ptr 0 7 e s @ released_obs map_ptr 0 7 e s) (ptr_step map_ptr) ptr_program ?s0 = [1, 2]"
    by (simp add: ptr_program_def sp_reset_def sp_release_def item_assign_def item_destroy_def StorageItem_def
        StorageItem_of_def objs_def cleaned_objs_def)
  with specific_ptr_ownership [OF t(1), of 0 7] t show ?thesis by force
qed

text \<open>A released pointer is cleaned up all the same, as a null pointer, at the end of the coroutine.\<close>

lemma cleanup_of_null:
  assumes "curr s = Some c" "map_of (mLocalStorage s c) k = Some i" "cleanupFunction i = Some k"
  shows "(k, None) \<in> set (fst (storage_destroy c (snd (sp_release T k s))))"
proof -
  let ?m = "put k (i\<lparr>item_data := None\<rparr>) (mLocalStorage s c)"
  have "map_of ?m k = Some (i\<lparr>item_data := None\<rparr>)" by simp
  then have "(k, i\<lparr>item_data := None\<rparr>) \<in> set ?m" by (rule map_of_SomeD)
  then have "(k, None) \<in> set (concat (map (\<lambda>(k, i). item_destroy i) ?m))"
    using assms(3) by (force simp: item_destroy_def)
  with assms(1,2) show ?thesis by (simp add: storage_destroy_def sp_release_def)
qed

end
