(* ===== verification/Generate.thy ===== *)
theory Generate
  imports Unbuffered
begin

text \<open>
  \<^verbatim>\<open>co::generate\<close> of \<^verbatim>\<open>include/co/generate.hpp\<close>: a routine runs a function that sends values
  through an unbuffered channel, and the caller iterates over the receiver. Both are composed
  here with the machine of the channel (\<open>Unbuffered\<close>), the iteration with that of its iterator
  (\<open>Handles\<close>): one \<^verbatim>\<open>pop\<close> before each round.
\<close>

section \<open>The generator and its consumer\<close>

text \<open>
  The function is given by the values it yields: \<open>gen n\<close> is its value number \<open>n\<close>, or nothing
  when it returns or throws then. It stops when a yield tells it that the receiver is gone.
  The generator is about to yield, inside of a \<^verbatim>\<open>push\<close>, done with the function, so that its
  sender is destroyed next, and gone.
\<close>

datatype gen_pc = GenYield nat | GenInPush nat | GenDone nat | GenGone nat

text \<open>
  The consumer, a \<^verbatim>\<open>for\<close> loop that leaves after its \<open>k\<close>-th value: before a \<^verbatim>\<open>pop\<close>, in it (with
  the value it has moved out), behind the loop, in \<^verbatim>\<open>closeReceiver\<close>, and gone. \<open>taken\<close> are the
  values its body has seen.
\<close>

datatype 'a cons_pc = ConsNext | ConsPop "'a option" | ConsLeave | ConsClosing | ConsLeft

record 'a generator =
  gchan :: "'a unbuffered"
  gpc :: gen_pc
  cpc :: "'a cons_pc"
  taken :: "'a list"

definition makeUnbufferedChannel :: "'a unbuffered" where
  "makeUnbufferedChannel = unbuffered_init"

definition generate :: "'a generator" where
  "generate = \<lparr>gchan = makeUnbufferedChannel, gpc = GenYield 0, cpc = ConsNext, taken = []\<rparr>"

text \<open>The routine: \<^verbatim>\<open>func(*sender)\<close>, and the destruction of the sender with the function object.\<close>

definition gen_moves :: "(nat \<Rightarrow> 'a option) \<Rightarrow> 'a generator \<Rightarrow> 'a generator outcome" where
  "gen_moves gen s =
     (case gpc s of
        GenYield n \<Rightarrow>
          (case gen n of
             Some v \<Rightarrow>
               bind_outcome (unbuffered_step (CallPush v) (gchan s))
                 (\<lambda>c. Next (s\<lparr>gchan := c, gpc := GenInPush n\<rparr>))
           | None \<Rightarrow> Next (s\<lparr>gpc := GenDone n\<rparr>))
      | GenInPush n \<Rightarrow>
          bind_outcome (push_step (gchan s))
            (\<lambda>c. Next (s\<lparr>gchan := c,
                        gpc := (if spc c = SIdle then GenYield (Suc n)
                                else if spc c = SRejected then GenDone n else GenInPush n)\<rparr>))
      | GenDone n \<Rightarrow>
          bind_outcome (unbuffered_step CallCloseSender (gchan s))
            (\<lambda>c. Next (s\<lparr>gchan := c, gpc := GenGone n\<rparr>))
      | GenGone n \<Rightarrow> Blocked)"

definition popped :: "'a option \<Rightarrow> 'a unbuffered \<Rightarrow> 'a option" where
  "popped got c = (case pop_obs c of [Received v] \<Rightarrow> Some v | _ \<Rightarrow> got)"

text \<open>The loop over the receiver, and the destruction of the receiver.\<close>

definition cons_moves :: "nat \<Rightarrow> 'a generator \<Rightarrow> 'a generator outcome" where
  "cons_moves k s =
     (case cpc s of
        ConsNext \<Rightarrow>
          bind_outcome (unbuffered_step CallPop (gchan s)) (\<lambda>c. Next (s\<lparr>gchan := c, cpc := ConsPop None\<rparr>))
      | ConsPop got \<Rightarrow>
          bind_outcome (pop_step (gchan s))
            (\<lambda>c. let got = popped got (gchan s) in
                 if rpc c \<noteq> RIdle then Next (s\<lparr>gchan := c, cpc := ConsPop got\<rparr>)
                 else case got of
                   Some v \<Rightarrow>
                     Next (s\<lparr>gchan := c, taken := taken s @ [v],
                            cpc := (if Suc (length (taken s)) = k then ConsLeave else ConsNext)\<rparr>)
                 | None \<Rightarrow> Next (s\<lparr>gchan := c, cpc := ConsLeave\<rparr>))
      | ConsLeave \<Rightarrow>
          bind_outcome (unbuffered_step CallCloseReceiver (gchan s))
            (\<lambda>c. Next (s\<lparr>gchan := c, cpc := ConsClosing\<rparr>))
      | ConsClosing \<Rightarrow>
          bind_outcome (pop_step (gchan s))
            (\<lambda>c. Next (s\<lparr>gchan := c, cpc := (if rpc c = RClosed then ConsLeft else ConsClosing)\<rparr>))
      | ConsLeft \<Rightarrow> Blocked)"

datatype gen_event = GenMoves | ConsMoves

fun gen_step :: "(nat \<Rightarrow> 'a option) \<Rightarrow> nat \<Rightarrow> (gen_event, 'a generator) machine" where
  "gen_step gen k GenMoves s = gen_moves gen s"
| "gen_step gen k ConsMoves s = cons_moves k s"

text \<open>The reference: the first \<open>k\<close> values of the function, by recursion.\<close>

fun first_values :: "(nat \<Rightarrow> 'a option) \<Rightarrow> nat \<Rightarrow> nat \<Rightarrow> 'a list" where
  "first_values gen n 0 = []"
| "first_values gen n (Suc k) =
     (case gen n of None \<Rightarrow> [] | Some v \<Rightarrow> v # first_values gen (Suc n) k)"

section \<open>The invariant\<close>

fun popping :: "recv_call \<Rightarrow> recv_pc \<Rightarrow> bool" where
  "popping d (RAwaitReady c) = (c = d)"
| "popping d (RAwaitSuspend c) = (c = d)"
| "popping d (RParked c) = (c = d)"
| "popping d (RResume c) = (c = d)"
| "popping d (REmplace c) = (c = d)"
| "popping d (RAnswer c) = (c = d)"
| "popping d p = False"

fun gen_at :: "(nat \<Rightarrow> 'a option) \<Rightarrow> gen_pc \<Rightarrow> 'a unbuffered \<Rightarrow> bool" where
  "gen_at gen (GenYield n) c \<longleftrightarrow> spc c = SIdle"
| "gen_at gen (GenInPush n) c \<longleftrightarrow> (spc c = SSet \<or> in_push (spc c)) \<and> frame c = gen n"
| "gen_at gen (GenDone n) c \<longleftrightarrow> spc c = SIdle \<and> gen n = None \<or> spc c = SRejected"
| "gen_at gen (GenGone n) c \<longleftrightarrow> spc c = SClosed \<and> (gen n = None \<or> rpc c = RClosed)"

text \<open>How many values the consumer's body has seen when the generator is there.\<close>

fun seen_by :: "gen_pc \<Rightarrow> 'a unbuffered \<Rightarrow> nat" where
  "seen_by (GenInPush n) c = (if is_ready (chValueRead c) \<and> rpc c \<noteq> RClosed then Suc n else n)"
| "seen_by (GenYield n) c = n"
| "seen_by (GenDone n) c = n"
| "seen_by (GenGone n) c = n"

fun cons_at :: "(nat \<Rightarrow> 'a option) \<Rightarrow> nat \<Rightarrow> 'a cons_pc \<Rightarrow> nat \<Rightarrow> 'a unbuffered \<Rightarrow> bool" where
  "cons_at gen k ConsNext m c \<longleftrightarrow> rpc c = RIdle \<and> m < k"
| "cons_at gen k (ConsPop got) m c \<longleftrightarrow> popping Pop (rpc c) \<and> m < k \<and>
     got = (if took (rpc c) then gen m else None) \<and> (took (rpc c) \<longrightarrow> gen m \<noteq> None)"
| "cons_at gen k ConsLeave m c \<longleftrightarrow> rpc c = RIdle \<and> (m = k \<or> m < k \<and> gen m = None)"
| "cons_at gen k ConsClosing m c \<longleftrightarrow> popping Close (rpc c) \<and> (m = k \<or> m < k \<and> gen m = None)"
| "cons_at gen k ConsLeft m c \<longleftrightarrow> rpc c = RClosed \<and> (m = k \<or> m < k \<and> gen m = None)"

definition gen_inv :: "(nat \<Rightarrow> 'a option) \<Rightarrow> nat \<Rightarrow> 'a generator \<Rightarrow> bool" where
  "gen_inv gen k s \<longleftrightarrow> unbuffered_inv (gchan s) \<and> gen_at gen (gpc s) (gchan s) \<and>
     cons_at gen k (cpc s) (length (taken s)) (gchan s) \<and>
     length (taken s) = seen_by (gpc s) (gchan s) \<and>
     map Some (taken s) = map gen [0..<length (taken s)]"

fun gen_rank :: "nat \<Rightarrow> gen_pc \<Rightarrow> send_pc \<Rightarrow> nat" where
  "gen_rank k (GenYield n) p = 8 * (Suc k - n) + 2"
| "gen_rank k (GenInPush n) p = 8 * (k - n) + 3 + send_left p"
| "gen_rank k (GenDone n) p = 1"
| "gen_rank k (GenGone n) p = 0"

fun cons_rank :: "nat \<Rightarrow> 'a cons_pc \<Rightarrow> nat \<Rightarrow> recv_pc \<Rightarrow> nat" where
  "cons_rank k ConsNext m p = 8 * (k - m) + 8"
| "cons_rank k (ConsPop got) m p = 8 * (k - m) + 1 + recv_left p"
| "cons_rank k ConsLeave m p = 8"
| "cons_rank k ConsClosing m p = 1 + recv_left p"
| "cons_rank k ConsLeft m p = 0"

definition gen_left :: "nat \<Rightarrow> 'a generator \<Rightarrow> nat" where
  "gen_left k s = gen_rank k (gpc s) (spc (gchan s)) +
     cons_rank k (cpc s) (length (taken s)) (rpc (gchan s))"

lemma gen_inv_start: "0 < k \<Longrightarrow> gen_inv gen k generate"
  by (simp add: gen_inv_def generate_def makeUnbufferedChannel_def unbuffered_inv_init)
    (simp add: unbuffered_init_def)

section \<open>The generator's steps\<close>

lemma push_step_effect:
  assumes "unbuffered_inv s" "push_step s = Next t"
  shows "(rpc t = rpc s \<or> (\<exists>c. rpc s = RParked c \<and> rpc t = RResume c \<and> spc s = SSet)) \<and>
    send_left (spc t) < send_left (spc s) \<and>
    (spc s = SResume \<longrightarrow> spc t = (if rpc s = RClosed then SRejected else SIdle) \<and> is_ready (chValueRead s)) \<and>
    (spc s \<noteq> SResume \<longrightarrow> in_push (spc t) \<and> frame t = frame s \<and>
       (is_ready (chValueRead t) \<longleftrightarrow> is_ready (chValueRead s)))"
proof (cases "spc s = SSet")
  case True
  from push_set_facts [OF assms(1) True] assms(2) True show ?thesis
    by (cases "rpc s") (auto simp: push_step_def offer_def future_defs)
next
  case False
  show ?thesis
  proof (cases "spc s = SResume")
    case True
    from push_resume_facts [OF assms(1) True] assms(2) True show ?thesis
      by (auto simp: push_step_def future_defs split: if_splits)
  next
    case nr: False
    from assms(2) False nr show ?thesis
      by (cases "spc s")
        (auto simp: push_step_def future_defs split: if_splits handle.splits)
  qed
qed

lemma gen_push_inv:
  assumes I: "gen_inv gen k s" and pc: "gpc s = GenInPush n"
  shows "safely (\<lambda>t. gen_inv gen k t \<and> gen_left k t < gen_left k s) (gen_moves gen s)"
proof (cases "push_step (gchan s)")
  case (Next c)
  from I have u: "unbuffered_inv (gchan s)" by (simp add: gen_inv_def)
  then have uc: "unbuffered_inv c" using push_step_inv [OF u] Next by simp
  note f = push_step_effect [OF u Next]
  have fits: "cons_at gen k (cpc s) (length (taken s)) c \<and>
    cons_rank k (cpc s) (length (taken s)) (rpc c) \<le> cons_rank k (cpc s) (length (taken s)) (rpc (gchan s))"
    using I f by (cases "cpc s") (auto simp: gen_inv_def)
  show ?thesis
  proof (cases "spc (gchan s) = SResume")
    case True
    with f I pc uc fits Next show ?thesis
      by (auto simp: gen_moves_def gen_inv_def gen_left_def)
  next
    case False
    with f I pc uc fits Next show ?thesis
      by (auto simp: gen_moves_def gen_inv_def gen_left_def)
  qed
next
  case Blocked
  with pc show ?thesis by (simp add: gen_moves_def)
next
  case (Fault x)
  with I push_step_inv [of "gchan s"] show ?thesis by (simp add: gen_inv_def)
qed

lemma close_sender_effect:
  assumes "unbuffered_inv s" "spc s = SIdle \<or> spc s = SRejected" "closeSender s = Next t"
  shows "(rpc t = rpc s \<or> (\<exists>c. rpc s = RParked c \<and> rpc t = RResume c)) \<and> spc t = SClosed \<and>
    frame t = frame s \<and> chValueRead t = chValueRead s"
proof -
  have "\<not> offered s" "spc s \<noteq> SClosed" using assms(2) by (auto simp: offered_def)
  moreover have "value_ok s" using assms(1) by (simp only: unbuffered_inv_def)
  ultimately have "chValue s = \<lparr>continuationPtr = (if parked (rpc s) then Handle ReceiverParty else EmptyHandle),
      val = Unset\<rparr>"
    by (simp only: value_ok_def simp_thms if_False)
  with assms(3) show ?thesis
    by (cases "rpc s") (auto simp: closeSender_def offer_def future_defs)
qed

lemma gen_moves_inv:
  assumes I: "gen_inv gen k s"
  shows "safely (\<lambda>t. gen_inv gen k t \<and> gen_left k t < gen_left k s) (gen_moves gen s)"
proof (cases "gpc s")
  case (GenYield n)
  from I have u: "unbuffered_inv (gchan s)" by (simp add: gen_inv_def)
  have le: "n \<le> k" using I GenYield by (cases "cpc s") (auto simp: gen_inv_def)
  show ?thesis
  proof (cases "gen n")
    case None
    then show ?thesis using I GenYield by (auto simp: gen_moves_def gen_inv_def gen_left_def)
  next
    case (Some v)
    have "safely unbuffered_inv (unbuffered_step (CallPush v) (gchan s))"
      by (rule unbuffered_step_inv [OF u])
    then have "unbuffered_inv ((gchan s)\<lparr>frame := Some v, spc := SSet\<rparr>)"
      using I GenYield by (simp add: gen_inv_def)
    moreover have "\<not> is_ready (chValueRead (gchan s))"
      using u I GenYield by (auto simp: gen_inv_def unbuffered_inv_defs is_ready_def)
    ultimately show ?thesis using I GenYield Some le
      by (cases "cpc s") (auto simp: gen_moves_def gen_inv_def gen_left_def Suc_diff_le)
  qed
next
  case (GenInPush n)
  with I show ?thesis by (rule gen_push_inv)
next
  case (GenDone n)
  from I have u: "unbuffered_inv (gchan s)" by (simp add: gen_inv_def)
  have p: "spc (gchan s) = SIdle \<or> spc (gchan s) = SRejected" using I GenDone by (auto simp: gen_inv_def)
  have rej: "spc (gchan s) = SRejected \<longrightarrow> rpc (gchan s) = RClosed" using u by (simp add: unbuffered_inv_def)
  show ?thesis
  proof (cases "closeSender (gchan s)")
    case (Next c)
    with close_sender_inv [OF u p] have uc: "unbuffered_inv c" by simp
    note f = close_sender_effect [OF u p Next]
    have "cons_at gen k (cpc s) (length (taken s)) c \<and>
      cons_rank k (cpc s) (length (taken s)) (rpc c) \<le> cons_rank k (cpc s) (length (taken s)) (rpc (gchan s))"
      using I f by (cases "cpc s") (auto simp: gen_inv_def)
    with f I GenDone uc Next p rej show ?thesis
      by (auto simp: gen_moves_def gen_inv_def gen_left_def)
  qed (use close_sender_inv [OF u p] p GenDone in \<open>auto simp: gen_moves_def\<close>)
qed (simp add: gen_moves_def)

section \<open>The consumer's steps\<close>

lemma pop_quiet:
  assumes "pop_step s = Next t" "popping d (rpc s)" "rpc s \<noteq> RResume Pop" "\<And>c. rpc s \<noteq> RAnswer c"
  shows "popping d (rpc t)" "recv_left (rpc t) < recv_left (rpc s)" "took (rpc t) \<longleftrightarrow> took (rpc s)"
    "spc t = spc s" "frame t = frame s" "chValueRead t = chValueRead s" "pop_obs s = []"
proof -
  have "popping d (rpc t) \<and> recv_left (rpc t) < recv_left (rpc s) \<and> (took (rpc t) \<longleftrightarrow> took (rpc s)) \<and>
    spc t = spc s \<and> frame t = frame s \<and> chValueRead t = chValueRead s \<and> pop_obs s = []"
  proof (cases "rpc s")
    case (RResume c)
    with assms show ?thesis
      by (cases c) (auto simp: pop_step_def pop_obs_def split: sum.splits)
  qed (use assms in \<open>auto simp: pop_step_def pop_obs_def future_defs split: if_splits handle.splits\<close>)
  then show "popping d (rpc t)" "recv_left (rpc t) < recv_left (rpc s)" "took (rpc t) \<longleftrightarrow> took (rpc s)"
    "spc t = spc s" "frame t = frame s" "chValueRead t = chValueRead s" "pop_obs s = []" by blast+
qed

lemma pop_take:
  assumes "unbuffered_inv s" "rpc s = RResume Pop" "pop_step s = Next t"
  shows "if offered s then t = s\<lparr>rpc := REmplace Pop\<rparr> \<and> (\<exists>v. frame s = Some v \<and> pop_obs s = [Received v])
    else t = s\<lparr>rpc := RIdle\<rparr> \<and> spc s = SClosed \<and> pop_obs s = [EndOfStream]"
  using taking_facts [OF assms(1)] assms(2,3)
  by (auto simp: pop_step_def pop_obs_def future_defs)

lemma pop_answer:
  assumes "unbuffered_inv s" "rpc s = RAnswer c" "pop_step s = Next t"
  shows "rpc t = (if c = Pop then RIdle else RClosed)" "is_ready (chValueRead t)"
    "spc t = (if spc s = SParked then SResume else spc s)" "frame t = frame s" "pop_obs s = []"
  using answering_facts [OF assms(1,2)] assms(2,3)
  by (auto simp: pop_step_def pop_obs_def future_defs split: if_splits)

lemma pop_safe: "unbuffered_inv s \<Longrightarrow> pop_step s = Next t \<Longrightarrow> unbuffered_inv t"
  using pop_step_inv [of s] by simp

text \<open>A value being taken is that of the push the generator is in.\<close>

lemma offered_push:
  assumes "gen_inv gen k s" "offered (gchan s)"
  shows "gpc s = GenInPush (length (taken s))" "frame (gchan s) = gen (length (taken s))"
proof -
  have "gpc s = GenInPush (length (taken s)) \<and> frame (gchan s) = gen (length (taken s))"
    using assms by (cases "gpc s") (auto simp: gen_inv_def offered_def)
  then show "gpc s = GenInPush (length (taken s))" "frame (gchan s) = gen (length (taken s))" by blast+
qed

lemma seen_by_cong:
  "is_ready (chValueRead c) \<longleftrightarrow> is_ready (chValueRead d) \<Longrightarrow> rpc c = RClosed \<longleftrightarrow> rpc d = RClosed \<Longrightarrow>
    seen_by p c = seen_by p d"
  by (cases p) simp_all

lemma gen_at_cong:
  "spc c = spc d \<Longrightarrow> frame c = frame d \<Longrightarrow> rpc c = RClosed \<longleftrightarrow> rpc d = RClosed \<Longrightarrow>
    gen_at gen p c = gen_at gen p d"
  by (cases p) simp_all

lemma popping_open: "popping d p \<Longrightarrow> p \<noteq> RClosed \<and> p \<noteq> RIdle"
  by (cases p) simp_all

lemma cons_pop_inv:
  assumes I: "gen_inv gen k s" and pc: "cpc s = ConsPop got" and st: "pop_step (gchan s) = Next c"
  shows "safely (\<lambda>t. gen_inv gen k t \<and> gen_left k t < gen_left k s) (cons_moves k s)"
proof -
  from I pc have u: "unbuffered_inv (gchan s)" and p: "popping Pop (rpc (gchan s))" and m: "length (taken s) < k"
    and got: "got = (if took (rpc (gchan s)) then gen (length (taken s)) else None)"
      "took (rpc (gchan s)) \<longrightarrow> gen (length (taken s)) \<noteq> None"
    by (auto simp: gen_inv_def)
  have uc: "unbuffered_inv c" by (rule pop_safe [OF u st])
  consider "rpc (gchan s) = RResume Pop" | "rpc (gchan s) = RAnswer Pop"
    | "rpc (gchan s) \<noteq> RResume Pop" "\<And>d. rpc (gchan s) \<noteq> RAnswer d"
    using p by (cases "rpc (gchan s)") auto
  then show ?thesis
  proof cases
    case 1
    show ?thesis
    proof (cases "offered (gchan s)")
      case True
      with pop_take [OF u 1 st] offered_push [OF I True] I pc uc st 1 m show ?thesis
        by (auto simp: cons_moves_def popped_def gen_inv_def gen_left_def)
    next
      case False
      with pop_take [OF u 1 st] have c: "c = (gchan s)\<lparr>rpc := RIdle\<rparr>" "spc (gchan s) = SClosed"
        "pop_obs (gchan s) = [EndOfStream]" by simp_all
      then obtain n where n: "gpc s = GenGone n" using I u by (cases "gpc s") (auto simp: gen_inv_def)
      then have "gen n = None" "length (taken s) = n" using I 1 by (auto simp: gen_inv_def)
      with c n I pc uc st 1 m got show ?thesis
        by (simp add: cons_moves_def popped_def gen_inv_def gen_left_def)
    qed
  next
    case 2
    have o: "offered (gchan s)" using answering_facts [OF u 2] by simp
    note f = offered_push [OF I o] and a = pop_answer [OF u 2 st]
    obtain v where v: "gen (length (taken s)) = Some v" using got(2) 2 by auto
    have sp: "spc (gchan s) \<noteq> SSet" "in_push (spc (gchan s))" using o by (auto simp: offered_def)
    from sp(2) have "in_push (spc c)" "send_left (spc c) \<le> send_left (spc (gchan s))"
      using a(3) by (auto split: if_splits)
    then show ?thesis using f a v I pc uc st 2 m got
      by (auto simp: cons_moves_def popped_def gen_inv_def gen_left_def)
  next
    case 3
    note q = pop_quiet [OF st p 3]
    have "\<not> took (rpc (gchan s)) \<or> took (rpc c)" using q(3) by simp
    with q popping_open [OF q(1)] popping_open [OF p] I pc uc st got show ?thesis
      by (auto simp: cons_moves_def popped_def gen_inv_def gen_left_def
          seen_by_cong [of c "gchan s"] gen_at_cong [of c "gchan s"])
  qed
qed

lemma cons_closing_inv:
  assumes I: "gen_inv gen k s" and pc: "cpc s = ConsClosing" and st: "pop_step (gchan s) = Next c"
  shows "safely (\<lambda>t. gen_inv gen k t \<and> gen_left k t < gen_left k s) (cons_moves k s)"
proof -
  from I pc have u: "unbuffered_inv (gchan s)" and p: "popping Close (rpc (gchan s))"
    by (auto simp: gen_inv_def)
  have uc: "unbuffered_inv c" by (rule pop_safe [OF u st])
  consider "rpc (gchan s) = RAnswer Close"
    | "rpc (gchan s) \<noteq> RResume Pop" "\<And>d. rpc (gchan s) \<noteq> RAnswer d"
    using p by (cases "rpc (gchan s)") auto
  then show ?thesis
  proof cases
    case 1
    note a = pop_answer [OF u 1 st]
    have "offered (gchan s) \<or> spc (gchan s) = SClosed" "spc (gchan s) = SClosed \<longrightarrow> \<not> offered (gchan s)"
      "\<not> answered (gchan s)"
      using answering_facts [OF u 1] by auto
    then show ?thesis
    proof (elim disjE)
      assume o: "offered (gchan s)"
      then have "in_push (spc (gchan s))" "\<not> is_ready (chValueRead (gchan s))" by (auto simp: offered_def)
      then have "in_push (spc c)" "send_left (spc c) \<le> send_left (spc (gchan s))"
        using a(3) by (auto split: if_splits)
      then show ?thesis using offered_push [OF I o] a I pc uc st 1
        by (auto simp: cons_moves_def gen_inv_def gen_left_def)
    next
      assume cl: "spc (gchan s) = SClosed"
      then obtain n where n: "gpc s = GenGone n" using I u by (cases "gpc s") (auto simp: gen_inv_def)
      with cl a I pc uc st 1 show ?thesis
        by (auto simp: cons_moves_def gen_inv_def gen_left_def)
    qed
  next
    case 2
    note q = pop_quiet [OF st p 2]
    from q popping_open [OF q(1)] popping_open [OF p] I pc uc st show ?thesis
      by (auto simp: cons_moves_def gen_inv_def gen_left_def
          seen_by_cong [of c "gchan s"] gen_at_cong [of c "gchan s"])
  qed
qed

lemma cons_moves_inv:
  assumes I: "gen_inv gen k s"
  shows "safely (\<lambda>t. gen_inv gen k t \<and> gen_left k t < gen_left k s) (cons_moves k s)"
proof (cases "cpc s")
  case ConsNext
  from I have u: "unbuffered_inv (gchan s)" by (simp add: gen_inv_def)
  have "safely unbuffered_inv (unbuffered_step CallPop (gchan s))" by (rule unbuffered_step_inv [OF u])
  then have "unbuffered_inv ((gchan s)\<lparr>rpc := RAwaitReady Pop\<rparr>)"
    using I ConsNext by (simp add: gen_inv_def)
  then show ?thesis using I ConsNext
    by (auto simp: cons_moves_def gen_inv_def gen_left_def
        seen_by_cong [of "(gchan s)\<lparr>rpc := RAwaitReady Pop\<rparr>" "gchan s"]
        gen_at_cong [of "(gchan s)\<lparr>rpc := RAwaitReady Pop\<rparr>" "gchan s"])
next
  case ConsLeave
  from I have u: "unbuffered_inv (gchan s)" by (simp add: gen_inv_def)
  have "safely unbuffered_inv (unbuffered_step CallCloseReceiver (gchan s))" by (rule unbuffered_step_inv [OF u])
  then have "unbuffered_inv ((gchan s)\<lparr>rpc := RAwaitReady Close\<rparr>)"
    using I ConsLeave by (simp add: gen_inv_def)
  then show ?thesis using I ConsLeave
    by (auto simp: cons_moves_def gen_inv_def gen_left_def
        seen_by_cong [of "(gchan s)\<lparr>rpc := RAwaitReady Close\<rparr>" "gchan s"]
        gen_at_cong [of "(gchan s)\<lparr>rpc := RAwaitReady Close\<rparr>" "gchan s"])
next
  case (ConsPop got)
  from I have u: "unbuffered_inv (gchan s)" by (simp add: gen_inv_def)
  show ?thesis
  proof (cases "pop_step (gchan s)")
    case (Next c)
    with I ConsPop show ?thesis by (rule cons_pop_inv)
  qed (use pop_step_inv [OF u] ConsPop in \<open>auto simp: cons_moves_def\<close>)
next
  case ConsClosing
  from I have u: "unbuffered_inv (gchan s)" by (simp add: gen_inv_def)
  show ?thesis
  proof (cases "pop_step (gchan s)")
    case (Next c)
    with I ConsClosing show ?thesis by (rule cons_closing_inv)
  qed (use pop_step_inv [OF u] ConsClosing in \<open>auto simp: cons_moves_def\<close>)
qed (simp add: cons_moves_def)

lemma gen_step_inv: "gen_inv gen k s \<Longrightarrow> safely (\<lambda>t. gen_inv gen k t \<and> gen_left k t < gen_left k s) (gen_step gen k e s)"
  by (cases e) (simp_all add: gen_moves_inv cons_moves_inv)

section \<open>Both ends come to rest\<close>

definition gen_over :: "'a generator \<Rightarrow> bool" where
  "gen_over s \<longleftrightarrow> (\<exists>n. gpc s = GenGone n) \<and> cpc s = ConsLeft"

lemma gen_stuck:
  assumes I: "gen_inv gen k s" and b: "gen_moves gen s = Blocked" "cons_moves k s = Blocked"
  shows "gen_over s"
proof -
  from I have u: "unbuffered_inv (gchan s)" and g: "gen_at gen (gpc s) (gchan s)"
    and c: "cons_at gen k (cpc s) (length (taken s)) (gchan s)"
    unfolding gen_inv_def by blast+
  have sp: "spc (gchan s) = SParked \<and> send_rests (spc (gchan s)) \<or> (\<exists>n. gpc s = GenGone n)"
  proof (cases "gpc s")
    case (GenInPush n)
    with b(1) have "send_rests (spc (gchan s))"
      by (auto simp: gen_moves_def bind_outcome_Blocked push_step_rests)
    with g GenInPush show ?thesis by (cases "spc (gchan s)") auto
  next
    case (GenDone n)
    with b(1) g close_sender_inv [OF u] show ?thesis
      by (auto simp: gen_moves_def bind_outcome_Blocked closeSender_def offer_def split: sum.splits)
  qed (use b(1) g in \<open>auto simp: gen_moves_def split: option.splits\<close>)
  have rp: "parked (rpc (gchan s)) \<or> cpc s = ConsLeft"
  proof (cases "cpc s")
    case (ConsPop got)
    with b(2) have "recv_rests (rpc (gchan s))"
      by (auto simp: cons_moves_def bind_outcome_Blocked pop_step_rests Let_def split: if_splits option.splits)
    with c ConsPop show ?thesis by (cases "rpc (gchan s)") auto
  next
    case ConsClosing
    with b(2) have "recv_rests (rpc (gchan s))"
      by (auto simp: cons_moves_def bind_outcome_Blocked pop_step_rests)
    with c ConsClosing show ?thesis by (cases "rpc (gchan s)") auto
  qed (use b(2) c in \<open>auto simp: cons_moves_def\<close>)
  have "recv_rests (rpc (gchan s))" if "cpc s = ConsLeft" using c that by simp
  moreover have "recv_rests (rpc (gchan s))" if "parked (rpc (gchan s))"
    using that by (cases "rpc (gchan s)") simp_all
  ultimately have rr: "recv_rests (rpc (gchan s))" using rp by blast
  show ?thesis
  proof (cases "\<exists>n. gpc s = GenGone n")
    case True
    then have "spc (gchan s) = SClosed" using g by auto
    then have "\<not> parked (rpc (gchan s))" using u by (auto simp: unbuffered_inv_def)
    with True rp show ?thesis by (simp add: gen_over_def)
  next
    case False
    with sp have "spc (gchan s) = SParked" by blast
    with resting_waits [OF u] rr have "rpc (gchan s) = RIdle" by (simp add: at_rest_def)
    with rp c show ?thesis by (auto simp: gen_over_def)
  qed
qed

interpretation generator: terminating "gen_step gen (Suc k)" generate "gen_inv gen (Suc k)" gen_over "gen_left (Suc k)"
  for gen k
proof
  show "gen_inv gen (Suc k) generate" by (rule gen_inv_start) simp
next
  fix e and s :: "'a generator"
  show "gen_inv gen (Suc k) s \<Longrightarrow> ensures (gen_inv gen (Suc k)) (gen_step gen (Suc k) e s)"
    using gen_step_inv [of gen "Suc k" s e] by (cases "gen_step gen (Suc k) e s") auto
next
  fix s :: "'a generator"
  assume I: "gen_inv gen (Suc k) s" and "\<not> gen_over s"
  then have "gen_moves gen s \<noteq> Blocked \<or> cons_moves (Suc k) s \<noteq> Blocked" using gen_stuck by blast
  then obtain e where e: "gen_step gen (Suc k) e s \<noteq> Blocked" using gen_step.simps by metis
  then have "\<exists>t. gen_step gen (Suc k) e s = Next t"
    using gen_step_inv [OF I, of e] by (cases "gen_step gen (Suc k) e s") auto
  then show "\<exists>e t. gen_step gen (Suc k) e s = Next t" by blast
next
  fix e and s t :: "'a generator"
  show "gen_inv gen (Suc k) s \<Longrightarrow> gen_step gen (Suc k) e s = Next t \<Longrightarrow> gen_left (Suc k) t < gen_left (Suc k) s"
    using gen_step_inv [of gen "Suc k" s e] by simp
qed

section \<open>The loop sees the values of the function\<close>

lemma first_values_map:
  assumes "map Some xs = map gen [n..<n + length xs]" "length xs \<le> k"
    "length xs = k \<or> gen (n + length xs) = None"
  shows "first_values gen n k = xs"
  using assms
proof (induction xs arbitrary: n k)
  case Nil
  then show ?case by (cases k) auto
next
  case (Cons x xs)
  then obtain j where j: "k = Suc j" by (cases k) auto
  have u: "[n..<n + length (x # xs)] = n # [Suc n..<Suc n + length xs]" by (simp add: upt_conv_Cons del: upt_Suc)
  have "gen n = Some x" "map Some xs = map gen [Suc n..<Suc n + length xs]"
    using Cons.prems(1) unfolding u by simp_all
  moreover from this Cons.IH [of "Suc n" j] Cons.prems(2,3) j have "first_values gen (Suc n) j = xs" by simp
  ultimately show ?case by (simp add: j)
qed

lemma first_values_prefix:
  assumes "map Some xs = map gen [n..<n + length xs]" "length xs \<le> k"
  shows "take (length xs) (first_values gen n k) = xs"
  using assms
proof (induction xs arbitrary: n k)
  case Nil
  then show ?case by simp
next
  case (Cons x xs)
  then obtain j where j: "k = Suc j" by (cases k) auto
  have u: "[n..<n + length (x # xs)] = n # [Suc n..<Suc n + length xs]" by (simp add: upt_conv_Cons del: upt_Suc)
  have "gen n = Some x" "map Some xs = map gen [Suc n..<Suc n + length xs]"
    using Cons.prems(1) unfolding u by simp_all
  with Cons.IH [of "Suc n" j] Cons.prems(2) j show ?case by simp
qed

text \<open>
  C38. \<^verbatim>\<open>co::generate\<close> with a \<^verbatim>\<open>for\<close> loop that leaves after its \<open>k\<close>-th value is the loop over the
  first \<open>k\<close> values of the function. However the generating routine and the consumer
  interleave, no step is undefined and the body has always seen a prefix of these values;
  when the consumer has left, it has seen all of them; and after at most \<open>16 k + 18\<close> steps of
  both the loop has ended, the receiver is closed, and the routine, told so by its next
  yield, has ended and closed the sender. A function that throws ends the stream as one that
  returns does.
\<close>

theorem generate_is_the_loop:
  assumes "0 < k" "run (gen_step gen k) es generate = Next t"
  shows "gen_step gen k e t \<noteq> Fault f \<and>
    taken t = take (length (taken t)) (first_values gen 0 k) \<and>
    (cpc t = ConsLeft \<longrightarrow> taken t = first_values gen 0 k) \<and>
    length es \<le> 16 * k + 18 \<and>
    (\<exists>fs u n. run (gen_step gen k) fs t = Next u \<and> gpc u = GenGone n \<and> cpc u = ConsLeft)"
proof -
  obtain j where k: "k = Suc j" using assms(1) by (cases k) auto
  have I: "gen_inv gen k t" using generator.along_run [OF generator.init] assms(2) unfolding k by blast
  have "gen_step gen k e t \<noteq> Fault f" by (rule safelyD(2) [OF gen_step_inv [OF I]])
  moreover have m: "map Some (taken t) = map gen [0..<0 + length (taken t)]" "length (taken t) \<le> k"
    using I by (cases "cpc t"; auto simp: gen_inv_def)+
  moreover have "first_values gen 0 k = taken t" if "cpc t = ConsLeft"
    by (rule first_values_map [OF m]) (use I that in \<open>auto simp: gen_inv_def\<close>)
  moreover have "length es \<le> 16 * k + 18"
    using generator.bounded [OF generator.init, of gen j es t] assms(2) unfolding k
    by (simp add: gen_left_def generate_def)
  moreover have "\<exists>fs u n. run (gen_step gen k) fs t = Next u \<and> gpc u = GenGone n \<and> cpc u = ConsLeft"
    using generator.completes [of gen j t] I unfolding k gen_over_def by blast
  ultimately show ?thesis using first_values_prefix [OF m] by metis
qed

text \<open>A function that yields 5 and returns, and a loop that would take up to three values.\<close>

definition five :: "nat \<Rightarrow> nat option" where
  "five n = (if n = 0 then Some 5 else None)"

definition five_run :: "gen_event list" where
  "five_run = [GenMoves, GenMoves, ConsMoves, ConsMoves, ConsMoves, ConsMoves, ConsMoves, GenMoves, GenMoves,
     ConsMoves, ConsMoves, GenMoves, GenMoves, ConsMoves, ConsMoves, ConsMoves, ConsMoves, ConsMoves, ConsMoves,
     ConsMoves]"

theorem generate_is_the_loop_witness:
  "\<exists>t. run (gen_step five 3) five_run generate = Next t \<and> cpc t = ConsLeft \<and>
     taken t = first_values five 0 3 \<and> first_values five 0 3 = [5] \<and>
     gen_step five 3 GenMoves t \<noteq> Fault UseAfterFree"
proof -
  obtain t where t: "run (gen_step five 3) five_run generate = Next t" "cpc t = ConsLeft"
    by (simp add: five_run_def five_def generate_def makeUnbufferedChannel_def gen_moves_def cons_moves_def
        popped_def unbuffered_eval)
  have "first_values five 0 3 = [5]" by (simp add: five_def numeral_eq_Suc)
  with generate_is_the_loop [OF _ t(1), of GenMoves UseAfterFree] t show ?thesis by auto
qed

end
