(* ===== verification/GenerateMulti.thy ===== *)
theory GenerateMulti
  imports ChannelThreads "HOL-Library.Sublist"
begin

text \<open>
  \<^verbatim>\<open>co::generateForMultiConsumer\<close> of \<^verbatim>\<open>include/co/generate.hpp\<close>: a routine runs a function that
  sends values through a buffered channel, whose receiver any number of consumers share. The
  model runs on the channel of theory \<open>Buffered\<close>, step by step: its thread 0 is the caller, who
  hands copies of the receiver to \<open>c\<close> consumers and gives up its own, thread 1 is the routine,
  threads 2 to \<open>c + 1\<close> are the consumers.
\<close>

section \<open>State\<close>

text \<open>
  The caller: before the routine is made, with the local \<^verbatim>\<open>chan.sender\<close> still there, delivering
  the notices if that was the last copy, making the consumer with a number, before and behind
  \<^verbatim>\<open>gen = nullptr\<close>, and done. The routine: about to send its value number \<open>n\<close>, in that \<^verbatim>\<open>push\<close>,
  and from the end of the function, which destroys its copy of the sender, on. A consumer: before
  a \<^verbatim>\<open>pop\<close>, in it, and from the end of its loop on.
\<close>

datatype multi_pc =
  Unmade
  | OwMake | OwDropSender | OwClosingSender | OwSpawn nat | OwDropReceiver | OwClosingReceiver | OwDone
  | GeYield nat | GeInPush nat | GeLeave | GeClosing | GeGone
  | CoAtPop | CoInPop | CoLeave | CoClosing | CoGone

record 'a multi =
  mchan :: "'a buffered"
  sender_refs :: nat
  recv_refs :: nat
  mpc :: "nat \<Rightarrow> multi_pc"
  seen :: "nat \<Rightarrow> 'a list"

definition on_mchan :: "('a buffered \<Rightarrow> 'a buffered outcome) \<Rightarrow> 'a multi \<Rightarrow> 'a multi outcome" where
  "on_mchan f s = bind_outcome (f (mchan s)) (\<lambda>ch. Next (s\<lparr>mchan := ch\<rparr>))"

definition goes_to :: "nat \<Rightarrow> multi_pc \<Rightarrow> 'a multi \<Rightarrow> 'a multi" where
  "goes_to i p s = s\<lparr>mpc := (mpc s)(i := p)\<rparr>"

text \<open>Releasing a copy of the \<^verbatim>\<open>shared_ptr\<close> to the sender or receiver; the last one closes it.\<close>

definition drop_sender :: "nat \<Rightarrow> 'a multi \<Rightarrow> 'a multi outcome" where
  "drop_sender i s =
     (let s = s\<lparr>sender_refs := sender_refs s - 1\<rparr>
      in if sender_refs s = 0 then on_mchan (buffered_closeSender i) s else Next s)"

definition drop_receiver :: "nat \<Rightarrow> 'a multi \<Rightarrow> 'a multi outcome" where
  "drop_receiver i s =
     (let s = s\<lparr>recv_refs := recv_refs s - 1\<rparr>
      in if recv_refs s = 0 then on_mchan (buffered_closeReceiver i) s else Next s)"

section \<open>Steps\<close>

text \<open>The call, up to the channel; the caller's step \<open>OwMake\<close> constructs and detaches the routine.\<close>

definition generateForMultiConsumer :: "'a multi outcome" where
  "generateForMultiConsumer =
     bind_outcome (makeBufferedChannel 2)
       (\<lambda>ch. Next \<lparr>mchan = ch, sender_refs = 1, recv_refs = 1, mpc = (\<lambda>i. Unmade)(0 := OwMake),
                   seen = (\<lambda>i. [])\<rparr>)"

text \<open>Delivering the notices of a close, then going on.\<close>

definition deliver_then :: "nat \<Rightarrow> multi_pc \<Rightarrow> 'a multi \<Rightarrow> 'a multi outcome" where
  "deliver_then i p s =
     (if notifies i (mchan s) then on_mchan (thread_step i) s else Next (goes_to i p s))"

definition owner_step :: "nat \<Rightarrow> 'a multi \<Rightarrow> 'a multi outcome" where
  "owner_step c s =
     (case mpc s 0 of
        OwMake \<Rightarrow> Next (goes_to 0 OwDropSender (goes_to 1 (GeYield 0) (s\<lparr>sender_refs := sender_refs s + 1\<rparr>)))
      | OwDropSender \<Rightarrow> bind_outcome (drop_sender 0 s) (\<lambda>t. Next (goes_to 0 OwClosingSender t))
      | OwClosingSender \<Rightarrow> deliver_then 0 (OwSpawn 2) s
      | OwSpawn k \<Rightarrow>
          (if k < c + 2
           then Next (goes_to 0 (OwSpawn (Suc k)) (goes_to k CoAtPop (s\<lparr>recv_refs := recv_refs s + 1\<rparr>)))
           else Next (goes_to 0 OwDropReceiver s))
      | OwDropReceiver \<Rightarrow> bind_outcome (drop_receiver 0 s) (\<lambda>t. Next (goes_to 0 OwClosingReceiver t))
      | OwClosingReceiver \<Rightarrow> deliver_then 0 OwDone s
      | _ \<Rightarrow> Blocked)"

text \<open>
  The routine runs \<^verbatim>\<open>func(*sender)\<close>: \<open>gen n\<close> is the value that the function sends in round \<open>n\<close>, or
  nothing when it returns or throws then. It stops when a \<^verbatim>\<open>push\<close> tells it that nobody receives.
\<close>

definition producer_step :: "(nat \<Rightarrow> 'a option) \<Rightarrow> 'a multi \<Rightarrow> 'a multi outcome" where
  "producer_step gen s =
     (case mpc s 1 of
        GeYield n \<Rightarrow>
          (case gen n of
             Some v \<Rightarrow> bind_outcome (on_mchan (buffered_push 1 v) s) (\<lambda>t. Next (goes_to 1 (GeInPush n) t))
           | None \<Rightarrow> Next (goes_to 1 GeLeave s))
      | GeInPush n \<Rightarrow>
          bind_outcome (on_mchan (thread_step 1) s)
            (\<lambda>t. case push_result 1 (mchan s) of
                   None \<Rightarrow> Next t
                 | Some b \<Rightarrow> Next (goes_to 1 (if b then GeYield (Suc n) else GeLeave) t))
      | GeLeave \<Rightarrow> bind_outcome (drop_sender 1 s) (\<lambda>t. Next (goes_to 1 GeClosing t))
      | GeClosing \<Rightarrow> deliver_then 1 GeGone s
      | _ \<Rightarrow> Blocked)"

text \<open>
  A consumer's loop over the receiver; it leaves behind its value number \<open>lim i\<close>, by \<^verbatim>\<open>break\<close>
  or an exception, or at the end of the stream.
\<close>

definition consumer_step :: "(nat \<Rightarrow> nat) \<Rightarrow> nat \<Rightarrow> 'a multi \<Rightarrow> 'a multi outcome" where
  "consumer_step lim i s =
     (case mpc s i of
        CoAtPop \<Rightarrow> bind_outcome (on_mchan (buffered_pop i) s) (\<lambda>t. Next (goes_to i CoInPop t))
      | CoInPop \<Rightarrow>
          bind_outcome (on_mchan (thread_step i) s)
            (\<lambda>t. case pop_result i (mchan s) of
                   None \<Rightarrow> Next t
                 | Some (Some v) \<Rightarrow>
                     Next (goes_to i (if length (seen s i) = lim i then CoLeave else CoAtPop)
                             (t\<lparr>seen := (seen s)(i := seen s i @ [v])\<rparr>))
                 | Some None \<Rightarrow> Next (goes_to i CoLeave t))
      | CoLeave \<Rightarrow> bind_outcome (drop_receiver i s) (\<lambda>t. Next (goes_to i CoClosing t))
      | CoClosing \<Rightarrow> deliver_then i CoGone s
      | _ \<Rightarrow> Blocked)"

text \<open>An event is the number of the thread that moves.\<close>

definition multi_step :: "(nat \<Rightarrow> 'a option) \<Rightarrow> (nat \<Rightarrow> nat) \<Rightarrow> nat \<Rightarrow> (nat, 'a multi) machine" where
  "multi_step gen lim c i s =
     (if i = 0 then owner_step c s else if i = 1 then producer_step gen s else consumer_step lim i s)"

text \<open>The traffic of the channel that a step shows.\<close>

definition multi_obs :: "(nat \<Rightarrow> 'a option) \<Rightarrow> nat \<Rightarrow> 'a multi \<Rightarrow> 'a traffic list" where
  "multi_obs gen i s =
     (case mpc s i of
        GeYield n \<Rightarrow> (case gen n of Some v \<Rightarrow> buffered_obs (Push i v) (mchan s) | None \<Rightarrow> [])
      | GeInPush n \<Rightarrow> buffered_obs (Go i) (mchan s)
      | CoAtPop \<Rightarrow> buffered_obs (PopCall i) (mchan s)
      | CoInPop \<Rightarrow> buffered_obs (Go i) (mchan s)
      | _ \<Rightarrow> [])"

section \<open>The invariant\<close>

fun mplace :: "multi_pc \<Rightarrow> place \<Rightarrow> bool" where
  "mplace (GeInPush n) q = (q = InPushCall)"
| "mplace CoInPop q = (q = InPopCall)"
| "mplace OwClosingSender q = (q = Outside \<or> q = Notifying)"
| "mplace OwClosingReceiver q = (q = Outside \<or> q = Notifying)"
| "mplace GeClosing q = (q = Outside \<or> q = Notifying)"
| "mplace CoClosing q = (q = Outside \<or> q = Notifying)"
| "mplace p q = (q = Outside)"

fun has_sender :: "multi_pc \<Rightarrow> bool" where
  "has_sender OwMake = True"
| "has_sender OwDropSender = True"
| "has_sender (GeYield n) = True"
| "has_sender (GeInPush n) = True"
| "has_sender GeLeave = True"
| "has_sender p = False"

fun has_receiver :: "multi_pc \<Rightarrow> bool" where
  "has_receiver OwMake = True"
| "has_receiver OwDropSender = True"
| "has_receiver OwClosingSender = True"
| "has_receiver (OwSpawn k) = True"
| "has_receiver OwDropReceiver = True"
| "has_receiver CoAtPop = True"
| "has_receiver CoInPop = True"
| "has_receiver CoLeave = True"
| "has_receiver p = False"

fun owner_pc :: "multi_pc \<Rightarrow> bool" where
  "owner_pc OwMake = True"
| "owner_pc OwDropSender = True"
| "owner_pc OwClosingSender = True"
| "owner_pc (OwSpawn k) = True"
| "owner_pc OwDropReceiver = True"
| "owner_pc OwClosingReceiver = True"
| "owner_pc OwDone = True"
| "owner_pc p = False"

fun producer_pc :: "multi_pc \<Rightarrow> bool" where
  "producer_pc Unmade = True"
| "producer_pc (GeYield n) = True"
| "producer_pc (GeInPush n) = True"
| "producer_pc GeLeave = True"
| "producer_pc GeClosing = True"
| "producer_pc GeGone = True"
| "producer_pc p = False"

fun consumer_pc :: "multi_pc \<Rightarrow> bool" where
  "consumer_pc Unmade = True"
| "consumer_pc CoAtPop = True"
| "consumer_pc CoInPop = True"
| "consumer_pc CoLeave = True"
| "consumer_pc CoClosing = True"
| "consumer_pc CoGone = True"
| "consumer_pc p = False"

text \<open>The consumers made so far.\<close>

fun made_before :: "nat \<Rightarrow> multi_pc \<Rightarrow> nat" where
  "made_before c OwMake = 2"
| "made_before c OwDropSender = 2"
| "made_before c OwClosingSender = 2"
| "made_before c (OwSpawn k) = k"
| "made_before c p = c + 2"

definition roles_ok :: "nat \<Rightarrow> (nat \<Rightarrow> multi_pc) \<Rightarrow> bool" where
  "roles_ok c pc \<longleftrightarrow> owner_pc (pc 0) \<and> producer_pc (pc 1) \<and> (pc 1 = Unmade \<longleftrightarrow> pc 0 = OwMake) \<and>
     2 \<le> made_before c (pc 0) \<and> made_before c (pc 0) \<le> c + 2 \<and>
     (\<forall>i \<ge> 2. consumer_pc (pc i) \<and> (pc i = Unmade \<longleftrightarrow> made_before c (pc 0) \<le> i))"

definition mrefs_ok :: "'a multi \<Rightarrow> bool" where
  "mrefs_ok s \<longleftrightarrow> sender_refs s = card {i. has_sender (mpc s i)} \<and>
     recv_refs s = card {i. has_receiver (mpc s i)} \<and>
     (mSenderClosed (mchan s) \<longleftrightarrow> sender_refs s = 0) \<and> (mReceiverClosed (mchan s) \<longleftrightarrow> recv_refs s = 0)"

text \<open>Where the routine is, when \<open>k\<close> values were accepted and \<open>t\<close> pushes returned true.\<close>

fun yield_at :: "(nat \<Rightarrow> 'a option) \<Rightarrow> multi_pc \<Rightarrow> nat \<Rightarrow> nat \<Rightarrow> bool \<Rightarrow> bool" where
  "yield_at gen Unmade k t closed = (k = 0 \<and> t = 0)"
| "yield_at gen (GeYield n) k t closed = (k = n \<and> t = n)"
| "yield_at gen (GeInPush n) k t closed = (gen n \<noteq> None \<and> (k = n \<or> k = Suc n) \<and> t = n)"
| "yield_at gen p k t closed = (gen k = None \<or> closed)"

definition yields_ok :: "(nat \<Rightarrow> 'a option) \<Rightarrow> 'a multi \<Rightarrow> 'a traffic list \<Rightarrow> bool" where
  "yields_ok gen s h \<longleftrightarrow> map Some (accepted h) = map gen [0..<length (accepted h)] \<and>
     accepted_by 1 h = length (accepted h) \<and>
     yield_at gen (mpc s 1) (length (accepted h)) (true_pushes 1 h) (mReceiverClosed (mchan s)) \<and>
     ((\<exists>i. PopReturned i None \<in> set h) \<longrightarrow> gen (length (accepted h)) = None)"

text \<open>How many values a consumer has seen there; \<open>e\<close> tells that it has met the end of the stream.\<close>

fun take_at :: "nat \<Rightarrow> multi_pc \<Rightarrow> nat \<Rightarrow> bool \<Rightarrow> bool" where
  "take_at l CoAtPop m e = (m \<le> l)"
| "take_at l CoInPop m e = (m \<le> l)"
| "take_at l CoLeave m e = (m = Suc l \<or> m \<le> l \<and> e)"
| "take_at l CoClosing m e = (m = Suc l \<or> m \<le> l \<and> e)"
| "take_at l CoGone m e = (m = Suc l \<or> m \<le> l \<and> e)"
| "take_at l p m e = (m = 0)"

definition takes_ok :: "(nat \<Rightarrow> nat) \<Rightarrow> 'a multi \<Rightarrow> 'a traffic list \<Rightarrow> bool" where
  "takes_ok lim s h \<longleftrightarrow> (\<forall>i. seen s i = popped_by i h \<and>
     take_at (lim i) (mpc s i) (length (seen s i)) (PopReturned i None \<in> set h))"

definition multi_core :: "(nat \<Rightarrow> 'a option) \<Rightarrow> (nat \<Rightarrow> nat) \<Rightarrow> nat \<Rightarrow> 'a multi \<times> 'a traffic list \<Rightarrow> bool" where
  "multi_core gen lim c sh \<longleftrightarrow> chan_state 2 (c + 2) (mchan (fst sh)) (snd sh) \<and>
     (\<forall>i. mplace (mpc (fst sh) i) (place (mchan (fst sh)) i)) \<and> roles_ok c (mpc (fst sh)) \<and>
     mrefs_ok (fst sh) \<and> yields_ok gen (fst sh) (snd sh) \<and> takes_ok lim (fst sh) (snd sh)"

text \<open>No more values than the consumers take and the deque holds are accepted.\<close>

definition most_accepted :: "(nat \<Rightarrow> nat) \<Rightarrow> nat \<Rightarrow> nat" where
  "most_accepted lim c = (\<Sum>i = 2..<c + 2. Suc (lim i)) + 2"

definition multi_inv :: "(nat \<Rightarrow> 'a option) \<Rightarrow> (nat \<Rightarrow> nat) \<Rightarrow> nat \<Rightarrow> 'a multi \<times> 'a traffic list \<Rightarrow> bool" where
  "multi_inv gen lim c sh \<longleftrightarrow> multi_core gen lim c sh \<and> length (accepted (snd sh)) \<le> most_accepted lim c"

lemma multi_coreD:
  assumes "multi_core gen lim c (s, h)"
  shows "chan_state 2 (c + 2) (mchan s) h" "mplace (mpc s i) (place (mchan s) i)" "roles_ok c (mpc s)"
    "mrefs_ok s" "yields_ok gen s h" "takes_ok lim s h"
  using assms by (simp_all add: multi_core_def)

text \<open>Roles: who may be where, and which threads hold a reference.\<close>

lemma roles_upd:
  assumes "roles_ok c pc" "pc i \<noteq> Unmade" "p \<noteq> Unmade"
  shows "i = 0 \<Longrightarrow> owner_pc p \<Longrightarrow> made_before c p = made_before c (pc 0) \<Longrightarrow> p \<noteq> OwMake \<Longrightarrow> pc 0 \<noteq> OwMake \<Longrightarrow>
      roles_ok c (pc(i := p))"
    and "i = 1 \<Longrightarrow> producer_pc p \<Longrightarrow> roles_ok c (pc(i := p))"
    and "2 \<le> i \<Longrightarrow> consumer_pc p \<Longrightarrow> roles_ok c (pc(i := p))"
  using assms unfolding roles_ok_def by auto

lemma owner_not_Unmade: "owner_pc p \<Longrightarrow> p \<noteq> Unmade"
  by auto

lemma roles_bound:
  assumes "roles_ok c pc" "pc i \<noteq> Unmade"
  shows "i < c + 2"
proof (rule ccontr)
  assume "\<not> i < c + 2"
  then have "2 \<le> i" "made_before c (pc 0) \<le> i" using assms(1) by (auto simp: roles_ok_def)
  with assms show False by (auto simp: roles_ok_def)
qed

lemma holders_finite:
  assumes "roles_ok c pc" "\<not> P Unmade"
  shows "finite {i. P (pc i)}"
proof (rule finite_subset)
  show "{i. P (pc i)} \<subseteq> {..<c + 2}" using roles_bound [OF assms(1)] assms(2) by (metis (no_types, lifting) lessThan_iff mem_Collect_eq subsetI)
qed simp

lemma holders_upd:
  assumes "finite {j. P (f j)}" "n + of_bool (P (f i)) = card {j. P (f j)} + of_bool (P p)"
  shows "n = card {j. P ((f(i := p)) j)}"
proof -
  let ?H = "{j. P (f j)}"
  have e: "{j. P ((f(i := p)) j)} = (if P p then insert i ?H else ?H - {i})" by auto
  have m: "i \<in> ?H \<longleftrightarrow> P (f i)" by simp
  have c: "P (f i) \<Longrightarrow> 0 < card ?H" using assms(1) m card_gt_0_iff by blast
  show ?thesis
  proof (cases "P p")
    case True
    then show ?thesis unfolding e using assms m
      by (cases "P (f i)") (simp_all add: card_insert_if del: mem_Collect_eq)
  next
    case False
    then show ?thesis unfolding e using assms m c
      by (cases "P (f i)") (simp_all add: card_Diff_singleton_if del: mem_Collect_eq)
  qed
qed

lemma mono_take: "take_at l p m e \<Longrightarrow> (e \<Longrightarrow> e') \<Longrightarrow> take_at l p m e'"
  by (cases p) auto

lemma mono_yield: "yield_at gen p k t b \<Longrightarrow> (b \<Longrightarrow> b') \<Longrightarrow> yield_at gen p k t b'"
  by (cases p) auto

lemma takes_upd:
  assumes "takes_ok lim s h" "seen t = (seen s)(i := seen s i @ popped_by i tr)" "mpc t = (mpc s)(i := p)"
    and "\<And>j. j \<noteq> i \<Longrightarrow> popped_by j tr = []"
    and "take_at (lim i) p (length (seen s i @ popped_by i tr)) (PopReturned i None \<in> set (h @ tr))"
  shows "takes_ok lim t (h @ tr)"
  unfolding takes_ok_def
proof (intro allI)
  fix j
  have "seen s j = popped_by j h" "take_at (lim j) (mpc s j) (length (seen s j)) (PopReturned j None \<in> set h)"
    using assms(1) unfolding takes_ok_def by blast+
  then show "seen t j = popped_by j (h @ tr) \<and>
      take_at (lim j) (mpc t j) (length (seen t j)) (PopReturned j None \<in> set (h @ tr))"
    using assms(2-5) by (cases "j = i") (auto elim: mono_take)
qed

lemma yields_other:
  assumes "yields_ok gen s h" "i \<noteq> 1" "mpc t = (mpc s)(i := p)"
    and "accepted tr = []" "accepted_by 1 tr = 0" "true_pushes 1 tr = 0"
    and "mReceiverClosed (mchan s) \<Longrightarrow> mReceiverClosed (mchan t)"
    and "\<And>j. PopReturned j None \<in> set tr \<Longrightarrow> gen (length (accepted h)) = None"
  shows "yields_ok gen t (h @ tr)"
  using assms by (auto simp: yields_ok_def elim: mono_yield)

lemma multi_keep:
  assumes core: "multi_core gen lim c (s, h)"
    and ch: "chan_state 2 (c + 2) ch (h @ tr)" "place ch = (place (mchan s))(i := q)" "mplace p q"
    and closed: "mSenderClosed ch \<longleftrightarrow> sr = 0" "mReceiverClosed ch \<longleftrightarrow> rr = 0"
    and refs: "sr + of_bool (has_sender (mpc s i)) = sender_refs s + of_bool (has_sender p)"
      "rr + of_bool (has_receiver (mpc s i)) = recv_refs s + of_bool (has_receiver p)"
    and roles: "roles_ok c ((mpc s)(i := p))"
    and t: "t = s\<lparr>mchan := ch, sender_refs := sr, recv_refs := rr, mpc := (mpc s)(i := p),
      seen := (seen s)(i := seen s i @ popped_by i tr)\<rparr>"
    and logs: "yields_ok gen t (h @ tr)" "\<And>j. j \<noteq> i \<Longrightarrow> popped_by j tr = []"
      "take_at (lim i) p (length (seen s i @ popped_by i tr)) (PopReturned i None \<in> set (h @ tr))"
  shows "multi_core gen lim c (t, h @ tr)"
proof -
  note C = multi_coreD [OF core]
  have "takes_ok lim t (h @ tr)"
    by (rule takes_upd [OF C(6), where i = i and p = p]) (use logs in \<open>simp_all add: t\<close>)
  moreover have "mrefs_ok t"
    using C(4) closed refs holders_upd [where P = has_sender and f = "mpc s", OF holders_finite [OF C(3)], of sr i p]
      holders_upd [where P = has_receiver and f = "mpc s", OF holders_finite [OF C(3)], of rr i p]
    by (simp add: mrefs_ok_def t)
  ultimately show ?thesis using ch roles logs(1) C(2) by (simp add: multi_core_def t)
qed

section \<open>Steps of a consumer\<close>

lemma consumer_not: "consumer_pc p \<Longrightarrow> \<not> has_sender p" "owner_pc p \<Longrightarrow> p \<noteq> Unmade"
  by (cases p; simp)+

lemma consumer_facts:
  assumes "multi_core gen lim c (s, h)" "2 \<le> i"
  shows "consumer_pc (mpc s i)" "mpc s i \<noteq> Unmade \<Longrightarrow> i < c + 2" "mplace (mpc s i) (place (mchan s) i)"
    "seen s i = popped_by i h" "take_at (lim i) (mpc s i) (length (seen s i)) (PopReturned i None \<in> set h)"
    "mReceiverClosed (mchan s) \<longleftrightarrow> recv_refs s = 0" "mSenderClosed (mchan s) \<longleftrightarrow> sender_refs s = 0"
proof -
  note C = multi_coreD [OF assms(1)]
  show "consumer_pc (mpc s i)" using C(3) assms(2) by (simp add: roles_ok_def)
  show "mpc s i \<noteq> Unmade \<Longrightarrow> i < c + 2" by (rule roles_bound [OF C(3)])
  show "mplace (mpc s i) (place (mchan s) i)" by (rule C(2))
  show "seen s i = popped_by i h" "take_at (lim i) (mpc s i) (length (seen s i)) (PopReturned i None \<in> set h)"
    using C(6) unfolding takes_ok_def by blast+
  show "mReceiverClosed (mchan s) \<longleftrightarrow> recv_refs s = 0" "mSenderClosed (mchan s) \<longleftrightarrow> sender_refs s = 0"
    using C(4) by (simp_all add: mrefs_ok_def)
qed

lemma holds_receiver:
  assumes "multi_core gen lim c (s, h)" "has_receiver (mpc s i)"
  shows "\<not> mReceiverClosed (mchan s)" "0 < recv_refs s" "recv_refs s = 1 \<Longrightarrow> has_receiver (mpc s j) \<Longrightarrow> j = i"
proof -
  note C = multi_coreD [OF assms(1)]
  have f: "finite {j. has_receiver (mpc s j)}" by (rule holders_finite [OF C(3)]) simp
  then have "0 < card {j. has_receiver (mpc s j)}" using assms(2) card_gt_0_iff by blast
  then show "\<not> mReceiverClosed (mchan s)" "0 < recv_refs s" using C(4) by (simp_all add: mrefs_ok_def)
  assume "recv_refs s = 1" "has_receiver (mpc s j)"
  with C(4) have "card {j. has_receiver (mpc s j)} = 1" by (simp add: mrefs_ok_def)
  then obtain k where "{j. has_receiver (mpc s j)} = {k}" by (rule card_1_singletonE)
  with assms(2) \<open>has_receiver (mpc s j)\<close> show "j = i" by (metis mem_Collect_eq singletonD)
qed

lemma holds_sender:
  assumes "multi_core gen lim c (s, h)" "has_sender (mpc s i)"
  shows "\<not> mSenderClosed (mchan s)" "0 < sender_refs s" "sender_refs s = 1 \<Longrightarrow> has_sender (mpc s j) \<Longrightarrow> j = i"
proof -
  note C = multi_coreD [OF assms(1)]
  have f: "finite {j. has_sender (mpc s j)}" by (rule holders_finite [OF C(3)]) simp
  then have "0 < card {j. has_sender (mpc s j)}" using assms(2) card_gt_0_iff by blast
  then show "\<not> mSenderClosed (mchan s)" "0 < sender_refs s" using C(4) by (simp_all add: mrefs_ok_def)
  assume "sender_refs s = 1" "has_sender (mpc s j)"
  with C(4) have "card {j. has_sender (mpc s j)} = 1" by (simp add: mrefs_ok_def)
  then obtain k where "{j. has_sender (mpc s j)} = {k}" by (rule card_1_singletonE)
  with assms(2) \<open>has_sender (mpc s j)\<close> show "j = i" by (metis mem_Collect_eq singletonD)
qed

lemma consumer_keep:
  assumes core: "multi_core gen lim c (s, h)" and i: "2 \<le> i" "mpc s i \<noteq> Unmade"
    and p: "consumer_pc p" "p \<noteq> Unmade"
    and ch: "chan_state 2 (c + 2) ch (h @ tr)" "place ch = (place (mchan s))(i := q)" "mplace p q"
      "mSenderClosed ch = mSenderClosed (mchan s)" "mReceiverClosed ch \<longleftrightarrow> rr = 0"
    and refs: "rr + of_bool (has_receiver (mpc s i)) = recv_refs s + of_bool (has_receiver p)"
      "has_receiver p \<Longrightarrow> has_receiver (mpc s i)"
    and tr: "accepted tr = []" "accepted_by 1 tr = 0" "true_pushes 1 tr = 0" "\<And>j. j \<noteq> i \<Longrightarrow> popped_by j tr = []"
      "\<And>j. PopReturned j None \<in> set tr \<Longrightarrow> gen (length (accepted h)) = None"
      "take_at (lim i) p (length (seen s i @ popped_by i tr)) (PopReturned i None \<in> set (h @ tr))"
  shows "multi_core gen lim c (s\<lparr>mchan := ch, recv_refs := rr, mpc := (mpc s)(i := p),
    seen := (seen s)(i := seen s i @ popped_by i tr)\<rparr>, h @ tr)" (is "multi_core gen lim c (?t, _)")
proof -
  note C = multi_coreD [OF core] and F = consumer_facts [OF core i(1)]
  have "\<not> has_sender (mpc s i)" "\<not> has_sender p" using F(1) p(1) by (simp_all add: consumer_not)
  then have sr: "sender_refs s + of_bool (has_sender (mpc s i)) = sender_refs s + of_bool (has_sender p)" by simp
  have "mReceiverClosed ch" if "mReceiverClosed (mchan s)"
  proof -
    have "\<not> has_receiver (mpc s i)" using holds_receiver(1) [OF core] that by blast
    with refs F(6) that ch(5) show ?thesis by (cases "has_receiver p") simp_all
  qed
  then have "yields_ok gen ?t (h @ tr)"
    using i(1) by (intro yields_other [OF C(5), of i _ p]) (use tr in simp_all)
  then show ?thesis
    by (intro multi_keep [OF core ch(1,2,3) _ ch(5) sr refs(1) roles_upd(3) [OF C(3) i(2) p(2) i(1) p(1)]])
      (use tr ch(4) F(7) in simp_all)
qed

text \<open>Delivering notices, and giving up a copy of the receiver or the sender.\<close>

lemma mplace_in:
  "mplace p InPopCall \<Longrightarrow> p = CoInPop" "mplace p InPushCall \<Longrightarrow> \<exists>n. p = GeInPush n"
  by (cases p; simp)+

lemma delivering_spec:
  assumes core: "multi_core gen lim c (s, h)" and p: "place (mchan s) i = Outside \<or> place (mchan s) i = Notifying"
  shows "if notifies i (mchan s)
    then \<exists>ch q. thread_step i (mchan s) = Next ch \<and> chan_state 2 (c + 2) ch h \<and>
      place ch = (place (mchan s))(i := q) \<and> (q = Outside \<or> q = Notifying) \<and>
      mSenderClosed ch = mSenderClosed (mchan s) \<and> mReceiverClosed ch = mReceiverClosed (mchan s)
    else place (mchan s) i = Outside"
proof (cases "notifies i (mchan s)")
  case True
  note C = multi_coreD [OF core]
  have n: "place (mchan s) i = Notifying" using p True placeD(3) [of "mchan s" i] by auto
  have "buffered_inv (c + 2) (mchan s)" using C(1) by (simp add: chan_state_def)
  from state_go [OF C(1) notifying_goes_on [OF this n]] n obs_go_notify [OF True]
  show ?thesis using True by (fastforce simp del: buffered_obs.simps)
next
  case False
  then show ?thesis using p by (auto simp: place_def split: if_splits)
qed

lemma drop_receiver_spec:
  assumes core: "multi_core gen lim c (s, h)" and i: "i < c + 2" "has_receiver (mpc s i)"
    and p: "place (mchan s) i = Outside"
  shows "\<exists>ch q. drop_receiver i s = Next (s\<lparr>mchan := ch, recv_refs := recv_refs s - 1\<rparr>) \<and>
    chan_state 2 (c + 2) ch h \<and> place ch = (place (mchan s))(i := q) \<and> (q = Outside \<or> q = Notifying) \<and>
    (mReceiverClosed ch \<longleftrightarrow> recv_refs s - 1 = 0) \<and> mSenderClosed ch = mSenderClosed (mchan s)"
proof (cases "recv_refs s = 1")
  case True
  note C = multi_coreD [OF core] and H = holds_receiver [OF core i(2)]
  have "place (mchan s) k \<noteq> InPopCall" for k
  proof
    assume "place (mchan s) k = InPopCall"
    then have "mpc s k = CoInPop" using C(2) [of k] by (auto dest: mplace_in)
    then have "k = i" using H(3) [OF True, of k] by simp
    with \<open>place (mchan s) k = InPopCall\<close> p show False by simp
  qed
  from state_closeReceiver [OF C(1) i(1) p H(1) this] obtain ch q where
    "buffered_closeReceiver i (mchan s) = Next ch" "chan_state 2 (c + 2) ch h"
    "place ch = (place (mchan s))(i := q)" "q = Outside \<or> q = Notifying" "mReceiverClosed ch"
    "mSenderClosed ch = mSenderClosed (mchan s)"
    by blast
  with True show ?thesis
    by (intro exI [of _ ch] exI [of _ q]) (simp add: drop_receiver_def on_mchan_def)
next
  case False
  note C = multi_coreD [OF core] and H = holds_receiver [OF core i(2)]
  have "place (mchan s) = (place (mchan s))(i := Outside)" using p by (simp add: fun_upd_idem)
  with False H C(1) show ?thesis
    by (intro exI [of _ "mchan s"] exI [of _ Outside]) (simp add: drop_receiver_def Let_def)
qed

lemma drop_sender_spec:
  assumes core: "multi_core gen lim c (s, h)" and i: "i < c + 2" "has_sender (mpc s i)"
    and p: "place (mchan s) i = Outside"
  shows "\<exists>ch q. drop_sender i s = Next (s\<lparr>mchan := ch, sender_refs := sender_refs s - 1\<rparr>) \<and>
    chan_state 2 (c + 2) ch h \<and> place ch = (place (mchan s))(i := q) \<and> (q = Outside \<or> q = Notifying) \<and>
    (mSenderClosed ch \<longleftrightarrow> sender_refs s - 1 = 0) \<and> mReceiverClosed ch = mReceiverClosed (mchan s)"
proof (cases "sender_refs s = 1")
  case True
  note C = multi_coreD [OF core] and H = holds_sender [OF core i(2)]
  have "place (mchan s) k \<noteq> InPushCall" for k
  proof
    assume "place (mchan s) k = InPushCall"
    then have "has_sender (mpc s k)" using C(2) [of k] mplace_in(2) [of "mpc s k"] by auto
    then have "k = i" by (rule H(3) [OF True])
    with \<open>place (mchan s) k = InPushCall\<close> p show False by simp
  qed
  from state_closeSender [OF C(1) i(1) p H(1) this] obtain ch q where
    "buffered_closeSender i (mchan s) = Next ch" "chan_state 2 (c + 2) ch h"
    "place ch = (place (mchan s))(i := q)" "q = Outside \<or> q = Notifying" "mSenderClosed ch"
    "mReceiverClosed ch = mReceiverClosed (mchan s)"
    by blast
  with True show ?thesis
    by (intro exI [of _ ch] exI [of _ q]) (simp add: drop_sender_def on_mchan_def)
next
  case False
  note C = multi_coreD [OF core] and H = holds_sender [OF core i(2)]
  have "place (mchan s) = (place (mchan s))(i := Outside)" using p by (simp add: fun_upd_idem)
  with False H C(1) show ?thesis
    by (intro exI [of _ "mchan s"] exI [of _ Outside]) (simp add: drop_sender_def Let_def)
qed

abbreviation multi_safe :: "(nat \<Rightarrow> 'a option) \<Rightarrow> (nat \<Rightarrow> nat) \<Rightarrow> nat \<Rightarrow> 'a traffic list \<Rightarrow> nat \<Rightarrow> 'a multi \<Rightarrow>
    'a multi outcome \<Rightarrow> bool" where
  "multi_safe gen lim c h i s r \<equiv> safely (\<lambda>t. multi_core gen lim c (t, h @ multi_obs gen i s)) r"

lemma same_seen: "s\<lparr>mchan := ch, mpc := f, seen := (seen s)(i := seen s i @ [])\<rparr> = s\<lparr>mchan := ch, mpc := f\<rparr>"
  "s\<lparr>mchan := ch, recv_refs := r, mpc := f, seen := (seen s)(i := seen s i @ [])\<rparr> =
    s\<lparr>mchan := ch, recv_refs := r, mpc := f\<rparr>"
  by (simp_all add: fun_upd_idem)

text \<open>A quiet step of a consumer: nothing is returned to it.\<close>

lemma consumer_quiet:
  assumes core: "multi_core gen lim c (s, h)" and i: "2 \<le> i" "mpc s i \<noteq> Unmade"
    and p: "consumer_pc p" "p \<noteq> Unmade"
    and ch: "chan_state 2 (c + 2) ch (h @ tr)" "place ch = (place (mchan s))(i := q)" "mplace p q"
      "mSenderClosed ch = mSenderClosed (mchan s)" "mReceiverClosed ch \<longleftrightarrow> rr = 0"
    and refs: "rr + of_bool (has_receiver (mpc s i)) = recv_refs s + of_bool (has_receiver p)"
      "has_receiver p \<Longrightarrow> has_receiver (mpc s i)"
    and tr: "accepted tr = []" "accepted_by 1 tr = 0" "true_pushes 1 tr = 0" "\<And>j. popped_by j tr = []"
      "\<And>j. PopReturned j None \<notin> set tr"
      "take_at (lim i) p (length (seen s i)) (PopReturned i None \<in> set h)"
  shows "multi_core gen lim c (s\<lparr>mchan := ch, recv_refs := rr, mpc := (mpc s)(i := p)\<rparr>, h @ tr)"
proof -
  have "multi_core gen lim c (s\<lparr>mchan := ch, recv_refs := rr, mpc := (mpc s)(i := p),
    seen := (seen s)(i := seen s i @ popped_by i tr)\<rparr>, h @ tr)"
    by (rule consumer_keep [OF core i p ch refs]) (use tr in simp_all)
  then show ?thesis by (simp only: tr(4) same_seen)
qed

lemma co_at_pop:
  assumes core: "multi_core gen lim c (s, h)" and i: "2 \<le> i" and pc: "mpc s i = CoAtPop"
  shows "multi_safe gen lim c h i s (consumer_step lim i s)"
proof -
  note C = multi_coreD [OF core] and F = consumer_facts [OF core i]
  define tr where "tr = buffered_obs (PopCall i) (mchan s)"
  have o: "place (mchan s) i = Outside" and n: "i < c + 2" and live: "mpc s i \<noteq> Unmade" using F(2,3) pc by simp_all
  have op: "\<not> mReceiverClosed (mchan s)" using holds_receiver(1) [OF core, of i] pc by simp
  from state_pop [OF C(1) n o op] obtain ch where ch: "buffered_pop i (mchan s) = Next ch"
    "chan_state 2 (c + 2) ch (h @ tr)" "place ch = (place (mchan s))(i := InPopCall)"
    "mSenderClosed ch = mSenderClosed (mchan s)" "mReceiverClosed ch = mReceiverClosed (mchan s)"
    unfolding tr_def by blast
  have tr: "accepted tr = []" "accepted_by 1 tr = 0" "true_pushes 1 tr = 0" "\<And>j. popped_by j tr = []"
    "\<And>j. PopReturned j None \<notin> set tr"
    by (simp_all add: tr_def split: list.split)
  have "multi_core gen lim c (s\<lparr>mchan := ch, recv_refs := recv_refs s, mpc := (mpc s)(i := CoInPop)\<rparr>, h @ tr)"
    by (rule consumer_quiet [OF core i live _ _ ch(2,3)]) (use pc F tr ch in simp_all)
  then show ?thesis using pc ch(1) by (simp add: consumer_step_def on_mchan_def goes_to_def multi_obs_def tr_def)
qed

text \<open>When the sender is closed and a receiver is there, the function has come to its end.\<close>

lemma closed_at_end:
  assumes core: "multi_core gen lim c (s, h)" and "mSenderClosed (mchan s)" "\<not> mReceiverClosed (mchan s)"
  shows "gen (length (accepted h)) = None"
proof -
  note C = multi_coreD [OF core]
  have "\<not> has_sender (mpc s j)" for j using holds_sender(1) [OF core] assms(2) by blast
  from this [of 0] this [of 1] have n: "mpc s 0 \<noteq> OwMake" "\<not> has_sender (mpc s 1)" by auto
  then have "producer_pc (mpc s 1)" "mpc s 1 \<noteq> Unmade" using C(3) by (simp_all add: roles_ok_def)
  with n(2) C(5) assms(3) show ?thesis by (cases "mpc s 1") (simp_all add: yields_ok_def)
qed

lemma co_in_pop:
  assumes core: "multi_core gen lim c (s, h)" and i: "2 \<le> i" and pc: "mpc s i = CoInPop"
  shows "multi_safe gen lim c h i s (consumer_step lim i s)"
proof (cases "thread_step i (mchan s) = Blocked")
  case True
  with pc show ?thesis by (simp add: consumer_step_def on_mchan_def)
next
  case goes: False
  note C = multi_coreD [OF core] and F = consumer_facts [OF core i]
  have o: "place (mchan s) i = InPopCall" and live: "mpc s i \<noteq> Unmade" using F(3) pc by simp_all
  define x where "x = pop_result i (mchan s)"
  define tr where "tr = (case x of None \<Rightarrow> [] | Some x \<Rightarrow> [PopReturned i x])"
  have go: "buffered_obs (Go i) (mchan s) = tr" using obs_go_pop [OF o] by (simp add: tr_def x_def)
  obtain ch where ch: "thread_step i (mchan s) = Next ch" "chan_state 2 (c + 2) ch (h @ tr)"
    "place ch = (place (mchan s))(i := if x = None then InPopCall else Outside)"
    "mSenderClosed ch = mSenderClosed (mchan s)" "mReceiverClosed ch = mReceiverClosed (mchan s)"
    using state_go [OF C(1) goes] o go by (auto simp: x_def simp del: buffered_obs.simps)
  define p where "p = (case x of None \<Rightarrow> CoInPop | Some None \<Rightarrow> CoLeave
    | Some (Some v) \<Rightarrow> if length (seen s i) = lim i then CoLeave else CoAtPop)"
  have p: "consumer_pc p" "p \<noteq> Unmade" "has_receiver p" "mplace p (if x = None then InPopCall else Outside)"
    by (auto simp: p_def split: option.split)
  have tr: "accepted tr = []" "accepted_by 1 tr = 0" "true_pushes 1 tr = 0" "\<And>j. j \<noteq> i \<Longrightarrow> popped_by j tr = []"
    "popped_by i tr = (case x of Some (Some v) \<Rightarrow> [v] | _ \<Rightarrow> [])"
    "\<And>j. PopReturned j None \<in> set tr \<longleftrightarrow> j = i \<and> x = Some None"
    by (auto simp: tr_def split: option.split)
  have m: "length (seen s i) \<le> lim i" using F(5) pc by simp
  have take: "take_at (lim i) p (length (seen s i @ popped_by i tr)) (PopReturned i None \<in> set (h @ tr))"
    unfolding tr(5) set_append Un_iff tr(6) using m by (auto simp: p_def split: option.split)
  have e: "gen (length (accepted h)) = None" if "PopReturned j None \<in> set tr" for j
  proof -
    have "PopReturned i None \<in> set (h @ tr)" using that tr(6) by simp
    then have "mSenderClosed ch" using ch(2) unfolding chan_state_def logs_def end_log_def by blast
    moreover have "\<not> mReceiverClosed (mchan s)" using holds_receiver(1) [OF core, of i] pc by simp
    ultimately show ?thesis using closed_at_end [OF core] ch(4) by blast
  qed
  have "multi_core gen lim c (s\<lparr>mchan := ch, recv_refs := recv_refs s, mpc := (mpc s)(i := p),
    seen := (seen s)(i := seen s i @ popped_by i tr)\<rparr>, h @ tr)"
    by (rule consumer_keep [OF core i live p(1,2) ch(2,3) p(4)]) (use pc F tr ch p(3) e take in simp_all)
  moreover have "consumer_step lim i s = Next (s\<lparr>mchan := ch, mpc := (mpc s)(i := p),
    seen := (seen s)(i := seen s i @ popped_by i tr)\<rparr>)"
    using pc ch(1) fun_upd_idem [where f = "mpc s", OF pc] unfolding tr(5)
    by (simp add: consumer_step_def on_mchan_def goes_to_def p_def x_def [symmetric] split: option.split)
  moreover have "multi_obs gen i s = tr" using pc go by (simp add: multi_obs_def del: buffered_obs.simps)
  ultimately show ?thesis by simp
qed

lemma co_leave:
  assumes core: "multi_core gen lim c (s, h)" and i: "2 \<le> i" and pc: "mpc s i = CoLeave"
  shows "multi_safe gen lim c h i s (consumer_step lim i s)"
proof -
  note F = consumer_facts [OF core i]
  have o: "place (mchan s) i = Outside" and n: "i < c + 2" and live: "mpc s i \<noteq> Unmade" using F(2,3) pc by simp_all
  have hr: "has_receiver (mpc s i)" using pc by simp
  from drop_receiver_spec [OF core n hr o] obtain ch q where
    d: "drop_receiver i s = Next (s\<lparr>mchan := ch, recv_refs := recv_refs s - 1\<rparr>)"
    and ch: "chan_state 2 (c + 2) ch (h @ [])" "place ch = (place (mchan s))(i := q)" "q = Outside \<or> q = Notifying"
      "mReceiverClosed ch \<longleftrightarrow> recv_refs s - 1 = 0" "mSenderClosed ch = mSenderClosed (mchan s)"
    by auto
  have "multi_core gen lim c (s\<lparr>mchan := ch, recv_refs := recv_refs s - 1, mpc := (mpc s)(i := CoClosing)\<rparr>, h @ [])"
    by (rule consumer_quiet [OF core i live _ _ ch(1,2)])
      (use pc F ch holds_receiver(2) [OF core hr] in auto)
  then show ?thesis using pc d by (simp add: consumer_step_def goes_to_def multi_obs_def)
qed

lemma co_closing:
  assumes core: "multi_core gen lim c (s, h)" and i: "2 \<le> i" and pc: "mpc s i = CoClosing"
  shows "multi_safe gen lim c h i s (consumer_step lim i s)"
proof -
  note C = multi_coreD [OF core] and F = consumer_facts [OF core i]
  have live: "mpc s i \<noteq> Unmade" and o: "place (mchan s) i = Outside \<or> place (mchan s) i = Notifying"
    using F(3) pc by simp_all
  note D = delivering_spec [OF core o]
  show ?thesis
  proof (cases "notifies i (mchan s)")
    case True
    with D obtain ch q where d: "thread_step i (mchan s) = Next ch"
      and ch: "chan_state 2 (c + 2) ch (h @ [])" "place ch = (place (mchan s))(i := q)" "q = Outside \<or> q = Notifying"
        "mSenderClosed ch = mSenderClosed (mchan s)" "mReceiverClosed ch = mReceiverClosed (mchan s)"
      by auto
    have "multi_core gen lim c (s\<lparr>mchan := ch, recv_refs := recv_refs s, mpc := (mpc s)(i := CoClosing)\<rparr>, h @ [])"
      by (rule consumer_quiet [OF core i live _ _ ch(1,2)]) (use pc F ch in auto)
    then show ?thesis using pc d True fun_upd_idem [where f = "mpc s", OF pc]
      by (simp add: consumer_step_def deliver_then_def on_mchan_def multi_obs_def)
  next
    case False
    with D have p: "place (mchan s) = (place (mchan s))(i := Outside)" by (simp add: fun_upd_idem)
    have c0: "chan_state 2 (c + 2) (mchan s) (h @ [])" using C(1) by simp
    have "multi_core gen lim c (s\<lparr>mchan := mchan s, recv_refs := recv_refs s, mpc := (mpc s)(i := CoGone)\<rparr>, h @ [])"
      by (rule consumer_quiet [OF core i live _ _ c0 p]) (use pc F in auto)
    then show ?thesis using pc False
      by (simp add: consumer_step_def deliver_then_def goes_to_def multi_obs_def)
  qed
qed

lemma consumer_core:
  assumes "multi_core gen lim c (s, h)" "2 \<le> i"
  shows "multi_safe gen lim c h i s (consumer_step lim i s)"
proof (cases "mpc s i")
  case CoAtPop
  with assms show ?thesis by (rule co_at_pop)
next
  case CoInPop
  with assms show ?thesis by (rule co_in_pop)
next
  case CoLeave
  with assms show ?thesis by (rule co_leave)
next
  case CoClosing
  with assms show ?thesis by (rule co_closing)
qed (simp_all add: consumer_step_def)

section \<open>Steps of the routine\<close>

lemma producer_no_receiver: "producer_pc p \<Longrightarrow> \<not> has_receiver p"
  by (cases p) simp_all

lemma producer_facts:
  assumes "multi_core gen lim c (s, h)"
  shows "producer_pc (mpc s 1)" "mplace (mpc s 1) (place (mchan s) 1)" "seen s 1 = []" "popped_by 1 h = []"
    "mReceiverClosed (mchan s) \<longleftrightarrow> recv_refs s = 0" "mSenderClosed (mchan s) \<longleftrightarrow> sender_refs s = 0"
    "map Some (accepted h) = map gen [0..<length (accepted h)]" "accepted_by 1 h = length (accepted h)"
    "yield_at gen (mpc s 1) (length (accepted h)) (true_pushes 1 h) (mReceiverClosed (mchan s))"
    "PopReturned i None \<in> set h \<Longrightarrow> gen (length (accepted h)) = None"
proof -
  note C = multi_coreD [OF assms]
  show pp: "producer_pc (mpc s 1)" using C(3) by (simp add: roles_ok_def)
  show "mplace (mpc s 1) (place (mchan s) 1)" by (rule C(2))
  have "seen s 1 = popped_by 1 h" "take_at (lim 1) (mpc s 1) (length (seen s 1)) (PopReturned 1 None \<in> set h)"
    using C(6) unfolding takes_ok_def by blast+
  with pp show "seen s 1 = []" "popped_by 1 h = []" by (cases "mpc s 1"; simp)+
  show "mReceiverClosed (mchan s) \<longleftrightarrow> recv_refs s = 0" "mSenderClosed (mchan s) \<longleftrightarrow> sender_refs s = 0"
    using C(4) by (simp_all add: mrefs_ok_def)
  show "map Some (accepted h) = map gen [0..<length (accepted h)]" "accepted_by 1 h = length (accepted h)"
    "yield_at gen (mpc s 1) (length (accepted h)) (true_pushes 1 h) (mReceiverClosed (mchan s))"
    "PopReturned i None \<in> set h \<Longrightarrow> gen (length (accepted h)) = None"
    using C(5) unfolding yields_ok_def by blast+
qed

lemma producer_keep:
  assumes core: "multi_core gen lim c (s, h)" and live: "mpc s 1 \<noteq> Unmade"
    and p: "producer_pc p" "p \<noteq> Unmade"
    and ch: "chan_state 2 (c + 2) ch (h @ tr)" "place ch = (place (mchan s))(1 := q)" "mplace p q"
      "mSenderClosed ch \<longleftrightarrow> sr = 0" "mReceiverClosed ch = mReceiverClosed (mchan s)"
    and refs: "sr + of_bool (has_sender (mpc s 1)) = sender_refs s + of_bool (has_sender p)"
    and tr: "\<And>j. popped_by j tr = []" "\<And>j. PopReturned j None \<notin> set tr"
    and logs: "map Some (accepted (h @ tr)) = map gen [0..<length (accepted (h @ tr))]"
      "accepted_by 1 tr = length (accepted tr)"
      "yield_at gen p (length (accepted (h @ tr))) (true_pushes 1 (h @ tr)) (mReceiverClosed ch)"
      "accepted tr = [] \<or> gen (length (accepted h)) \<noteq> None"
  shows "multi_core gen lim c (s\<lparr>mchan := ch, sender_refs := sr, mpc := (mpc s)(1 := p)\<rparr>, h @ tr)" (is "multi_core gen lim c (?t, _)")
proof -
  note C = multi_coreD [OF core] and F = producer_facts [OF core]
  have np: "\<not> has_receiver (mpc s 1)" "\<not> has_receiver p" using F(1) p(1) by (simp_all add: producer_no_receiver)
  then have rr: "recv_refs s + of_bool (has_receiver (mpc s 1)) = recv_refs s + of_bool (has_receiver p)" by simp
  have closed: "mReceiverClosed ch \<longleftrightarrow> recv_refs s = 0" using ch(5) F(5) by simp
  have "gen (length (accepted (h @ tr))) = None" if "PopReturned j None \<in> set (h @ tr)" for j
    using that tr(2) F(10) [of j] logs(4) by auto
  then have y: "yields_ok gen ?t (h @ tr)"
    using logs F(8) by (auto simp: yields_ok_def)
  have "?t = s\<lparr>mchan := ch, sender_refs := sr, recv_refs := recv_refs s, mpc := (mpc s)(1 := p),
      seen := (seen s)(1 := seen s 1 @ popped_by 1 tr)\<rparr>"
    using tr(1) by simp
  moreover have "take_at (lim 1) p (length (seen s 1 @ popped_by 1 tr)) (PopReturned 1 None \<in> set (h @ tr))"
    using p F(3) tr(1) by (cases p) simp_all
  ultimately show ?thesis
    by (intro multi_keep [OF core ch(1-4) closed refs rr roles_upd(2) [OF C(3) live p(2) refl p(1)]])
      (use tr y in simp_all)
qed

lemma ge_yield:
  assumes core: "multi_core gen lim c (s, h)" and pc: "mpc s 1 = GeYield n"
  shows "multi_safe gen lim c h 1 s (producer_step gen s)"
proof -
  note C = multi_coreD [OF core] and F = producer_facts [OF core]
  have live: "mpc s 1 \<noteq> Unmade" and o: "place (mchan s) 1 = Outside" using F(2) pc by simp_all
  have k: "length (accepted h) = n" "true_pushes 1 h = n" using F(9) pc by simp_all
  show ?thesis
  proof (cases "gen n")
    case None
    have p: "place (mchan s) = (place (mchan s))(1 := Outside)" using o by (simp add: fun_upd_idem)
    have c0: "chan_state 2 (c + 2) (mchan s) (h @ [])" using C(1) by simp
    have "multi_core gen lim c (s\<lparr>mchan := mchan s, sender_refs := sender_refs s, mpc := (mpc s)(1 := GeLeave)\<rparr>, h @ [])"
      by (rule producer_keep [OF core live _ _ c0 p]) (use pc F k None in simp_all)
    then show ?thesis using pc None by (simp add: producer_step_def goes_to_def multi_obs_def)
  next
    case (Some v)
    define tr where "tr = buffered_obs (Push 1 v) (mchan s)"
    have op: "\<not> mSenderClosed (mchan s)" using holds_sender(1) [OF core, of 1] pc by simp
    have "1 < c + 2" by simp
    from state_push [OF C(1) this o op, of v] obtain ch where ch: "buffered_push 1 v (mchan s) = Next ch"
      "chan_state 2 (c + 2) ch (h @ tr)" "place ch = (place (mchan s))(1 := InPushCall)"
      "mSenderClosed ch = mSenderClosed (mchan s)" "mReceiverClosed ch = mReceiverClosed (mchan s)"
      unfolding tr_def by blast
    have tr: "accepted tr = [] \<and> accepted_by 1 tr = 0 \<or> accepted tr = [v] \<and> accepted_by 1 tr = 1"
      "true_pushes 1 tr = 0" "\<And>j. popped_by j tr = []" "\<And>j. PopReturned j None \<notin> set tr"
      by (auto simp: tr_def)
    have "multi_core gen lim c (s\<lparr>mchan := ch, sender_refs := sender_refs s, mpc := (mpc s)(1 := GeInPush n)\<rparr>, h @ tr)"
      by (rule producer_keep [OF core live _ _ ch(2,3)]) (use pc F k Some tr ch in auto)
    then show ?thesis using pc Some ch(1)
      by (simp add: producer_step_def on_mchan_def goes_to_def multi_obs_def tr_def del: buffered_obs.simps)
  qed
qed

lemma ge_in_push:
  assumes core: "multi_core gen lim c (s, h)" and pc: "mpc s 1 = GeInPush n"
  shows "multi_safe gen lim c h 1 s (producer_step gen s)"
proof (cases "thread_step 1 (mchan s) = Blocked")
  case True
  with pc show ?thesis by (simp add: producer_step_def on_mchan_def)
next
  case goes: False
  note C = multi_coreD [OF core] and F = producer_facts [OF core]
  have o: "place (mchan s) 1 = InPushCall" and live: "mpc s 1 \<noteq> Unmade" using F(2) pc by simp_all
  have k: "gen n \<noteq> None" "length (accepted h) = n \<or> length (accepted h) = Suc n" "true_pushes 1 h = n"
    using F(9) pc by simp_all
  define b where "b = push_result 1 (mchan s)"
  define tr :: "'a traffic list" where "tr = (case b of None \<Rightarrow> [] | Some b \<Rightarrow> [PushReturned 1 b])"
  have go: "buffered_obs (Go 1) (mchan s) = tr" using obs_go_push [OF o] by (simp add: tr_def b_def)
  obtain ch where ch: "thread_step 1 (mchan s) = Next ch" "chan_state 2 (c + 2) ch (h @ tr)"
    "place ch = (place (mchan s))(1 := if b = None then InPushCall else Outside)"
    "mSenderClosed ch = mSenderClosed (mchan s)" "mReceiverClosed ch = mReceiverClosed (mchan s)"
    using state_go [OF C(1) goes] o go by (auto simp: b_def simp del: buffered_obs.simps)
  define p where "p = (case b of None \<Rightarrow> GeInPush n | Some b \<Rightarrow> if b then GeYield (Suc n) else GeLeave)"
  have p: "producer_pc p" "p \<noteq> Unmade" "has_sender p" "mplace p (if b = None then InPushCall else Outside)"
    by (auto simp: p_def split: option.split)
  have tr: "accepted tr = []" "accepted_by 1 tr = 0" "\<And>j. popped_by j tr = []" "\<And>j. PopReturned j None \<notin> set tr"
    "true_pushes 1 tr = (if b = Some True then 1 else 0)"
    by (auto simp: tr_def split: option.split)
  have logs: "logs 2 ch (h @ tr)" "Resized \<notin> set (h @ tr)" using ch(2) by (simp_all add: chan_state_def)
  have "true_pushes 1 (h @ tr) \<le> accepted_by 1 (h @ tr)" by (rule logs_pushes [OF logs(1)])
  then have "b = Some True \<Longrightarrow> length (accepted h) = Suc n" using k F(8) tr by simp
  moreover have "mReceiverClosed ch" if "b = Some False"
    using logs that unfolding logs_def sized_log_def by (auto simp: tr_def)
  ultimately have y: "yield_at gen p (length (accepted (h @ tr))) (true_pushes 1 (h @ tr)) (mReceiverClosed ch)"
    using k tr(1,5) by (auto simp: p_def split: option.split)
  have "multi_core gen lim c (s\<lparr>mchan := ch, sender_refs := sender_refs s, mpc := (mpc s)(1 := p)\<rparr>, h @ tr)"
    by (rule producer_keep [OF core live p(1,2) ch(2,3) p(4) _ _ _ _ _ _ _ y]) (use pc F ch tr p(3) in simp_all)
  moreover have "producer_step gen s = Next (s\<lparr>mchan := ch, mpc := (mpc s)(1 := p)\<rparr>)"
    using pc ch(1) fun_upd_idem [where f = "mpc s", OF pc]
    by (simp add: producer_step_def on_mchan_def goes_to_def p_def b_def split: option.split)
  moreover have "multi_obs gen 1 s = tr" using pc go by (simp add: multi_obs_def del: buffered_obs.simps)
  ultimately show ?thesis by simp
qed

lemma ge_leave:
  assumes core: "multi_core gen lim c (s, h)" and pc: "mpc s 1 = GeLeave"
  shows "multi_safe gen lim c h 1 s (producer_step gen s)"
proof -
  note F = producer_facts [OF core]
  have live: "mpc s 1 \<noteq> Unmade" and o: "place (mchan s) 1 = Outside" using F(2) pc by simp_all
  have hs: "has_sender (mpc s 1)" using pc by simp
  have "1 < c + 2" by simp
  from drop_sender_spec [OF core this hs o] obtain ch q where
    d: "drop_sender 1 s = Next (s\<lparr>mchan := ch, sender_refs := sender_refs s - 1\<rparr>)"
    and ch: "chan_state 2 (c + 2) ch (h @ [])" "place ch = (place (mchan s))(1 := q)" "q = Outside \<or> q = Notifying"
      "mSenderClosed ch \<longleftrightarrow> sender_refs s - 1 = 0" "mReceiverClosed ch = mReceiverClosed (mchan s)"
    by auto
  have "multi_core gen lim c (s\<lparr>mchan := ch, sender_refs := sender_refs s - 1, mpc := (mpc s)(1 := GeClosing)\<rparr>, h @ [])"
    by (rule producer_keep [OF core live _ _ ch(1,2)])
      (use pc F ch holds_sender(2) [OF core hs] in auto)
  then show ?thesis using pc d by (simp add: producer_step_def goes_to_def multi_obs_def)
qed

lemma ge_closing:
  assumes core: "multi_core gen lim c (s, h)" and pc: "mpc s 1 = GeClosing"
  shows "multi_safe gen lim c h 1 s (producer_step gen s)"
proof -
  note C = multi_coreD [OF core] and F = producer_facts [OF core]
  have live: "mpc s 1 \<noteq> Unmade" and o: "place (mchan s) 1 = Outside \<or> place (mchan s) 1 = Notifying"
    using F(2) pc by simp_all
  note D = delivering_spec [OF core o]
  show ?thesis
  proof (cases "notifies 1 (mchan s)")
    case True
    with D obtain ch q where d: "thread_step 1 (mchan s) = Next ch"
      and ch: "chan_state 2 (c + 2) ch (h @ [])" "place ch = (place (mchan s))(1 := q)" "q = Outside \<or> q = Notifying"
        "mSenderClosed ch = mSenderClosed (mchan s)" "mReceiverClosed ch = mReceiverClosed (mchan s)"
      by auto
    have "multi_core gen lim c (s\<lparr>mchan := ch, sender_refs := sender_refs s, mpc := (mpc s)(1 := GeClosing)\<rparr>, h @ [])"
      by (rule producer_keep [OF core live _ _ ch(1,2)]) (use pc F ch in auto)
    then show ?thesis using pc d True fun_upd_idem [where f = "mpc s", OF pc]
      by (simp add: producer_step_def deliver_then_def on_mchan_def multi_obs_def)
  next
    case False
    with D have p: "place (mchan s) = (place (mchan s))(1 := Outside)" by (simp add: fun_upd_idem)
    have c0: "chan_state 2 (c + 2) (mchan s) (h @ [])" using C(1) by simp
    have "multi_core gen lim c (s\<lparr>mchan := mchan s, sender_refs := sender_refs s, mpc := (mpc s)(1 := GeGone)\<rparr>, h @ [])"
      by (rule producer_keep [OF core live _ _ c0 p]) (use pc F in auto)
    then show ?thesis using pc False
      by (simp add: producer_step_def deliver_then_def goes_to_def multi_obs_def)
  qed
qed

lemma producer_core:
  assumes "multi_core gen lim c (s, h)"
  shows "multi_safe gen lim c h 1 s (producer_step gen s)"
proof (cases "mpc s 1")
  case (GeYield n)
  with assms show ?thesis by (rule ge_yield)
next
  case (GeInPush n)
  with assms show ?thesis by (rule ge_in_push)
next
  case GeLeave
  with assms show ?thesis by (rule ge_leave)
next
  case GeClosing
  with assms show ?thesis by (rule ge_closing)
qed (simp_all add: producer_step_def)

section \<open>Steps of the caller\<close>

lemma owner_facts:
  assumes "multi_core gen lim c (s, h)"
  shows "owner_pc (mpc s 0)" "mpc s 0 \<noteq> Unmade" "mplace (mpc s 0) (place (mchan s) 0)" "seen s 0 = []" "popped_by 0 h = []"
    "mReceiverClosed (mchan s) \<longleftrightarrow> recv_refs s = 0" "mSenderClosed (mchan s) \<longleftrightarrow> sender_refs s = 0"
    "2 \<le> made_before c (mpc s 0)" "made_before c (mpc s 0) \<le> c + 2"
proof -
  note C = multi_coreD [OF assms]
  show op: "owner_pc (mpc s 0)" using C(3) by (simp add: roles_ok_def)
  then show "mpc s 0 \<noteq> Unmade" by (rule consumer_not(2))
  show "mplace (mpc s 0) (place (mchan s) 0)" by (rule C(2))
  have "seen s 0 = popped_by 0 h" "take_at (lim 0) (mpc s 0) (length (seen s 0)) (PopReturned 0 None \<in> set h)"
    using C(6) unfolding takes_ok_def by blast+
  with op show "seen s 0 = []" "popped_by 0 h = []" by (cases "mpc s 0"; simp)+
  show "mReceiverClosed (mchan s) \<longleftrightarrow> recv_refs s = 0" "mSenderClosed (mchan s) \<longleftrightarrow> sender_refs s = 0"
    using C(4) by (simp_all add: mrefs_ok_def)
  show "2 \<le> made_before c (mpc s 0)" "made_before c (mpc s 0) \<le> c + 2" using C(3) by (simp_all add: roles_ok_def)
qed

text \<open>A step of the caller that makes nobody and sends nothing.\<close>

lemma owner_keep:
  assumes core: "multi_core gen lim c (s, h)"
    and p: "owner_pc p" "made_before c p = made_before c (mpc s 0)" "p \<noteq> OwMake" "mpc s 0 \<noteq> OwMake"
    and ch: "chan_state 2 (c + 2) ch h" "place ch = (place (mchan s))(0 := q)" "mplace p q"
      "mSenderClosed ch \<longleftrightarrow> sr = 0" "mReceiverClosed ch \<longleftrightarrow> rr = 0"
    and refs: "sr + of_bool (has_sender (mpc s 0)) = sender_refs s + of_bool (has_sender p)"
      "rr + of_bool (has_receiver (mpc s 0)) = recv_refs s + of_bool (has_receiver p)"
    and mono: "mReceiverClosed (mchan s) \<Longrightarrow> mReceiverClosed ch"
  shows "multi_core gen lim c (s\<lparr>mchan := ch, sender_refs := sr, recv_refs := rr, mpc := (mpc s)(0 := p)\<rparr>, h)"
    (is "multi_core gen lim c (?t, _)")
proof -
  note C = multi_coreD [OF core] and F = owner_facts [OF core]
  have "yields_ok gen ?t (h @ [])" by (rule yields_other [OF C(5), of 0 _ p]) (use mono in simp_all)
  moreover have "take_at (lim 0) p (length (seen s 0 @ popped_by 0 [])) (PopReturned 0 None \<in> set (h @ []))"
    using p(1) F(4) by (cases p) simp_all
  moreover have "?t = s\<lparr>mchan := ch, sender_refs := sr, recv_refs := rr, mpc := (mpc s)(0 := p),
      seen := (seen s)(0 := seen s 0 @ popped_by 0 [])\<rparr>"
    by simp
  moreover have ch0: "chan_state 2 (c + 2) ch (h @ [])" using ch(1) by simp
  moreover have "roles_ok c ((mpc s)(0 := p))"
    by (rule roles_upd(1) [OF C(3) F(2) consumer_not(2) [OF p(1)] refl p])
  ultimately have "multi_core gen lim c (?t, h @ [])"
    by (intro multi_keep [OF core ch0 ch(2-5) refs]) simp_all
  then show ?thesis by simp
qed

text \<open>A step of the caller that makes thread \<open>i\<close>, with copies of the sender or the receiver.\<close>

lemma owner_makes:
  assumes core: "multi_core gen lim c (s, h)" and i: "i \<noteq> 0" "mpc s i = Unmade" "p' \<noteq> Unmade"
    and p: "owner_pc p" "mplace p Outside" "mplace p' Outside" "place (mchan s) 0 = Outside"
    and roles: "roles_ok c ((mpc s)(i := p', 0 := p))"
    and refs: "sr = sender_refs s + of_bool (has_sender p')" "rr = recv_refs s + of_bool (has_receiver p')"
      "has_sender p = has_sender (mpc s 0)" "has_receiver p = has_receiver (mpc s 0)"
    and open': "\<not> mReceiverClosed (mchan s)" "mSenderClosed (mchan s) \<longleftrightarrow> sr = 0"
    and logs: "yields_ok gen (s\<lparr>mpc := (mpc s)(i := p', 0 := p)\<rparr>) h" "take_at (lim i) p' 0 False"
  shows "multi_core gen lim c (s\<lparr>sender_refs := sr, recv_refs := rr, mpc := (mpc s)(i := p', 0 := p)\<rparr>, h)"
    (is "multi_core gen lim c (?t, _)")
proof -
  note C = multi_coreD [OF core] and F = owner_facts [OF core]
  let ?f = "(mpc s)(i := p')"
  have f0: "?f 0 = mpc s 0" using i(1) by simp
  have finite: "finite {j. P (?f j)}" if "\<not> P Unmade" for P
    by (rule finite_subset [of _ "insert i {j. P (mpc s j)}"]) (use holders_finite [of c _ P, OF C(3) that] in auto)
  have count: "n + of_bool (P p') = card {j. P ((?f(0 := p)) j)}"
    if "\<not> P Unmade" "P p = P (mpc s 0)" "n = card {j. P (mpc s j)}" for P n
  proof (rule holders_upd)
    show "finite {j. P (?f j)}" using finite [where P = P] that(1) .
    have "n + of_bool (P p') = card {j. P (?f j)}"
      by (rule holders_upd) (use that i(2) holders_finite [of c _ P, OF C(3) that(1)] in simp_all)
    then show "n + of_bool (P p') + of_bool (P (?f 0)) = card {j. P (?f j)} + of_bool (P p)"
      unfolding f0 that(2) by simp
  qed
  have "mrefs_ok ?t"
    using C(4) count [of has_sender "sender_refs s"] count [of has_receiver "recv_refs s"] refs open'
    by (simp add: mrefs_ok_def)
  moreover have "mplace (mpc ?t j) (place (mchan ?t) j)" for j
  proof -
    have "mplace Unmade (place (mchan s) i)" using C(2) [of i] i(2) by simp
    with C(2) [of j] p i(1) show ?thesis by auto
  qed
  moreover have "takes_ok lim ?t h"
    unfolding takes_ok_def
  proof (intro allI)
    fix j
    have "seen s j = popped_by j h" "take_at (lim j) (mpc s j) (length (seen s j)) (PopReturned j None \<in> set h)"
      using C(6) unfolding takes_ok_def by blast+
    then show "seen ?t j = popped_by j h \<and> take_at (lim j) (mpc ?t j) (length (seen ?t j)) (PopReturned j None \<in> set h)"
      using i logs(2) p(1) F(4) by (cases "j = i"; cases "j = 0"; cases p) (auto elim: mono_take)
  qed
  moreover have "yields_ok gen ?t h" using logs(1) by (simp add: yields_ok_def)
  ultimately show ?thesis using C(1) roles by (simp add: multi_core_def)
qed

lemma ow_make:
  assumes core: "multi_core gen lim c (s, h)" and pc: "mpc s 0 = OwMake"
  shows "multi_safe gen lim c h 0 s (owner_step c s)"
proof -
  note C = multi_coreD [OF core] and F = owner_facts [OF core] and P = producer_facts [OF core]
  have u: "mpc s 1 = Unmade" using C(3) pc by (simp add: roles_ok_def)
  have "multi_core gen lim c (s\<lparr>sender_refs := sender_refs s + 1, recv_refs := recv_refs s,
      mpc := (mpc s)(1 := GeYield 0, 0 := OwDropSender)\<rparr>, h)"
  proof (rule owner_makes [OF core _ u])
    show "roles_ok c ((mpc s)(1 := GeYield 0, 0 := OwDropSender))" using C(3) pc by (simp add: roles_ok_def)
    show "yields_ok gen (s\<lparr>mpc := (mpc s)(1 := GeYield 0, 0 := OwDropSender)\<rparr>) h"
      using C(5) u by (auto simp: yields_ok_def)
    show "\<not> mReceiverClosed (mchan s)" using holds_receiver(1) [OF core, of 0] pc by simp
    show "mSenderClosed (mchan s) \<longleftrightarrow> sender_refs s + 1 = 0" using holds_sender(1) [OF core, of 0] pc by simp
  qed (use pc F(3) in simp_all)
  then show ?thesis using pc by (simp add: owner_step_def goes_to_def multi_obs_def)
qed

lemma ow_spawn:
  assumes core: "multi_core gen lim c (s, h)" and pc: "mpc s 0 = OwSpawn k"
  shows "multi_safe gen lim c h 0 s (owner_step c s)"
proof (cases "k < c + 2")
  case True
  note C = multi_coreD [OF core] and F = owner_facts [OF core]
  have k: "2 \<le> k" using F(8) pc by simp
  have u: "mpc s k = Unmade" using C(3) pc k by (simp add: roles_ok_def)
  have k1: "k \<noteq> 1" "k \<noteq> 0" using k by simp_all
  have "multi_core gen lim c (s\<lparr>sender_refs := sender_refs s, recv_refs := recv_refs s + 1,
      mpc := (mpc s)(k := CoAtPop, 0 := OwSpawn (Suc k))\<rparr>, h)"
  proof (rule owner_makes [OF core k1(2) u])
    show "roles_ok c ((mpc s)(k := CoAtPop, 0 := OwSpawn (Suc k)))"
      using C(3) pc k True by (auto simp: roles_ok_def)
    show "yields_ok gen (s\<lparr>mpc := (mpc s)(k := CoAtPop, 0 := OwSpawn (Suc k))\<rparr>) h"
      using C(5) k1 by (simp add: yields_ok_def)
    show "\<not> mReceiverClosed (mchan s)" using holds_receiver(1) [OF core, of 0] pc by simp
    show "mSenderClosed (mchan s) \<longleftrightarrow> sender_refs s = 0" by (rule F(7))
  qed (use pc F(3) in simp_all)
  then show ?thesis using pc True by (simp add: owner_step_def goes_to_def multi_obs_def)
next
  case False
  note C = multi_coreD [OF core] and F = owner_facts [OF core]
  have p: "place (mchan s) = (place (mchan s))(0 := Outside)" using F(3) pc by (simp add: fun_upd_idem)
  have "multi_core gen lim c (s\<lparr>mchan := mchan s, sender_refs := sender_refs s, recv_refs := recv_refs s,
      mpc := (mpc s)(0 := OwDropReceiver)\<rparr>, h)"
    by (rule owner_keep [OF core _ _ _ _ C(1) p]) (use pc F False in simp_all)
  then show ?thesis using pc False by (simp add: owner_step_def goes_to_def multi_obs_def)
qed

lemma ow_drop_sender:
  assumes core: "multi_core gen lim c (s, h)" and pc: "mpc s 0 = OwDropSender"
  shows "multi_safe gen lim c h 0 s (owner_step c s)"
proof -
  note F = owner_facts [OF core]
  have o: "place (mchan s) 0 = Outside" using F(3) pc by simp
  have hs: "has_sender (mpc s 0)" using pc by simp
  have "0 < c + 2" by simp
  from drop_sender_spec [OF core this hs o] obtain ch q where
    d: "drop_sender 0 s = Next (s\<lparr>mchan := ch, sender_refs := sender_refs s - 1\<rparr>)"
    and ch: "chan_state 2 (c + 2) ch h" "place ch = (place (mchan s))(0 := q)" "q = Outside \<or> q = Notifying"
      "mSenderClosed ch \<longleftrightarrow> sender_refs s - 1 = 0" "mReceiverClosed ch = mReceiverClosed (mchan s)"
    by auto
  have "multi_core gen lim c (s\<lparr>mchan := ch, sender_refs := sender_refs s - 1, recv_refs := recv_refs s,
      mpc := (mpc s)(0 := OwClosingSender)\<rparr>, h)"
    by (rule owner_keep [OF core _ _ _ _ ch(1,2)]) (use pc F ch holds_sender(2) [OF core hs] in auto)
  moreover have "owner_step c s = Next (s\<lparr>mchan := ch, sender_refs := sender_refs s - 1, recv_refs := recv_refs s,
      mpc := (mpc s)(0 := OwClosingSender)\<rparr>)"
    using pc d by (cases s) (simp add: owner_step_def goes_to_def)
  ultimately show ?thesis using pc by (simp add: multi_obs_def)
qed

lemma ow_drop_receiver:
  assumes core: "multi_core gen lim c (s, h)" and pc: "mpc s 0 = OwDropReceiver"
  shows "multi_safe gen lim c h 0 s (owner_step c s)"
proof -
  note F = owner_facts [OF core]
  have o: "place (mchan s) 0 = Outside" using F(3) pc by simp
  have hr: "has_receiver (mpc s 0)" using pc by simp
  have "0 < c + 2" by simp
  from drop_receiver_spec [OF core this hr o] obtain ch q where
    d: "drop_receiver 0 s = Next (s\<lparr>mchan := ch, recv_refs := recv_refs s - 1\<rparr>)"
    and ch: "chan_state 2 (c + 2) ch h" "place ch = (place (mchan s))(0 := q)" "q = Outside \<or> q = Notifying"
      "mReceiverClosed ch \<longleftrightarrow> recv_refs s - 1 = 0" "mSenderClosed ch = mSenderClosed (mchan s)"
    by auto
  have "multi_core gen lim c (s\<lparr>mchan := ch, sender_refs := sender_refs s, recv_refs := recv_refs s - 1,
      mpc := (mpc s)(0 := OwClosingReceiver)\<rparr>, h)"
    by (rule owner_keep [OF core _ _ _ _ ch(1,2)]) (use pc F ch holds_receiver(1,2) [OF core hr] in auto)
  moreover have "owner_step c s = Next (s\<lparr>mchan := ch, sender_refs := sender_refs s, recv_refs := recv_refs s - 1,
      mpc := (mpc s)(0 := OwClosingReceiver)\<rparr>)"
    using pc d by (cases s) (simp add: owner_step_def goes_to_def)
  ultimately show ?thesis using pc by (simp add: multi_obs_def)
qed

text \<open>Delivering notices, then going on to \<open>p\<close>.\<close>

lemma ow_delivers:
  assumes core: "multi_core gen lim c (s, h)" and pc: "mpc s 0 = OwClosingSender \<or> mpc s 0 = OwClosingReceiver"
    and p: "owner_pc p" "made_before c p = made_before c (mpc s 0)" "p \<noteq> OwMake" "mplace p Outside"
      "has_sender p = has_sender (mpc s 0)" "has_receiver p = has_receiver (mpc s 0)"
  shows "safely (\<lambda>t. multi_core gen lim c (t, h)) (deliver_then 0 p s)"
proof -
  note C = multi_coreD [OF core] and F = owner_facts [OF core]
  have o: "place (mchan s) 0 = Outside \<or> place (mchan s) 0 = Notifying" using F(3) pc by auto
  have nm: "mpc s 0 \<noteq> OwMake" using pc by auto
  note D = delivering_spec [OF core o]
  show ?thesis
  proof (cases "notifies 0 (mchan s)")
    case True
    with D obtain ch q where d: "thread_step 0 (mchan s) = Next ch"
      and ch: "chan_state 2 (c + 2) ch h" "place ch = (place (mchan s))(0 := q)" "q = Outside \<or> q = Notifying"
        "mSenderClosed ch = mSenderClosed (mchan s)" "mReceiverClosed ch = mReceiverClosed (mchan s)"
      by auto
    have "multi_core gen lim c (s\<lparr>mchan := ch, sender_refs := sender_refs s, recv_refs := recv_refs s,
        mpc := (mpc s)(0 := mpc s 0)\<rparr>, h)"
      by (rule owner_keep [OF core F(1) refl nm nm ch(1,2)]) (use pc F ch in auto)
    moreover have "s\<lparr>mchan := ch, sender_refs := sender_refs s, recv_refs := recv_refs s, mpc := (mpc s)(0 := mpc s 0)\<rparr> =
        s\<lparr>mchan := ch\<rparr>" by (cases s) simp
    ultimately show ?thesis using d True by (simp add: deliver_then_def on_mchan_def)
  next
    case False
    with D have q: "place (mchan s) = (place (mchan s))(0 := Outside)" by (simp add: fun_upd_idem)
    have "multi_core gen lim c (s\<lparr>mchan := mchan s, sender_refs := sender_refs s, recv_refs := recv_refs s,
        mpc := (mpc s)(0 := p)\<rparr>, h)"
      by (rule owner_keep [OF core p(1-3) nm C(1) q]) (use p F in auto)
    then show ?thesis using False by (simp add: deliver_then_def goes_to_def)
  qed
qed

lemma owner_core:
  assumes core: "multi_core gen lim c (s, h)"
  shows "multi_safe gen lim c h 0 s (owner_step c s)"
proof (cases "mpc s 0")
  case OwMake
  with core show ?thesis by (rule ow_make)
next
  case OwDropSender
  with core show ?thesis by (rule ow_drop_sender)
next
  case OwClosingSender
  then have "safely (\<lambda>t. multi_core gen lim c (t, h)) (deliver_then 0 (OwSpawn 2) s)"
    by (intro ow_delivers [OF core]) simp_all
  with OwClosingSender show ?thesis by (simp add: owner_step_def multi_obs_def)
next
  case (OwSpawn k)
  with core show ?thesis by (rule ow_spawn)
next
  case OwDropReceiver
  with core show ?thesis by (rule ow_drop_receiver)
next
  case OwClosingReceiver
  then have "safely (\<lambda>t. multi_core gen lim c (t, h)) (deliver_then 0 OwDone s)"
    by (intro ow_delivers [OF core]) simp_all
  with OwClosingReceiver show ?thesis by (simp add: owner_step_def multi_obs_def)
qed (simp_all add: owner_step_def)

lemma multi_step_core:
  assumes "multi_core gen lim c (s, h)"
  shows "multi_safe gen lim c h i s (multi_step gen lim c i s)"
  using owner_core [OF assms] producer_core [OF assms] consumer_core [OF assms, of i]
  by (cases "i = 0"; cases "i = 1") (simp_all add: multi_step_def)

section \<open>What the consumers see\<close>

text \<open>The threads a value can be on its way to are consumers in a \<^verbatim>\<open>pop\<close>.\<close>

lemma way_consumer:
  assumes core: "multi_core gen lim c (s, h)" and w: "on_its_way i (mchan s) \<noteq> []"
  shows "mpc s i = CoInPop" "2 \<le> i" "i < c + 2" "length (on_its_way i (mchan s)) = 1"
proof -
  note C = multi_coreD [OF core]
  have b: "buffered_inv (c + 2) (mchan s)" using C(1) by (simp add: chan_state_def)
  have r: "apc (receivers (mchan s)) i \<noteq> Out" using w by (auto simp: on_its_way_def coming_Out)
  then have "apc (senders (mchan s)) i = Out" using buffered_invD(8) [OF b, of i] by blast
  with r have "place (mchan s) i = InPopCall" by (simp add: place_def)
  with C(2) [of i] have "mplace (mpc s i) InPopCall" by simp
  then show p: "mpc s i = CoInPop" by (rule mplace_in(1))
  show "i < c + 2" by (rule roles_bound [OF C(3)]) (simp add: p)
  show "2 \<le> i"
  proof (rule ccontr)
    assume "\<not> 2 \<le> i"
    then have "i = 0 \<or> i = 1" by auto
    with p C(3) show False by (auto simp: roles_ok_def)
  qed
  show "length (on_its_way i (mchan s)) = 1" using w by (auto simp: on_its_way_def split: option.splits)
qed

lemma seen_popped: "multi_core gen lim c (s, h) \<Longrightarrow> seen s i = popped_by i h"
  using multi_coreD(6) unfolding takes_ok_def by blast

lemma nothing_seen:
  assumes core: "multi_core gen lim c (s, h)" and i: "i < 2 \<or> c + 2 \<le> i"
  shows "seen s i = []" "on_its_way i (mchan s) = []"
proof -
  show "on_its_way i (mchan s) = []" using way_consumer(2,3) [OF core, of i] i by force
  have "take_at (lim i) (mpc s i) (length (seen s i)) (PopReturned i None \<in> set h)"
    using multi_coreD(6) [OF core] unfolding takes_ok_def by blast
  moreover have "mpc s i = Unmade" if "c + 2 \<le> i" using roles_bound [OF multi_coreD(3) [OF core], of i] that by auto
  moreover have "i = 0 \<or> i = 1" if "i < 2" using that by auto
  ultimately show "seen s i = []"
    using i owner_facts(4) [OF core] producer_facts(3) [OF core] by auto
qed

text \<open>Every accepted value was seen, is on its way to one consumer, or still in the channel.\<close>

lemma seen_accepted:
  assumes core: "multi_core gen lim c (s, h)"
  shows "mset (accepted h) = mset (concat (map (\<lambda>i. seen s i @ on_its_way i (mchan s)) [2..<c + 2])) +
    mset (mReadyData (mchan s))"
proof -
  let ?both = "\<lambda>i. seen s i @ on_its_way i (mchan s)"
  have f: "accepted h = assigned h @ mReadyData (mchan s)" "\<And>i. assigned_to i h = ?both i"
    using multi_coreD(1) [OF core] seen_popped [OF core] by (simp_all add: chan_state_def logs_def fifo_log_def)
  have z: "?both i = []" if "i < 2 \<or> c + 2 \<le> i" for i using nothing_seen [OF core that] by simp
  have "mset (assigned h) = mset (concat (map (\<lambda>i. assigned_to i h) [0..<c + 2]))"
    by (rule assigned_by_threads) (use z in \<open>simp add: f(2)\<close>)
  also have "[0..<c + 2] = 0 # 1 # [2..<c + 2]"
    by (simp add: upt_conv_Cons numeral_2_eq_2 del: upt_Suc)
  also have "concat (map (\<lambda>i. assigned_to i h) (0 # 1 # [2..<c + 2])) = concat (map ?both [2..<c + 2])"
    using z [of 0] z [of 1] by (simp add: f(2))
  finally show ?thesis by (simp add: f(1))
qed

lemma assigned_subseq: "subseq (assigned_to i h) (assigned h)"
  by (induction i h rule: assigned_to.induct) auto

lemma seen_subseq:
  assumes core: "multi_core gen lim c (s, h)"
  shows "subseq (seen s i) (accepted h)"
proof -
  have f: "accepted h = assigned h @ mReadyData (mchan s)" "assigned_to i h = seen s i @ on_its_way i (mchan s)"
    using multi_coreD(1) [OF core] seen_popped [OF core] by (simp_all add: chan_state_def logs_def fifo_log_def)
  have "subseq (seen s i) (assigned_to i h)" unfolding f(2) by (rule list_emb_prefix) simp
  also have "subseq \<dots> (assigned h)" by (rule assigned_subseq)
  also have "subseq \<dots> (accepted h)" unfolding f(1) by (rule list_emb_prefix) simp
  finally show ?thesis .
qed

text \<open>How many values can have been accepted while somebody receives.\<close>

lemma accepted_bound:
  assumes core: "multi_core gen lim c (s, h)" and op: "\<not> mReceiverClosed (mchan s)"
  shows "length (accepted h) \<le> most_accepted lim c"
proof -
  note C = multi_coreD [OF core]
  have b: "buffered_inv (c + 2) (mchan s)" and l: "sized_log 2 (mchan s) h" "Resized \<notin> set h"
    using C(1) by (simp_all add: chan_state_def logs_def)
  have room: "room_inv (senders (mchan s))" using buffered_invD(1) [OF b] by (rule rooms_invD)
  have "set (mWaitingSender (mchan s)) \<subseteq> {1}"
  proof
    fix i assume "i \<in> set (mWaitingSender (mchan s))"
    then have "apc (senders (mchan s)) i \<noteq> Out" by (rule waiting_inside [OF room])
    then have "place (mchan s) i = InPushCall" by (simp add: place_def)
    with C(2) [of i] mplace_in(2) [of "mpc s i"] obtain n where p: "mpc s i = GeInPush n" by auto
    show "i \<in> {1}"
    proof (rule ccontr)
      assume "i \<notin> {1}"
      then have "i = 0 \<or> 2 \<le> i" by auto
      with p C(3) show False by (auto simp: roles_ok_def)
    qed
  qed
  moreover have "distinct (mWaitingSender (mchan s))" using room_invD(1) [OF room] by (simp add: owed_def)
  ultimately have "length (mWaitingSender (mchan s)) \<le> 1"
    using card_mono [of "{1}" "set (mWaitingSender (mchan s))"] by (simp add: distinct_card)
  then have ready: "length (mReadyData (mchan s)) \<le> 2" using l op by (auto simp: sized_log_def)
  have each: "length (seen s i @ on_its_way i (mchan s)) \<le> Suc (lim i)" for i
  proof -
    have "take_at (lim i) (mpc s i) (length (seen s i)) (PopReturned i None \<in> set h)"
      using C(6) unfolding takes_ok_def by blast
    moreover have "on_its_way i (mchan s) = [] \<or> mpc s i = CoInPop \<and> length (on_its_way i (mchan s)) = 1"
      using way_consumer(1,4) [OF core, of i] by blast
    ultimately show ?thesis by (cases "mpc s i") auto
  qed
  have "length (accepted h) = size (mset (accepted h))" by simp
  also have "\<dots> = (\<Sum>i\<leftarrow>[2..<c + 2]. length (seen s i @ on_its_way i (mchan s))) + length (mReadyData (mchan s))"
    unfolding seen_accepted [OF core] by (simp add: length_concat comp_def)
  also have "(\<Sum>i\<leftarrow>[2..<c + 2]. length (seen s i @ on_its_way i (mchan s))) \<le> (\<Sum>i\<leftarrow>[2..<c + 2]. Suc (lim i))"
    by (rule sum_list_mono) (rule each)
  also have "(\<Sum>i\<leftarrow>[2..<c + 2]. Suc (lim i)) = (\<Sum>i = 2..<c + 2. Suc (lim i))"
    by (simp only: interv_sum_list_conv_sum_set_nat set_upt)
  finally show ?thesis using ready unfolding most_accepted_def by linarith
qed

text \<open>A value that is sent when nobody receives is not accepted.\<close>

lemma rejected_push:
  assumes "buffered_inv n ch" "mReceiverClosed ch"
  shows "accepted (buffered_obs (Push i v) ch) = []"
proof -
  note I = buffered_invD [OF assms(1)]
  have "waiting (receivers ch) = []" using nobody_waits [OF I(2)] I(6) [OF assms(2)] by simp
  with assms(2) show ?thesis by simp
qed

lemma multi_accepts:
  assumes core: "multi_core gen lim c (s, h)" and st: "multi_step gen lim c i s = Next t"
    and closed: "mReceiverClosed (mchan t)"
  shows "accepted (multi_obs gen i s) = []"
proof -
  note C = multi_coreD [OF core]
  have b: "buffered_inv (c + 2) (mchan s)" using C(1) by (simp add: chan_state_def)
  show ?thesis
  proof (cases "mpc s i")
    case (GeYield n)
    have "i \<noteq> 0"
    proof
      assume "i = 0"
      with owner_facts(1) [OF core] GeYield show False by simp
    qed
    moreover have "\<not> 2 \<le> i" using GeYield consumer_facts(1) [OF core, of i] by auto
    ultimately have i: "i = 1" by simp
    show ?thesis
    proof (cases "gen n")
      case (Some v)
      have pc: "mpc s 1 = GeYield n" using GeYield i by simp
      have o: "place (mchan s) 1 = Outside" using C(2) [of 1] pc by simp
      have op: "\<not> mSenderClosed (mchan s)" using holds_sender(1) [OF core, of 1] pc by simp
      have "1 < c + 2" by simp
      from state_push [OF C(1) this o op, of v] obtain ch where
        ch: "buffered_push 1 v (mchan s) = Next ch" "mReceiverClosed ch = mReceiverClosed (mchan s)"
        by blast
      have "mchan t = ch" using st i pc Some ch(1)
        by (simp add: multi_step_def producer_step_def on_mchan_def goes_to_def)
          (metis (no_types, lifting) multi.select_convs(1) multi.surjective multi.update_convs)
      with closed ch(2) rejected_push [OF b, of i v] Some GeYield show ?thesis
        by (simp add: multi_obs_def del: buffered_obs.simps)
    qed (use GeYield in \<open>simp add: multi_obs_def\<close>)
  qed (auto simp: multi_obs_def split: list.split option.split)
qed

lemma multi_step_inv:
  assumes "multi_inv gen lim c (s, h)"
  shows "safely (\<lambda>t. multi_inv gen lim c (t, h @ multi_obs gen i s)) (multi_step gen lim c i s)"
proof -
  have core: "multi_core gen lim c (s, h)" and b: "length (accepted h) \<le> most_accepted lim c"
    using assms by (simp_all add: multi_inv_def)
  note S = multi_step_core [OF core, of i]
  show ?thesis
  proof (cases "multi_step gen lim c i s")
    case (Next t)
    with S have t: "multi_core gen lim c (t, h @ multi_obs gen i s)" by simp
    have "length (accepted (h @ multi_obs gen i s)) \<le> most_accepted lim c"
    proof (cases "mReceiverClosed (mchan t)")
      case True
      with multi_accepts [OF core Next] b show ?thesis by simp
    next
      case False
      with t show ?thesis by (rule accepted_bound)
    qed
    with t Next show ?thesis by (simp add: multi_inv_def)
  qed (use S in simp_all)
qed

section \<open>Progress\<close>

fun multi_ended :: "multi_pc \<Rightarrow> bool" where
  "multi_ended OwDone = True"
| "multi_ended GeGone = True"
| "multi_ended CoGone = True"
| "multi_ended p = False"

definition all_ended :: "nat \<Rightarrow> 'a multi \<Rightarrow> bool" where
  "all_ended c s \<longleftrightarrow> list_all (\<lambda>i. multi_ended (mpc s i)) [0..<c + 2]"

lemma all_ended_iff: "all_ended c s \<longleftrightarrow> (\<forall>i < c + 2. multi_ended (mpc s i))"
  by (auto simp: all_ended_def list_all_iff simp del: upt_Suc)

lemma on_mchan_Blocked: "on_mchan f s = Blocked \<longleftrightarrow> f (mchan s) = Blocked"
  by (simp add: on_mchan_def bind_outcome_Blocked)

lemma drop_not_blocked: "drop_sender i s \<noteq> Blocked" "drop_receiver i s \<noteq> Blocked"
  by (simp_all add: drop_sender_def drop_receiver_def on_mchan_Blocked critical_not_blocked Let_def)

lemma deliver_not_blocked:
  assumes core: "multi_core gen lim c (s, h)" and "place (mchan s) i = Outside \<or> place (mchan s) i = Notifying"
  shows "deliver_then i p s \<noteq> Blocked"
  using delivering_spec [OF assms] by (auto simp: deliver_then_def on_mchan_Blocked split: if_splits)

fun can_wait :: "multi_pc \<Rightarrow> bool" where
  "can_wait Unmade = True"
| "can_wait (GeInPush n) = True"
| "can_wait CoInPop = True"
| "can_wait p = multi_ended p"

text \<open>A thread that cannot move is made later, parked in a call of the channel, or at its end.\<close>

lemma blocked_waits:
  assumes core: "multi_core gen lim c (s, h)" and b: "multi_step gen lim c i s = Blocked"
  shows "can_wait (mpc s i) \<and> rests i (mchan s)"
proof -
  note C = multi_coreD [OF core]
  have buf: "buffered_inv (c + 2) (mchan s)" using C(1) by (simp add: chan_state_def)
  have role: "(i = 0 \<longrightarrow> owner_pc (mpc s i)) \<and> (i = 1 \<longrightarrow> producer_pc (mpc s i)) \<and>
      (i \<noteq> 0 \<and> i \<noteq> 1 \<longrightarrow> consumer_pc (mpc s i))"
    using C(3) by (auto simp: roles_ok_def)
  have o: "mplace (mpc s i) (place (mchan s) i)" by (rule C(2))
  have d: "deliver_then i p s \<noteq> Blocked" if "mplace CoClosing (place (mchan s) i)" for p
    using deliver_not_blocked [OF core, of i p] that by simp
  have t: "rests i (mchan s)" if "thread_step i (mchan s) = Blocked"
    using thread_place [OF buf, of i] that by auto
  have out: "rests i (mchan s)" if "place (mchan s) i = Outside" using placeD [OF that] by (simp add: rests_def)
  show ?thesis
    using b role o d t out
    by (cases "mpc s i")
      (auto simp: multi_step_def owner_step_def producer_step_def consumer_step_def bind_outcome_Blocked
        on_mchan_Blocked critical_not_blocked drop_not_blocked split: if_splits option.splits)
qed

lemma multi_progress:
  assumes inv: "multi_inv gen lim c (s, h)" and nf: "\<not> all_ended c s"
  shows "\<exists>i t. multi_step gen lim c i s = Next t"
proof (rule ccontr)
  assume none: "\<nexists>i t. multi_step gen lim c i s = Next t"
  have core: "multi_core gen lim c (s, h)" using inv by (simp add: multi_inv_def)
  note C = multi_coreD [OF core]
  have "multi_step gen lim c i s = Blocked" for i
    using none multi_step_core [OF core, of i] by (cases "multi_step gen lim c i s") auto
  then have w: "can_wait (mpc s i)" "rests i (mchan s)" for i using blocked_waits [OF core] by blast+
  have b: "buffered_inv (c + 2) (mchan s)" using C(1) by (simp add: chan_state_def)
  have rest: "all_rest (c + 2) (mchan s)" using w(2) by (simp add: all_rest_def list_all_iff)
  note waits = all_rest_waits [OF b rest]
  have d0: "mpc s 0 = OwDone" using w(1) [of 0] owner_facts(1) [OF core] by (cases "mpc s 0") simp_all
  have made: "mpc s i \<noteq> Unmade" if "i < c + 2" for i
    using C(3) d0 that by (cases "i = 0"; cases "i = 1") (auto simp: roles_ok_def)
  have parked: "apc (receivers (mchan s)) i = AwParked" if "mpc s i = CoInPop" for i
  proof -
    have "place (mchan s) i = InPopCall" using C(2) [of i] that by simp
    with w(2) [of i] show ?thesis by (auto simp: rests_def place_def split: if_splits)
  qed
  have gone: "mpc s 1 = GeGone"
  proof (rule ccontr)
    assume "mpc s 1 \<noteq> GeGone"
    with w(1) [of 1] producer_facts(1) [OF core] made [of 1] obtain n where g: "mpc s 1 = GeInPush n"
      by (cases "mpc s 1") simp_all
    have "place (mchan s) 1 = InPushCall" using C(2) [of 1] g by simp
    with w(2) [of 1] have "apc (senders (mchan s)) 1 = AwParked" by (auto simp: rests_def place_def split: if_splits)
    then have ready: "mReadyData (mchan s) \<noteq> []" "\<not> mReceiverClosed (mchan s)" using waits by blast+
    from ready(2) C(4) have "card {i. has_receiver (mpc s i)} \<noteq> 0" by (auto simp: mrefs_ok_def)
    then obtain i where "has_receiver (mpc s i)" by (metis card.empty empty_Collect_eq)
    with w(1) [of i] have "mpc s i = CoInPop" by (cases "mpc s i") simp_all
    with parked waits ready(1) show False by blast
  qed
  have none_sends: "\<not> has_sender (mpc s i)" for i
  proof -
    have "i = 0 \<or> i = 1 \<or> 2 \<le> i" by auto
    then show ?thesis using d0 gone consumer_not(1) [OF consumer_facts(1) [OF core, of i]] by auto
  qed
  then have "{i. has_sender (mpc s i)} = {}" by simp
  then have closed: "mSenderClosed (mchan s)" using C(4) by (simp add: mrefs_ok_def)
  have "multi_ended (mpc s i)" if i: "i < c + 2" for i
  proof -
    have "mpc s i \<noteq> CoInPop" using parked [of i] waits closed by blast
    moreover have "mpc s i \<noteq> GeInPush n" for n using none_sends [of i] by auto
    ultimately show ?thesis using w(1) [of i] made [OF i] by (cases "mpc s i") auto
  qed
  with nf show False by (simp add: all_ended_iff)
qed

section \<open>Termination\<close>

text \<open>The steps a thread can still take, not counting those inside the channel; \<open>b\<close> bounds the values.\<close>

fun owner_units :: "nat \<Rightarrow> multi_pc \<Rightarrow> nat" where
  "owner_units c OwMake = c + 6"
| "owner_units c OwDropSender = c + 5"
| "owner_units c OwClosingSender = c + 4"
| "owner_units c (OwSpawn k) = (c + 2 - k) + 3"
| "owner_units c OwDropReceiver = 2"
| "owner_units c OwClosingReceiver = 1"
| "owner_units c p = 0"

fun producer_units :: "nat \<Rightarrow> multi_pc \<Rightarrow> nat" where
  "producer_units b Unmade = 2 * Suc b + 4"
| "producer_units b (GeYield n) = 2 * (Suc b - n) + 3"
| "producer_units b (GeInPush n) = 2 * (Suc b - n) + 2"
| "producer_units b GeLeave = 2"
| "producer_units b GeClosing = 1"
| "producer_units b p = 0"

fun consumer_units :: "nat \<Rightarrow> multi_pc \<Rightarrow> nat \<Rightarrow> nat" where
  "consumer_units l Unmade m = 2 * Suc l + 4"
| "consumer_units l CoAtPop m = 2 * (Suc l - m) + 3"
| "consumer_units l CoInPop m = 2 * (Suc l - m) + 2"
| "consumer_units l CoLeave m = 2"
| "consumer_units l CoClosing m = 1"
| "consumer_units l p m = 0"

definition thread_units :: "nat \<Rightarrow> nat \<Rightarrow> (nat \<Rightarrow> nat) \<Rightarrow> 'a multi \<Rightarrow> nat \<Rightarrow> nat" where
  "thread_units b c lim s i =
     (if i = 0 then owner_units c (mpc s i) else if i = 1 then producer_units b (mpc s i)
      else consumer_units (lim i) (mpc s i) (length (seen s i)))"

definition multi_units :: "(nat \<Rightarrow> nat) \<Rightarrow> nat \<Rightarrow> 'a multi \<Rightarrow> nat" where
  "multi_units lim c s = (\<Sum>i < c + 2. thread_units (most_accepted lim c) c lim s i)"

definition multi_left :: "(nat \<Rightarrow> nat) \<Rightarrow> nat \<Rightarrow> 'a multi \<Rightarrow> nat" where
  "multi_left lim c s = multi_units lim c s * (6 * (c + 2) + 1) + buffered_left (c + 2) (mchan s)"

lemma units_less:
  assumes "i < c + 2" "thread_units (most_accepted lim c) c lim t i < thread_units (most_accepted lim c) c lim s i"
    and "\<And>j. j \<noteq> i \<Longrightarrow> thread_units (most_accepted lim c) c lim t j \<le> thread_units (most_accepted lim c) c lim s j"
  shows "multi_units lim c t < multi_units lim c s"
  unfolding multi_units_def
proof (rule sum_strict_mono_ex1)
  show "\<forall>j \<in> {..<c + 2}. thread_units (most_accepted lim c) c lim t j \<le> thread_units (most_accepted lim c) c lim s j"
  proof
    fix j
    show "thread_units (most_accepted lim c) c lim t j \<le> thread_units (most_accepted lim c) c lim s j"
      by (cases "j = i") (use assms(2,3) in simp_all)
  qed
  show "\<exists>j \<in> {..<c + 2}. thread_units (most_accepted lim c) c lim t j < thread_units (most_accepted lim c) c lim s j"
    by (rule bexI [of _ i]) (use assms(1,2) in simp_all)
qed simp

text \<open>A step inside the channel leaves the program's own state alone.\<close>

definition inner_step :: "nat \<Rightarrow> 'a multi \<Rightarrow> 'a multi \<Rightarrow> bool" where
  "inner_step i s t \<longleftrightarrow> (\<exists>ch. thread_step i (mchan s) = Next ch \<and> t = s\<lparr>mchan := ch\<rparr>)"

lemma own_frame:
  "on_mchan f s = Next t \<Longrightarrow> mpc t = mpc s \<and> seen t = seen s"
  "drop_sender i s = Next t \<Longrightarrow> mpc t = mpc s \<and> seen t = seen s"
  "drop_receiver i s = Next t \<Longrightarrow> mpc t = mpc s \<and> seen t = seen s"
  by (auto simp: drop_sender_def drop_receiver_def on_mchan_def Let_def split: if_splits)

lemma deliver_left_or:
  assumes "deliver_then i p s = Next t"
  shows "inner_step i s t \<or> mpc t = (mpc s)(i := p) \<and> seen t = seen s"
  using assms by (auto simp: deliver_then_def on_mchan_def inner_step_def goes_to_def split: if_splits)

lemma owner_units_less:
  assumes core: "multi_core gen lim c (s, h)" and st: "owner_step c s = Next t"
  shows "inner_step 0 s t \<or> multi_units lim c t < multi_units lim c s"
proof (cases "inner_step 0 s t")
  case False
  note C = multi_coreD [OF core] and F = owner_facts [OF core]
  let ?u = "thread_units (most_accepted lim c) c lim"
  have "?u t 0 < ?u s 0 \<and> (\<forall>j. j \<noteq> 0 \<longrightarrow> ?u t j \<le> ?u s j)"
  proof (cases "mpc s 0")
    case OwMake
    have "mpc s 1 = Unmade" using C(3) OwMake by (simp add: roles_ok_def)
    then show ?thesis using st OwMake by (auto simp: owner_step_def goes_to_def thread_units_def)
  next
    case (OwSpawn k)
    have k: "2 \<le> k" using F(8) OwSpawn by simp
    have u: "mpc s k = Unmade" using C(3) OwSpawn k by (simp add: roles_ok_def)
    have "take_at (lim k) (mpc s k) (length (seen s k)) (PopReturned k None \<in> set h)"
      using C(6) unfolding takes_ok_def by blast
    then have "seen s k = []" using u by simp
    then show ?thesis using st OwSpawn k u
      by (auto simp: owner_step_def goes_to_def thread_units_def split: if_splits)
  next
    case OwDropSender
    then show ?thesis using st by (auto simp: owner_step_def goes_to_def thread_units_def dest: own_frame)
  next
    case OwDropReceiver
    then show ?thesis using st by (auto simp: owner_step_def goes_to_def thread_units_def dest: own_frame)
  next
    case OwClosingSender
    with st have "deliver_then 0 (OwSpawn 2) s = Next t" by (simp add: owner_step_def)
    from deliver_left_or [OF this] False OwClosingSender show ?thesis by (simp add: thread_units_def)
  next
    case OwClosingReceiver
    with st have "deliver_then 0 OwDone s = Next t" by (simp add: owner_step_def)
    from deliver_left_or [OF this] False OwClosingReceiver show ?thesis by (simp add: thread_units_def)
  qed (use st in \<open>simp_all add: owner_step_def\<close>)
  then show ?thesis using units_less [of 0 c lim t s] by simp
qed simp

lemma producer_units_less:
  assumes inv: "multi_inv gen lim c (s, h)" and st: "producer_step gen s = Next t"
  shows "inner_step 1 s t \<or> multi_units lim c t < multi_units lim c s"
proof (cases "inner_step 1 s t")
  case False
  have core: "multi_core gen lim c (s, h)" and b: "length (accepted h) \<le> most_accepted lim c"
    using inv by (simp_all add: multi_inv_def)
  note F = producer_facts [OF core]
  have "mpc t = (mpc s)(1 := mpc t 1) \<and> seen t = seen s \<and>
    producer_units (most_accepted lim c) (mpc t 1) < producer_units (most_accepted lim c) (mpc s 1)"
  proof (cases "mpc s 1")
    case (GeYield n)
    then show ?thesis using st
      by (auto simp: producer_step_def goes_to_def dest!: own_frame split: option.splits)
  next
    case (GeInPush n)
    have n: "n \<le> most_accepted lim c" using F(9) GeInPush b by auto
    from st GeInPush obtain ch where ch: "thread_step 1 (mchan s) = Next ch"
      by (auto simp: producer_step_def on_mchan_def)
    show ?thesis using st GeInPush False n ch
      by (cases "push_result 1 (mchan s)")
        (auto simp: producer_step_def goes_to_def on_mchan_def inner_step_def Suc_diff_le)
  next
    case GeLeave
    then show ?thesis using st by (auto simp: producer_step_def goes_to_def dest!: own_frame)
  next
    case GeClosing
    with st have "deliver_then 1 GeGone s = Next t" by (simp add: producer_step_def)
    from deliver_left_or [OF this] False GeClosing show ?thesis by simp
  qed (use st in \<open>simp_all add: producer_step_def\<close>)
  then have m: "mpc t = (mpc s)(1 := mpc t 1)" "seen t = seen s" and u: "producer_units (most_accepted lim c) (mpc t 1) < producer_units (most_accepted lim c) (mpc s 1)"
    by blast+
  have "mpc t j = mpc s j" if "j \<noteq> 1" for j by (subst m(1)) (use that in simp)
  with m(2) u have "multi_units lim c t < multi_units lim c s"
    by (intro units_less [of 1]) (simp_all add: thread_units_def)
  then show ?thesis by simp
qed simp

lemma consumer_units_less:
  assumes core: "multi_core gen lim c (s, h)" and i: "2 \<le> i" and st: "consumer_step lim i s = Next t"
  shows "inner_step i s t \<or> multi_units lim c t < multi_units lim c s"
proof (cases "inner_step i s t")
  case False
  note F = consumer_facts [OF core i]
  have live: "mpc s i \<noteq> Unmade" using st by (auto simp: consumer_step_def)
  have "(\<forall>j. j \<noteq> i \<longrightarrow> mpc t j = mpc s j \<and> seen t j = seen s j) \<and>
    consumer_units (lim i) (mpc t i) (length (seen t i)) < consumer_units (lim i) (mpc s i) (length (seen s i))"
  proof (cases "mpc s i")
    case CoAtPop
    then show ?thesis using st by (auto simp: consumer_step_def goes_to_def dest!: own_frame)
  next
    case CoInPop
    have n: "length (seen s i) \<le> lim i" using F(5) CoInPop by simp
    from st CoInPop obtain ch where ch: "thread_step i (mchan s) = Next ch"
      by (auto simp: consumer_step_def on_mchan_def)
    show ?thesis
    proof (cases "pop_result i (mchan s)")
      case None
      with st CoInPop False ch show ?thesis
        by (auto simp: consumer_step_def on_mchan_def inner_step_def)
    next
      case (Some x)
      show ?thesis
        using st CoInPop n ch Some by (cases x) (auto simp: consumer_step_def goes_to_def on_mchan_def Suc_diff_le)
    qed
  next
    case CoLeave
    then show ?thesis using st by (auto simp: consumer_step_def goes_to_def dest!: own_frame)
  next
    case CoClosing
    with st have "deliver_then i CoGone s = Next t" by (simp add: consumer_step_def)
    from deliver_left_or [OF this] False CoClosing show ?thesis by simp
  qed (use st in \<open>simp_all add: consumer_step_def\<close>)
  then have "multi_units lim c t < multi_units lim c s"
    using i by (intro units_less [of i, OF F(2) [OF live]]) (simp_all add: thread_units_def)
  then show ?thesis by simp
qed simp

lemma multi_step_left:
  assumes inv: "multi_inv gen lim c (s, h)" and st: "multi_step gen lim c i s = Next t"
  shows "multi_left lim c t < multi_left lim c s"
proof -
  have core: "multi_core gen lim c (s, h)" using inv by (simp add: multi_inv_def)
  have b: "buffered_inv (c + 2) (mchan s)" using multi_coreD(1) [OF core] by (simp add: chan_state_def)
  have "inner_step i s t \<or> multi_units lim c t < multi_units lim c s"
    using owner_units_less [OF core] producer_units_less [OF inv] consumer_units_less [OF core, of i] st
    by (cases "i = 0"; cases "i = 1") (simp_all add: multi_step_def)
  then show ?thesis
  proof
    assume "inner_step i s t"
    then obtain ch where ch: "thread_step i (mchan s) = Next ch" "t = s\<lparr>mchan := ch\<rparr>" by (auto simp: inner_step_def)
    have "multi_units lim c t = multi_units lim c s" unfolding multi_units_def by (rule sum.cong) (simp_all add: thread_units_def ch(2))
    with thread_step_left [OF b ch(1)] ch(2) show ?thesis by (simp add: multi_left_def)
  next
    assume less: "multi_units lim c t < multi_units lim c s"
    have "multi_core gen lim c (t, h @ multi_obs gen i s)" using multi_step_core [OF core, of i] st by simp
    from multi_coreD(1) [OF this] have "buffered_inv (c + 2) (mchan t)" by (simp add: chan_state_def)
    then have "buffered_left (c + 2) (mchan t) < 6 * (c + 2) + 1" using buffered_left_bound by fastforce
    moreover have "(multi_units lim c t + 1) * (6 * (c + 2) + 1) \<le> multi_units lim c s * (6 * (c + 2) + 1)"
      using less by (intro mult_right_mono) simp_all
    ultimately show ?thesis by (simp add: multi_left_def)
  qed
qed

definition multi_init :: "'a multi" where
  "multi_init = \<lparr>mchan = buffered_new (Suc 1), sender_refs = 1, recv_refs = 1, mpc = (\<lambda>i. Unmade)(0 := OwMake),
     seen = (\<lambda>i. [])\<rparr>"

lemma generateForMultiConsumer_eq: "generateForMultiConsumer = Next multi_init"
  by (simp add: generateForMultiConsumer_def makeBufferedChannel_eq multi_init_def numeral_2_eq_2)

lemma multi_init_inv: "multi_inv gen lim c (multi_init, [])"
proof -
  have "chan_state 2 (c + 2) (buffered_new (Suc 1)) []"
    using stream_log_init [of "c + 2" 1] by (simp add: chan_state_def stream_log_def numeral_2_eq_2)
  moreover have "place (buffered_new (Suc 1) :: 'a buffered) i = Outside" for i
    by (simp add: place_def notifies_iff buffered_new_def BufferedChannel_def)
  moreover have "\<not> mSenderClosed (buffered_new (Suc 1))" "\<not> mReceiverClosed (buffered_new (Suc 1))"
    by (simp_all add: buffered_new_def BufferedChannel_def)
  moreover have "{i. P (if i = 0 then OwMake else Unmade)} = {0 :: nat}" if "P OwMake" "\<not> P Unmade" for P
    using that by auto
  ultimately show ?thesis
    by (auto simp: multi_inv_def multi_core_def multi_init_def roles_ok_def mrefs_ok_def yields_ok_def takes_ok_def)
qed

interpretation multi:
  terminating "logged (multi_obs gen) (multi_step gen lim c)" "(multi_init, [])" "multi_inv gen lim c"
    "\<lambda>sh. all_ended c (fst sh)" "\<lambda>sh. multi_left lim c (fst sh)" for gen lim c
proof
  show "multi_inv gen lim c (multi_init, [])" by (rule multi_init_inv)
next
  fix sh i
  assume "multi_inv gen lim c sh"
  then show "ensures (multi_inv gen lim c) (logged (multi_obs gen) (multi_step gen lim c) i sh)"
    using multi_step_inv [of gen lim c "fst sh" "snd sh" i]
    by (cases "multi_step gen lim c i (fst sh)") (simp_all add: logged_def)
next
  fix sh :: "'a multi \<times> 'a traffic list"
  assume "multi_inv gen lim c sh" "\<not> all_ended c (fst sh)"
  then obtain i t where "multi_step gen lim c i (fst sh) = Next t"
    using multi_progress [of gen lim c "fst sh" "snd sh"] by auto
  then show "\<exists>i t. logged (multi_obs gen) (multi_step gen lim c) i sh = Next t"
    by (intro exI [of _ i]) (simp add: logged_def)
next
  fix sh th i
  assume "multi_inv gen lim c sh" "logged (multi_obs gen) (multi_step gen lim c) i sh = Next th"
  then show "multi_left lim c (fst th) < multi_left lim c (fst sh)"
    using multi_step_left [of gen lim c "fst sh" "snd sh" i] by (auto simp: logged_def)
qed

lemma multi_left_init:
  fixes lim :: "nat \<Rightarrow> nat" and c :: nat
  defines "l \<equiv> \<Sum>i = 2..<c + 2. Suc (lim i)"
  shows "multi_left lim c (multi_init :: 'a multi) \<le> (4 * l + 5 * c + 17) * (6 * c + 13)"
proof -
  let ?s = "multi_init :: 'a multi"
  have split: "{..<c + 2} = insert 0 (insert 1 {2..<c + 2})" by auto
  have "(\<Sum>i \<in> {2..<c + 2}. thread_units (most_accepted lim c) c lim ?s i) = (\<Sum>i = 2..<c + 2. 2 * Suc (lim i) + 4)"
    by (rule sum.cong) (auto simp: thread_units_def multi_init_def)
  also have "\<dots> = 2 * l + 4 * c" 
    unfolding l_def by (simp only: sum.distrib sum_distrib_left [symmetric] sum_constant card_atLeastLessThan) simp
  finally have "multi_units lim c ?s = 4 * l + 5 * c + 16"
    unfolding multi_units_def split
    by (simp add: thread_units_def multi_init_def most_accepted_def l_def)
  moreover have "buffered_left (c + 2) (mchan ?s) \<le> 6 * (c + 2)"
    by (rule buffered_left_bound) (simp add: multi_init_def buffered_new_inv)
  ultimately have "multi_left lim c ?s \<le> (4 * l + 5 * c + 16) * (6 * c + 13) + (6 * c + 13)"
    by (simp add: multi_left_def add.commute)
  then show ?thesis by (simp add: algebra_simps)
qed

section \<open>What it promises\<close>

lemma seen_all:
  assumes core: "multi_core gen lim c (t, h)" and fin: "all_ended c t"
    and i: "2 \<le> i" "i < c + 2" "length (seen t i) \<le> lim i"
  shows "gen (length (accepted h)) = None" "mset (concat (map (seen t) [2..<c + 2])) = mset (accepted h)"
proof -
  note C = multi_coreD [OF core]
  have gone: "mpc t j \<noteq> CoInPop" if "j < c + 2" for j
    using fin that unfolding all_ended_iff by (cases "mpc t j") auto
  have "multi_ended (mpc t i)" using fin i(2) by (simp add: all_ended_iff)
  then have e: "PopReturned i None \<in> set h"
    using consumer_facts(1,5) [OF core i(1)] i(3) by (cases "mpc t i") auto
  then show "gen (length (accepted h)) = None" by (rule producer_facts(10) [OF core])
  have ready: "mReadyData (mchan t) = []" using e C(1) unfolding chan_state_def logs_def end_log_def by blast
  have "on_its_way j (mchan t) = []" for j using way_consumer(1,3) [OF core, of j] gone [of j] by blast
  then show "mset (concat (map (seen t) [2..<c + 2])) = mset (accepted h)"
    using seen_accepted [OF core] ready by simp
qed

lemma seen_some:
  assumes "multi_core gen lim c (t, h)"
  shows "mset (concat (map (seen t) [2..<c + 2])) \<subseteq># mset (accepted h)"
  unfolding seen_accepted [OF assms] mset_concat_append by (simp add: add.assoc)

text \<open>
  C39. \<^verbatim>\<open>co::generateForMultiConsumer\<close> with \<open>c\<close> consumers, of which number \<open>i\<close> leaves its loop with
  its value number \<open>lim i\<close> (from 0), or at the end of the stream. However the caller, the routine
  and the consumers interleave: no step is undefined and no assertion fails; the function has
  yielded some number \<open>k\<close> of values, each consumer sees some of these in their order and no value
  is seen twice; when all have left and one of them met the end of the stream, the function had
  ended and every value was seen. After a bounded number of steps all have ended, with both
  sides of the channel closed by whoever had the last copy.
\<close>

theorem consumers_share_the_values:
  assumes "generateForMultiConsumer = Next s0" "run (multi_step gen lim c) es s0 = Next t"
  shows "multi_step gen lim c ev t \<noteq> Fault f \<and>
    (\<exists>k. (\<forall>j < k. gen j \<noteq> None) \<and> (\<forall>i. subseq (seen t i) (map (\<lambda>j. the (gen j)) [0..<k])) \<and>
       mset (concat (map (seen t) [2..<c + 2])) \<subseteq># mset (map (\<lambda>j. the (gen j)) [0..<k]) \<and>
       (all_ended c t \<and> (\<exists>i. 2 \<le> i \<and> i < c + 2 \<and> length (seen t i) \<le> lim i) \<longrightarrow>
          gen k = None \<and> mset (concat (map (seen t) [2..<c + 2])) = mset (map (\<lambda>j. the (gen j)) [0..<k]))) \<and>
    (all_ended c t \<longrightarrow> mSenderClosed (mchan t) \<and> mReceiverClosed (mchan t)) \<and>
    length es \<le> (4 * (\<Sum>i = 2..<c + 2. Suc (lim i)) + 5 * c + 17) * (6 * c + 13) \<and>
    (\<exists>fs u. run (multi_step gen lim c) fs t = Next u \<and> all_ended c u)"
proof -
  have s0: "s0 = multi_init" using assms(1) by (simp add: generateForMultiConsumer_eq)
  obtain h where r: "run (logged (multi_obs gen) (multi_step gen lim c)) es (multi_init, []) = Next (t, h)"
    using logged_run [OF assms(2), of "multi_obs gen" "[]"] s0 by auto
  have inv: "multi_inv gen lim c (t, h)" by (rule multi.along_run [OF multi_init_inv r])
  then have core: "multi_core gen lim c (t, h)" by (simp add: multi_inv_def)
  note C = multi_coreD [OF core]
  define k where "k = length (accepted h)"
  have acc: "map Some (accepted h) = map gen [0..<k]" using producer_facts(7) [OF core] by (simp add: k_def)
  have some: "gen j = Some (accepted h ! j)" if "j < k" for j
    using arg_cong [OF acc, of "\<lambda>xs. xs ! j"] that by (simp add: k_def)
  have vals: "map (\<lambda>j. the (gen j)) [0..<k] = accepted h"
    by (rule nth_equalityI) (simp_all add: k_def some [unfolded k_def])
  have fault: "multi_step gen lim c ev t \<noteq> Fault f" using multi_step_inv [OF inv, of ev] by auto
  have closed: "mSenderClosed (mchan t) \<and> mReceiverClosed (mchan t)" if "all_ended c t"
  proof -
    have "\<not> has_sender (mpc t i) \<and> \<not> has_receiver (mpc t i)" for i
      using that roles_bound [OF C(3), of i] unfolding all_ended_iff
      by (cases "mpc t i") auto
    then have "{i. has_sender (mpc t i)} = {}" "{i. has_receiver (mpc t i)} = {}" by simp_all
    with C(4) show ?thesis by (simp add: mrefs_ok_def)
  qed
  have "length es \<le> multi_left lim c (multi_init :: 'a multi)"
    using multi.bounded [OF multi_init_inv r] by simp
  then have bound: "length es \<le> (4 * (\<Sum>i = 2..<c + 2. Suc (lim i)) + 5 * c + 17) * (6 * c + 13)"
    using multi_left_init le_trans by blast
  obtain fs th where th: "run (logged (multi_obs gen) (multi_step gen lim c)) fs (t, h) = Next th" "all_ended c (fst th)"
    using multi.completes [OF inv] by auto
  from logged_run_back [OF th(1)] obtain u where u: "run (multi_step gen lim c) fs t = Next u"
    "th = (u, h @ observe (multi_obs gen) (multi_step gen lim c) fs t)" by blast
  have ends: "\<exists>fs u. run (multi_step gen lim c) fs t = Next u \<and> all_ended c u"
    by (intro exI [of _ fs] exI [of _ u]) (use u th(2) in simp)
  have "(\<forall>j < k. gen j \<noteq> None) \<and> (\<forall>i. subseq (seen t i) (accepted h)) \<and>
      mset (concat (map (seen t) [2..<c + 2])) \<subseteq># mset (accepted h) \<and>
      (all_ended c t \<and> (\<exists>i. 2 \<le> i \<and> i < c + 2 \<and> length (seen t i) \<le> lim i) \<longrightarrow>
         gen k = None \<and> mset (concat (map (seen t) [2..<c + 2])) = mset (accepted h))"
    using some seen_subseq [OF core] seen_some [OF core] seen_all [OF core] unfolding k_def by fastforce
  then show ?thesis unfolding vals [symmetric] using fault closed bound ends by blast
qed

text \<open>A function that yields 7 and returns, with one consumer that would take up to two values.\<close>

definition seven :: "nat \<Rightarrow> nat option" where
  "seven n = (if n = 0 then Some 7 else None)"

definition seven_run :: "nat list" where
  "seven_run = replicate 7 0 @ replicate 6 1 @ replicate 8 2"

lemmas multi_eval = multi_init_def multi_step_def owner_step_def producer_step_def consumer_step_def
  deliver_then_def drop_sender_def drop_receiver_def goes_to_def on_mchan_def push_result_def pop_result_def

lemma seven_runs:
  "\<exists>t. run (multi_step seven (\<lambda>i. 1) 1) seven_run multi_init = Next t \<and> all_ended 1 t \<and> length (seen t 2) = 1"
  by (simp add: seven_run_def seven_def multi_eval buffered_eval room_eval all_ended_def numeral_eq_Suc)

theorem consumers_share_the_values_witness:
  "\<exists>s0 t. generateForMultiConsumer = Next s0 \<and> run (multi_step seven (\<lambda>i. 1) 1) seven_run s0 = Next t \<and>
     all_ended 1 t \<and> mset (concat (map (seen t) [2..<1 + 2])) = {#7#} \<and> mReceiverClosed (mchan t)"
proof -
  obtain t where t: "run (multi_step seven (\<lambda>i. 1) 1) seven_run multi_init = Next t" "all_ended 1 t"
    "length (seen t 2) = 1"
    using seven_runs by blast
  note T = consumers_share_the_values [OF generateForMultiConsumer_eq t(1), of 0 NullDeref]
  from T [THEN conjunct2, THEN conjunct1] obtain k where k: "\<forall>j < k. seven j \<noteq> None"
    and all: "all_ended 1 t \<and> (\<exists>i. 2 \<le> i \<and> i < 1 + 2 \<and> length (seen t i) \<le> 1) \<longrightarrow>
      seven k = None \<and> mset (concat (map (seen t) [2..<1 + 2])) = mset (map (\<lambda>j. the (seven j)) [0..<k])"
    by blast
  have "\<exists>i. 2 \<le> i \<and> i < 1 + 2 \<and> length (seen t i) \<le> (1 :: nat)"
    by (rule exI [of _ 2]) (use t(3) in simp)
  with all t(2) have e: "seven k = None" "mset (concat (map (seen t) [2..<1 + 2])) = mset (map (\<lambda>j. the (seven j)) [0..<k])"
    by blast+
  have "\<not> 1 < k" using k by (auto simp: seven_def)
  moreover have "k \<noteq> 0" using e(1) by (simp add: seven_def split: if_splits)
  ultimately have "k = 1" by simp
  then have "mset (concat (map (seen t) [2..<1 + 2])) = {#7#}" using e(2) by (simp add: seven_def)
  moreover have "mReceiverClosed (mchan t)" using T [THEN conjunct2, THEN conjunct2, THEN conjunct1] t(2) by blast
  ultimately show ?thesis using t generateForMultiConsumer_eq by (intro exI conjI)
qed

end
