(* ===== verification/Await.thy ===== *)
theory Await
  imports Future "HOL-Library.Signed_Division"
begin

text \<open>
  \<^verbatim>\<open>co::await\<close> of \<^verbatim>\<open>include/co/await.hpp\<close> for any awaiter, inside a coroutine and outside of
  one, and the awaiters of that file: the default one, which forwards to the awaited object
  (futures), the one of the event loop, and those of timers and durations. Boost.Asio's timer
  is a parameter. How a coroutine is left and entered is in \<open>Routine\<close>.
\<close>

section \<open>Errors\<close>

text \<open>An error code; 0 is success.\<close>

type_synonym error_code = nat

definition throwError :: "error_code \<Rightarrow> string \<Rightarrow> exception + unit" where
  "throwError error msg = (if error \<noteq> 0 then Inl (SystemError error msg) else Inr ())"

section \<open>Awaiters\<close>

text \<open>
  The members of an awaiter, on the state of what is awaited. \<open>await_suspend\<close> hands over the
  callback that resumes the caller; \<open>await_synchron\<close>, which not every awaiter has, blocks
  the thread until it has a result.
\<close>

record ('s, 'r) awaiter =
  ready_now :: "'s \<Rightarrow> bool"
  suspend_with :: "'s \<Rightarrow> fault + (bool \<times> 's)"
  resume_with :: "'s \<Rightarrow> fault + (exception + 'r)"
  synchron :: "('s \<Rightarrow> ((exception + 'r) \<times> 's) outcome) option"

definition DefaultAwaiter :: "('s \<Rightarrow> bool) \<Rightarrow> ('s \<Rightarrow> fault + (bool \<times> 's)) \<Rightarrow>
    ('s \<Rightarrow> fault + (exception + 'r)) \<Rightarrow> ('s, 'r) awaiter" where
  "DefaultAwaiter rd susp res =
     \<lparr>ready_now = rd, suspend_with = susp, resume_with = res, synchron = None\<rparr>"

definition Awaiter_synchron :: "('s \<Rightarrow> ((exception + 'r) \<times> 's) outcome) \<Rightarrow>
    ('s, 'r) awaiter \<Rightarrow> ('s, 'r) awaiter" where
  "Awaiter_synchron sync a = a\<lparr>synchron := Some sync\<rparr>"

text \<open>\<^verbatim>\<open>SupportsSynchronAwait\<close>: whether there is an \<open>await_synchron\<close>, and the call.\<close>

definition supportsSynchronAwait :: "('s, 'r) awaiter \<Rightarrow> bool" where
  "supportsSynchronAwait a = (case synchron a of None \<Rightarrow> False | Some f \<Rightarrow> True)"

definition synchron_call :: "('s, 'r) awaiter \<Rightarrow> 's \<Rightarrow> ((exception + 'r) \<times> 's) outcome" where
  "synchron_call a s =
     (case synchron a of
        None \<Rightarrow> Next (Inl (RuntimeError ''The given type can only be awaited inside of a coroutine!''), s)
      | Some sync \<Rightarrow> sync s)"

section \<open>The call\<close>

text \<open>
  Where \<^verbatim>\<open>co::await\<close> stands: called, behind its tests with the coroutine being left (where
  \<^verbatim>\<open>PostLeave\<close> calls \<open>await_suspend\<close>), suspended, about to call \<open>await_resume\<close>, in
  \<open>await_synchron\<close>, and returned.
\<close>

datatype 'r await_at =
  ACalled | ALeaving | ASuspended | AResume | ASynchron | AReturned "exception + 'r"

record ('s, 'r) await_call =
  target :: 's
  inside :: bool
  at :: "'r await_at"

definition await_called :: "bool \<Rightarrow> 's \<Rightarrow> ('s, 'r) await_call" where
  "await_called i x = \<lparr>target = x, inside = i, at = ACalled\<rparr>"

text \<open>The steps of the caller; \<open>asserts\<close> tells whether the build has its assertions.\<close>

definition co_await :: "bool \<Rightarrow> ('s, 'r) awaiter \<Rightarrow> ('s, 'r) await_call \<Rightarrow> ('s, 'r) await_call outcome" where
  "co_await asserts a s =
     (case at s of
        ACalled \<Rightarrow>
          (if asserts \<and> \<not> (supportsSynchronAwait a \<or> inside s) then Fault (AssertFailed ''await'')
           else if ready_now a (target s) then Next (s\<lparr>at := AResume\<rparr>)
           else if \<not> inside s then Next (s\<lparr>at := ASynchron\<rparr>)
           else Next (s\<lparr>at := ALeaving\<rparr>))
      | ALeaving \<Rightarrow>
          (case suspend_with a (target s) of
             Inl e \<Rightarrow> Fault e
           | Inr (b, x) \<Rightarrow> Next (s\<lparr>target := x, at := (if b then ASuspended else AResume)\<rparr>))
      | ASynchron \<Rightarrow>
          bind_outcome (synchron_call a (target s)) (\<lambda>(r, x). Next (s\<lparr>target := x, at := AReturned r\<rparr>))
      | AResume \<Rightarrow>
          (case resume_with a (target s) of Inl e \<Rightarrow> Fault e | Inr r \<Rightarrow> Next (s\<lparr>at := AReturned r\<rparr>))
      | _ \<Rightarrow> Blocked)"

text \<open>
  The rest of the world: it changes what is awaited and may call the callback on the way,
  which resumes the caller; calling it when the caller is not suspended is a fault.
\<close>

datatype 'w await_event = Proceed | World 'w

fun await_step :: "bool \<Rightarrow> ('s, 'r) awaiter \<Rightarrow> ('w \<Rightarrow> 's \<Rightarrow> (bool \<times> 's) outcome) \<Rightarrow>
    ('w await_event, ('s, 'r) await_call) machine" where
  "await_step asserts a world Proceed s = co_await asserts a s"
| "await_step asserts a world (World w) s =
     bind_outcome (world w (target s))
       (\<lambda>(called, x).
          if \<not> called then Next (s\<lparr>target := x\<rparr>)
          else if at s = ASuspended then Next (s\<lparr>target := x, at := AResume\<rparr>)
          else Fault (AssertFailed ''Runner''))"

section \<open>What an awaiter promises\<close>

text \<open>
  The contract between \<^verbatim>\<open>co::await\<close> and an awaiter in its world: while the callback is
  registered the world may call it, once, and then the result is there; once it is there
  and no callback is registered it stays. A successful test, a refused suspension and a
  return from \<open>await_synchron\<close> mean that the result is there. \<open>fresh\<close> holds of an object no
  callback of which has been called, which is when \<open>await_synchron\<close> may be used.
\<close>

locale awaitable_contract =
  fixes a :: "('s, 'r) awaiter"
    and world :: "'w \<Rightarrow> 's \<Rightarrow> (bool \<times> 's) outcome"
    and ok :: "'s \<Rightarrow> bool"
    and registered :: "'s \<Rightarrow> bool"
    and fresh :: "'s \<Rightarrow> bool"
    and finished :: "'s \<Rightarrow> bool"
    and result_of :: "'s \<Rightarrow> exception + 'r"
  assumes world_safe: "ok s \<Longrightarrow> world w s \<noteq> Fault f"
    and world_ok: "ok s \<Longrightarrow> world w s = Next (called, t) \<Longrightarrow>
      ok t \<and> (called \<longrightarrow> registered s) \<and> (registered t \<longleftrightarrow> registered s \<and> \<not> called) \<and>
      (called \<or> finished s \<and> \<not> registered s \<longrightarrow> finished t) \<and>
      (finished s \<and> \<not> registered s \<longrightarrow> result_of t = result_of s) \<and>
      (fresh s \<and> \<not> registered s \<longrightarrow> fresh t)"
    and ready_finished: "ok s \<Longrightarrow> \<not> registered s \<Longrightarrow> ready_now a s \<Longrightarrow> finished s"
    and suspends: "ok s \<Longrightarrow> \<not> registered s \<Longrightarrow>
      \<exists>b t. suspend_with a s = Inr (b, t) \<and> ok t \<and> registered t = b \<and> (\<not> b \<longrightarrow> finished t)"
    and resumes: "ok s \<Longrightarrow> \<not> registered s \<Longrightarrow> finished s \<Longrightarrow> resume_with a s = Inr (result_of s)"
    and synchron_safe: "synchron a = Some g \<Longrightarrow> ok s \<Longrightarrow> \<not> registered s \<Longrightarrow> fresh s \<Longrightarrow> g s \<noteq> Fault f"
    and synchron_ok: "synchron a = Some g \<Longrightarrow> ok s \<Longrightarrow> \<not> registered s \<Longrightarrow> fresh s \<Longrightarrow> g s = Next (r, t) \<Longrightarrow>
      ok t \<and> \<not> registered t \<and> fresh t \<and> finished t \<and> r = result_of t"
begin

text \<open>The call is well-formed: where it stands agrees with the state of what it awaits.\<close>

fun at_ok :: "bool \<Rightarrow> 's \<Rightarrow> 'r await_at \<Rightarrow> bool" where
  "at_ok i x ACalled \<longleftrightarrow> \<not> registered x \<and> fresh x"
| "at_ok i x ALeaving \<longleftrightarrow> i \<and> \<not> registered x"
| "at_ok i x ASuspended \<longleftrightarrow> i \<and> registered x"
| "at_ok i x AResume \<longleftrightarrow> \<not> registered x \<and> finished x"
| "at_ok i x ASynchron \<longleftrightarrow> \<not> i \<and> \<not> registered x \<and> fresh x"
| "at_ok i x (AReturned r) \<longleftrightarrow> \<not> registered x \<and>
    (r = result_of x \<and> finished x \<or>
     \<not> i \<and> \<not> supportsSynchronAwait a \<and>
       r = Inl (RuntimeError ''The given type can only be awaited inside of a coroutine!''))"

definition call_ok :: "('s, 'r) await_call \<Rightarrow> bool" where
  "call_ok s \<longleftrightarrow> ok (target s) \<and> at_ok (inside s) (target s) (at s) \<and>
     (\<not> inside s \<longrightarrow> fresh (target s) \<and> \<not> registered (target s))"

lemma call_ok_start: "ok x \<Longrightarrow> \<not> registered x \<Longrightarrow> fresh x \<Longrightarrow> call_ok (await_called i x)"
  by (simp add: call_ok_def await_called_def)

lemma world_call_ok:
  assumes "call_ok s"
  shows "safely (\<lambda>t. call_ok t \<and> inside t = inside s) (await_step asserts a world (World w) s)"
proof (cases "world w (target s)")
  case (Next r)
  then obtain called x where w: "world w (target s) = Next (called, x)" by (cases r) auto
  from assms have "ok (target s)" and k: "at_ok (inside s) (target s) (at s)"
    "\<not> inside s \<longrightarrow> fresh (target s) \<and> \<not> registered (target s)"
    by (simp_all add: call_ok_def)
  from world_ok [OF this(1) w] k show ?thesis
    by (cases "at s") (auto simp: w call_ok_def)
qed (use assms world_safe in \<open>auto simp: call_ok_def\<close>)

lemma synchron_call_ok:
  assumes "ok x" "\<not> registered x" "fresh x"
  shows "safely (\<lambda>(r, y). ok y \<and> \<not> registered y \<and> fresh y \<and> at_ok False y (AReturned r)) (synchron_call a x)"
proof (cases "synchron a")
  case None
  then show ?thesis using assms by (simp add: synchron_call_def supportsSynchronAwait_def)
next
  case (Some g)
  have c: "synchron_call a x = g x" using Some by (simp add: synchron_call_def)
  show ?thesis
  proof (cases "g x")
    case (Next p)
    obtain r y where p: "p = (r, y)" by (cases p)
    from synchron_ok [OF Some assms, of r y] Next show ?thesis by (auto simp: c p)
  qed (use c synchron_safe [OF Some assms] in auto)
qed

lemma caller_call_ok:
  assumes "call_ok s" "inside s \<or> supportsSynchronAwait a \<or> \<not> asserts"
  shows "safely (\<lambda>t. call_ok t \<and> inside t = inside s) (co_await asserts a s)"
proof -
  from assms(1) have o: "ok (target s)" and k: "at_ok (inside s) (target s) (at s)"
    "\<not> inside s \<longrightarrow> fresh (target s) \<and> \<not> registered (target s)"
    by (simp_all add: call_ok_def)
  show ?thesis
  proof (cases "at s")
    case ACalled
    then show ?thesis using o k assms(2) ready_finished by (auto simp: co_await_def call_ok_def)
  next
    case ALeaving
    with k have i: "inside s" "\<not> registered (target s)" by simp_all
    with o obtain b u where "suspend_with a (target s) = Inr (b, u)" "ok u" "registered u = b"
      "\<not> b \<longrightarrow> finished u"
      using suspends by blast
    with ALeaving i show ?thesis by (auto simp: co_await_def call_ok_def)
  next
    case ASynchron
    with k have i: "\<not> inside s" "\<not> registered (target s)" "fresh (target s)" by simp_all
    show ?thesis
    proof (cases "synchron_call a (target s)")
      case (Next p)
      with synchron_call_ok [OF o i(2,3)] i(1) ASynchron show ?thesis
        by (auto simp: co_await_def call_ok_def)
    qed (use synchron_call_ok [OF o i(2,3)] ASynchron in \<open>auto simp: co_await_def\<close>)
  next
    case AResume
    with o k resumes show ?thesis by (auto simp: co_await_def call_ok_def)
  qed (auto simp: co_await_def)
qed

text \<open>What the call returns, in every interleaving with the world.\<close>

lemma await_result:
  assumes "ok x" "\<not> registered x" "fresh x" "inside0 \<or> supportsSynchronAwait a \<or> \<not> asserts"
    and "run (await_step asserts a world) es (await_called inside0 x) = Next t"
  shows "call_ok t \<and> inside t = inside0 \<and> await_step asserts a world e t \<noteq> Fault f"
proof -
  let ?I = "\<lambda>s. call_ok s \<and> inside s = inside0"
  have keep: "?I s \<Longrightarrow> safely ?I (await_step asserts a world e s)" for e s
    using world_call_ok [of s asserts] caller_call_ok [of s asserts] assms(4) by (cases e) auto
  have "?I (await_called inside0 x)" using call_ok_start [OF assms(1,2,3)] by (simp add: await_called_def)
  from run_keeps [of ?I "await_step asserts a world", OF keep this assms(5)]
  have "?I t" .
  with keep [of t e] show ?thesis by auto
qed

text \<open>The caller goes on by itself unless it is suspended.\<close>

lemma await_moves:
  assumes "call_ok s" "inside s" "at s \<noteq> ASuspended" "\<And>r. at s \<noteq> AReturned r"
  shows "\<exists>t. await_step asserts a world Proceed s = Next t"
proof -
  from assms(1) have o: "ok (target s)" and k: "at_ok (inside s) (target s) (at s)"
    by (simp_all add: call_ok_def)
  show ?thesis
  proof (cases "at s")
    case ALeaving
    with o k suspends [of "target s"] show ?thesis by (fastforce simp: co_await_def)
  qed (use assms o k resumes in \<open>auto simp: co_await_def\<close>)
qed

end

section \<open>Awaiting a future\<close>

text \<open>
  Two awaiters on the data of a future, for the caller \<open>0\<close>: that of \<^verbatim>\<open>LightFutureData\<close>, which
  the library awaits inside of coroutines, and that of \<^verbatim>\<open>future\<close>, which leaves the test to
  \<open>await_suspend\<close> and blocks outside of coroutines. \<^verbatim>\<open>get_blocking\<close> is here the step that
  \<open>FutureWait\<close> shows it to be: it returns the result once the future is ready.
\<close>

definition light_future_awaiter :: "((nat, 'v) light_future, 'v) awaiter" where
  "light_future_awaiter = DefaultAwaiter await_ready (await_suspend 0) await_resume"

definition future_awaiter :: "((nat, 'v) light_future, 'v) awaiter" where
  "future_awaiter =
     Awaiter_synchron
       (\<lambda>f. if is_ready f then (case get_unchecked f of Inl e \<Rightarrow> Fault e | Inr r \<Rightarrow> Next (r, f)) else Blocked)
       (DefaultAwaiter (\<lambda>f. future_await_ready (Some 0)) (suspend 0) get_unchecked)"

text \<open>The world of a future completes it, once, and calls the task it finds.\<close>

definition future_world :: "exception + 'v \<Rightarrow> (nat, 'v) light_future \<Rightarrow> (bool \<times> (nat, 'v) light_future) outcome" where
  "future_world r f =
     (if is_ready f then Blocked
      else case complete r f of Inl e \<Rightarrow> Fault e | Inr (w, g) \<Rightarrow> Next (w = Some 0, g))"

definition own_future :: "(nat, 'v) light_future \<Rightarrow> bool" where
  "own_future f \<longleftrightarrow> future_ok f \<and> (\<forall>k. continuationPtr f = Handle k \<longrightarrow> k = 0)"

definition future_registered :: "(nat, 'v) light_future \<Rightarrow> bool" where
  "future_registered f \<longleftrightarrow> (case continuationPtr f of Handle k \<Rightarrow> True | _ \<Rightarrow> False)"

definition future_result :: "(nat, 'v) light_future \<Rightarrow> exception + 'v" where
  "future_result f = getValue (val f)"

lemmas awaiter_defs = light_future_awaiter_def future_awaiter_def DefaultAwaiter_def
  Awaiter_synchron_def future_await_ready_def

lemma future_world_safe: "own_future f \<Longrightarrow> future_world r f \<noteq> Fault e"
  by (auto simp: future_world_def own_future_def complete_on_ready on_ready_def is_ready_def
      split: handle.splits)

lemma future_world_ok:
  "own_future f \<Longrightarrow> future_world r f = Next (called, g) \<Longrightarrow>
    own_future g \<and> (called \<longrightarrow> future_registered f) \<and>
    (future_registered g \<longleftrightarrow> future_registered f \<and> \<not> called) \<and>
    (called \<or> is_ready f \<and> \<not> future_registered f \<longrightarrow> is_ready g) \<and>
    (is_ready f \<and> \<not> future_registered f \<longrightarrow> future_result g = future_result f)"
  by (auto simp: future_world_def own_future_def future_registered_def complete_on_ready
      on_ready_def is_ready_def future_ok_def split: handle.splits if_splits)

lemma future_suspends:
  "own_future f \<Longrightarrow> \<not> future_registered f \<Longrightarrow>
    \<exists>b g. suspend 0 f = Inr (b, g) \<and> own_future g \<and> future_registered g = b \<and> (\<not> b \<longrightarrow> is_ready g)"
  by (auto simp: suspend_def own_future_def future_registered_def is_ready_def future_ok_def
      split: handle.splits)

lemma light_future_awaiter_simps [simp]:
  "ready_now light_future_awaiter f = is_ready f"
  "suspend_with light_future_awaiter f = suspend 0 f"
  "resume_with light_future_awaiter f = get_unchecked f"
  "synchron light_future_awaiter = None"
  by (simp_all add: awaiter_defs await_ready_def await_suspend_def is_ready_weak_def is_ready_def
      await_resume_def)

lemma future_awaiter_simps [simp]:
  "ready_now future_awaiter f = False"
  "suspend_with future_awaiter f = suspend 0 f"
  "resume_with future_awaiter f = get_unchecked f"
  "synchron future_awaiter = Some (\<lambda>f. if is_ready f
     then (case get_unchecked f of Inl e \<Rightarrow> Fault e | Inr r \<Rightarrow> Next (r, f)) else Blocked)"
  by (simp_all add: awaiter_defs)

lemma get_unchecked_ready: "is_ready f \<Longrightarrow> get_unchecked f = Inr (future_result f)"
  by (simp add: get_unchecked_def is_ready_weak_def is_ready_def future_result_def)

interpretation light_future_await: awaitable_contract light_future_awaiter future_world
    own_future future_registered "\<lambda>f. True" is_ready future_result
proof (unfold_locales, goal_cases)
  case 1 then show ?case by (rule future_world_safe)
next
  case 2 from future_world_ok [OF this] show ?case by blast
next
  case 4 from future_suspends [OF this] show ?case by (simp only: light_future_awaiter_simps)
qed (simp_all add: get_unchecked_ready)

interpretation future_await: awaitable_contract future_awaiter future_world
    own_future future_registered "\<lambda>f. True" is_ready future_result
proof (unfold_locales, goal_cases)
  case 1 then show ?case by (rule future_world_safe)
next
  case 2 from future_world_ok [OF this] show ?case by blast
next
  case 4 from future_suspends [OF this] show ?case by (simp only: future_awaiter_simps)
qed (auto simp: get_unchecked_ready split: if_splits)


lemma awaiters_differ: "(light_future_awaiter :: ((nat, 'v) light_future, 'v) awaiter) \<noteq> future_awaiter"
proof
  assume "(light_future_awaiter :: ((nat, 'v) light_future, 'v) awaiter) = future_awaiter"
  then have "synchron (light_future_awaiter :: ((nat, 'v) light_future, 'v) awaiter) = synchron future_awaiter"
    by (rule arg_cong)
  then show False by simp
qed

text \<open>What a ready future holds was set by the world.\<close>

lemma result_from_world:
  assumes "a = light_future_awaiter \<or> a = future_awaiter"
    and "run (await_step asserts a future_world) es s = Next t"
    and "is_ready (target s) \<Longrightarrow> future_result (target s) \<in> R" "{r. World r \<in> set es} \<subseteq> R"
    and "is_ready (target t)"
  shows "future_result (target t) \<in> R"
  using assms(2-)
proof (induction es arbitrary: s)
  case Nil
  then show ?case by simp
next
  case (Cons e es)
  from Cons.prems(1) obtain u where u: "await_step asserts a future_world e s = Next u"
    and r: "run (await_step asserts a future_world) es u = Next t" by auto
  have "future_result (target u) \<in> R" if ready: "is_ready (target u)"
  proof (cases e)
    case Proceed
    have "is_ready (target s) \<and> future_result (target u) = future_result (target s)"
      using assms(1) u ready unfolding Proceed
      by (cases "at s")
        (auto simp: co_await_def synchron_call_def suspend_def is_ready_def future_result_def
          split: if_splits handle.splits sum.splits)
    with Cons.prems(2) show ?thesis by simp
  next
    case (World v)
    then obtain called where w: "future_world v (target s) = Next (called, target u)"
      using u by (auto split: if_splits)
    then have "future_result (target u) = v"
      by (cases v) (auto simp: future_world_def complete_on_ready on_ready_def future_result_def
          dest!: sym [of _ "target u"] split: if_splits handle.splits)
    moreover have "v \<in> R" using Cons.prems(3) World by auto
    ultimately show ?thesis by simp
  qed
  from Cons.IH [OF r this _ Cons.prems(4)] Cons.prems(3) show ?case by auto
qed



section \<open>Awaiting the event loop\<close>

text \<open>
  Awaiting an \<^verbatim>\<open>io_context\<close> posts the callback and suspends: the queue of the event loop holds
  the callers by number, \<open>ran\<close> says that \<open>0\<close>, the caller in question, has been called.
\<close>

record event_loop =
  posted :: "nat list"
  ran :: bool

definition ioc_awaiter :: "(event_loop, unit) awaiter" where
  "ioc_awaiter = DefaultAwaiter (\<lambda>l. False) (\<lambda>l. Inr (True, l\<lparr>posted := posted l @ [0]\<rparr>)) (\<lambda>l. Inr (Inr ()))"

datatype loop_event = PostOther nat | RunFirst

fun loop_world :: "loop_event \<Rightarrow> event_loop \<Rightarrow> (bool \<times> event_loop) outcome" where
  "loop_world (PostOther n) l = Next (False, l\<lparr>posted := posted l @ [Suc n]\<rparr>)"
| "loop_world RunFirst l =
     (case posted l of [] \<Rightarrow> Blocked
      | c # q \<Rightarrow> Next (c = 0, \<lparr>posted = q, ran = (ran l \<or> c = 0)\<rparr>))"

interpretation ioc_await: awaitable_contract ioc_awaiter loop_world
    "\<lambda>l. count_list (posted l) 0 \<le> 1" "\<lambda>l. 0 \<in> set (posted l)" "\<lambda>l. True" ran "\<lambda>l. Inr ()"
proof (unfold_locales, goal_cases)
  case (1 s w f)
  then show ?case by (cases w) (auto split: list.splits)
next
  case (2 s w called t)
  then show ?case
    by (cases w) (auto simp: count_list_0_iff split: list.splits if_splits)
next
  case (4 s)
  then show ?case by (auto simp: ioc_awaiter_def DefaultAwaiter_def count_list_0_iff)
qed (auto simp: ioc_awaiter_def DefaultAwaiter_def)

section \<open>Awaiting a timer\<close>

text \<open>
  \<^verbatim>\<open>toBoostPosixTime\<close>: a duration of \<open>c\<close> periods of \<open>num / den\<close> seconds in microseconds, where
  \<^verbatim>\<open>duration_cast\<close> truncates towards zero.
\<close>

definition toBoostPosixTime :: "int \<Rightarrow> int \<Rightarrow> int \<Rightarrow> int" where
  "toBoostPosixTime num den c = (c * num * 1000000) sdiv den"

text \<open>
  The timer of Boost.Asio and the thread's \<^verbatim>\<open>sleep_for\<close> are parameters: the time until the
  expiry, registering a handler, making a timer of a duration, an event of the world with the
  error code a handler is called with, if one is, and sleeping for a number of microseconds.
\<close>

record ('x, 'w) asio_timer =
  new_timer :: "int \<Rightarrow> 'x"
  expires_from_now :: "'x \<Rightarrow> int"
  async_wait_timer :: "'x \<Rightarrow> 'x"
  timer_event :: "'w \<Rightarrow> 'x \<Rightarrow> (error_code option \<times> 'x) outcome"
  sleep_for :: "int \<Rightarrow> 'x \<Rightarrow> 'x outcome"

record 'x timer_state =
  mTimer :: 'x
  mTimeoutError :: error_code

definition timer_awaiter :: "('x, 'w) asio_timer \<Rightarrow> ('x timer_state, unit) awaiter" where
  "timer_awaiter T =
     Awaiter_synchron
       (\<lambda>s. bind_outcome (sleep_for T (expires_from_now T (mTimer s)) (mTimer s))
              (\<lambda>x. Next (Inr (), s\<lparr>mTimer := x\<rparr>)))
       (DefaultAwaiter
          (\<lambda>s. expires_from_now T (mTimer s) < 0)
          (\<lambda>s. Inr (True, s\<lparr>mTimer := async_wait_timer T (mTimer s)\<rparr>))
          (\<lambda>s. Inr (throwError (mTimeoutError s) ''async_wait'')))"

text \<open>The handler given to \<^verbatim>\<open>async_wait\<close>: it stores the error code and calls the callback.\<close>

definition timer_world :: "('x, 'w) asio_timer \<Rightarrow> 'w \<Rightarrow> 'x timer_state \<Rightarrow> (bool \<times> 'x timer_state) outcome" where
  "timer_world T w s =
     bind_outcome (timer_event T w (mTimer s))
       (\<lambda>(h, x). case h of
          None \<Rightarrow> Next (False, s\<lparr>mTimer := x\<rparr>)
        | Some ec \<Rightarrow> Next (True, s\<lparr>mTimer := x, mTimeoutError := ec\<rparr>))"

text \<open>The awaiter of a timer, and that of a duration, which makes its timer by \<^verbatim>\<open>asioSleep\<close>.\<close>

definition Awaiter_timer :: "'x \<Rightarrow> 'x timer_state" where
  "Awaiter_timer timer = \<lparr>mTimer = timer, mTimeoutError = 0\<rparr>"

definition asioSleep :: "('x, 'w) asio_timer \<Rightarrow> int \<Rightarrow> int \<Rightarrow> int \<Rightarrow> 'x" where
  "asioSleep T num den c = new_timer T (toBoostPosixTime num den c)"

definition Awaiter_duration :: "('x, 'w) asio_timer \<Rightarrow> int \<Rightarrow> int \<Rightarrow> int \<Rightarrow> 'x timer_state" where
  "Awaiter_duration T num den c = Awaiter_timer (asioSleep T num den c)"

text \<open>
  What the code relies on, by the documentation of \<^verbatim>\<open>deadline_timer\<close> and \<^verbatim>\<open>sleep_for\<close>: time
  does not run backwards, a handler is called only while one is registered, only one is, it
  is called with success only after the expiry, and \<^verbatim>\<open>sleep_for\<close> sleeps at least as long as it
  is told. \<open>waiting\<close> tells whether a handler is registered.
\<close>

definition timer_documented :: "('x, 'w) asio_timer \<Rightarrow> ('x \<Rightarrow> bool) \<Rightarrow> bool" where
  "timer_documented T waiting \<longleftrightarrow>
     (\<forall>d. expires_from_now T (new_timer T d) = d \<and> \<not> waiting (new_timer T d)) \<and>
     (\<forall>x. \<not> waiting x \<longrightarrow> waiting (async_wait_timer T x) \<and>
        expires_from_now T (async_wait_timer T x) = expires_from_now T x) \<and>
     (\<forall>w x f. timer_event T w x \<noteq> Fault f) \<and>
     (\<forall>w x h y. timer_event T w x = Next (h, y) \<longrightarrow>
        expires_from_now T y \<le> expires_from_now T x \<and> (h \<noteq> None \<longrightarrow> waiting x) \<and>
        (waiting y \<longleftrightarrow> waiting x \<and> h = None) \<and> (h = Some 0 \<longrightarrow> expires_from_now T y \<le> 0)) \<and>
     (\<forall>d x f. sleep_for T d x \<noteq> Fault f) \<and>
     (\<forall>d x y. sleep_for T d x = Next y \<longrightarrow>
        expires_from_now T y \<le> expires_from_now T x - d \<and> (waiting y \<longleftrightarrow> waiting x))"

lemma sleep_documented:
  assumes "timer_documented T waiting"
  shows "sleep_for T d x \<noteq> Fault f"
    and "sleep_for T d x = Next y \<Longrightarrow> expires_from_now T y \<le> expires_from_now T x - d \<and> (waiting y \<longleftrightarrow> waiting x)"
  using assms unfolding timer_documented_def by blast+

lemma handler_documented:
  assumes "timer_documented T waiting"
  shows "timer_event T w x \<noteq> Fault f"
    and "timer_event T w x = Next (h, y) \<Longrightarrow>
      expires_from_now T y \<le> expires_from_now T x \<and> (h \<noteq> None \<longrightarrow> waiting x) \<and>
      (waiting y \<longleftrightarrow> waiting x \<and> h = None) \<and> (h = Some 0 \<longrightarrow> expires_from_now T y \<le> 0)"
    and "\<not> waiting x \<Longrightarrow> waiting (async_wait_timer T x)"
  using assms unfolding timer_documented_def by blast+

lemma timer_awaiter_simps [simp]:
  "ready_now (timer_awaiter T) s \<longleftrightarrow> expires_from_now T (mTimer s) < 0"
  "suspend_with (timer_awaiter T) s = Inr (True, s\<lparr>mTimer := async_wait_timer T (mTimer s)\<rparr>)"
  "resume_with (timer_awaiter T) s = Inr (throwError (mTimeoutError s) ''async_wait'')"
  "synchron (timer_awaiter T) = Some (\<lambda>s.
     bind_outcome (sleep_for T (expires_from_now T (mTimer s)) (mTimer s))
       (\<lambda>x. Next (Inr (), s\<lparr>mTimer := x\<rparr>)))"
  by (simp_all add: timer_awaiter_def DefaultAwaiter_def Awaiter_synchron_def)

definition timer_over :: "('x, 'w) asio_timer \<Rightarrow> 'x timer_state \<Rightarrow> bool" where
  "timer_over T s \<longleftrightarrow> mTimeoutError s \<noteq> 0 \<or> expires_from_now T (mTimer s) \<le> 0"

lemma timer_contract:
  assumes "timer_documented T waiting"
  shows "awaitable_contract (timer_awaiter T) (timer_world T) (\<lambda>s. True)
    (\<lambda>s. waiting (mTimer s)) (\<lambda>s. mTimeoutError s = 0) (timer_over T) (\<lambda>s. throwError (mTimeoutError s) ''async_wait'')"
proof (unfold_locales, goal_cases)
  case (1 s w f)
  then show ?case using handler_documented(1) [OF assms]
    by (auto simp: timer_world_def split: option.splits)
next
  case (2 s w called t)
  then obtain h y where e: "timer_event T w (mTimer s) = Next (h, y)"
    and t: "t = (case h of None \<Rightarrow> s\<lparr>mTimer := y\<rparr> | Some ec \<Rightarrow> s\<lparr>mTimer := y, mTimeoutError := ec\<rparr>)"
    "called \<longleftrightarrow> h \<noteq> None"
    by (auto simp: timer_world_def split: option.splits)
  from handler_documented(2) [OF assms e] show ?case
    by (cases h) (auto simp: t timer_over_def)
next
  case (4 s)
  with handler_documented(3) [OF assms, of "mTimer s"] show ?case
    by (auto intro: exI [of _ True])
next
  case (7 g s r t)
  then obtain y where y: "sleep_for T (expires_from_now T (mTimer s)) (mTimer s) = Next y"
    and t: "r = Inr ()" "t = s\<lparr>mTimer := y\<rparr>"
    by auto
  from sleep_documented(2) [OF assms y] 7(2-4) show ?case
    by (simp add: t timer_over_def throwError_def)
next
  case (6 g s f)
  then show ?case using sleep_documented(1) [OF assms] by auto
qed (simp_all add: timer_over_def)


lemma toBoostPosixTime_bounds:
  assumes "0 < den" "0 \<le> c * num"
  shows "den * toBoostPosixTime num den c \<le> c * num * 1000000"
    and "c * num * 1000000 < den * (toBoostPosixTime num den c + 1)"
proof -
  have d: "toBoostPosixTime num den c = (c * num * 1000000) div den"
    using assms by (simp add: toBoostPosixTime_def signed_divide_int_def sgn_if)
  define n where "n = c * num * 1000000"
  have "den * (n div den) = n - n mod den" by (simp add: minus_mod_eq_mult_div)
  with pos_mod_bound [OF assms(1), of n] pos_mod_sign [OF assms(1), of n]
  show "den * toBoostPosixTime num den c \<le> c * num * 1000000"
    and "c * num * 1000000 < den * (toBoostPosixTime num den c + 1)"
    by (simp_all add: d distrib_left flip: n_def)
qed



text \<open>A clock that does what is documented: the time, the expiry, and whether a handler waits.\<close>

datatype clock_event = Tick nat | FireTimer | CancelTimer

definition clock_timer :: "(int \<times> int \<times> bool, clock_event) asio_timer" where
  "clock_timer = \<lparr>
     new_timer = (\<lambda>d. (0, d, False)),
     expires_from_now = (\<lambda>(now, expiry, waits). expiry - now),
     async_wait_timer = (\<lambda>(now, expiry, waits). (now, expiry, True)),
     timer_event = (\<lambda>ev (now, expiry, waits). case ev of
         Tick n \<Rightarrow> Next (None, now + int n, expiry, waits)
       | FireTimer \<Rightarrow> if waits \<and> expiry \<le> now then Next (Some 0, now, expiry, False) else Blocked
       | CancelTimer \<Rightarrow> if waits then Next (Some 125, now, expiry, False) else Blocked),
     sleep_for = (\<lambda>d (now, expiry, waits). Next (now + max 0 d, expiry, waits))\<rparr>"

lemma clock_documented: "timer_documented clock_timer (\<lambda>(now, expiry, waits). waits)"
  by (auto simp: timer_documented_def clock_timer_def split: clock_event.splits if_splits)


end
