(* ===== verification/Async.thy ===== *)
theory Async
  imports Await
begin

text \<open>
  \<^verbatim>\<open>include/co/async.hpp\<close>: \<^verbatim>\<open>async\<close>, which runs a function in a new routine on the event loop
  and returns a future for its result, and \<^verbatim>\<open>runOutsideOfCoroutine\<close>, which runs a function on
  the event loop outside of any coroutine while the calling coroutine awaits it. The function
  is a parameter: what it ends with. Awaiting is the machine of \<open>Await\<close>.
\<close>

section \<open>The job and its caller\<close>

text \<open>
  The posted job: not posted yet, in the queue of the event loop, in the function, behind it
  with what it ended with, and done. \<open>Direct\<close> and \<open>DirectDone\<close> are for the call of
  \<^verbatim>\<open>runOutsideOfCoroutine\<close> outside of coroutines, which calls the function itself.
\<close>

datatype 'v job =
  NotPosted | PostedJob | InFunc | FuncEnded "exception + 'v" | JobDone "exception + 'v"
  | Direct | DirectDone "exception + 'v"

text \<open>
  The caller's \<^verbatim>\<open>co::await\<close> on the future of the job. Its data is on the caller's stack in
  \<^verbatim>\<open>runOutsideOfCoroutine\<close> (\<open>on_stack\<close>), gone when the call has returned, and shared between
  promise and future in \<^verbatim>\<open>async\<close>.
\<close>

record 'v job_state =
  jcall :: "((nat, 'v) light_future, 'v) await_call"
  job :: "'v job"
  on_stack :: bool

definition has_returned :: "('s, 'r) await_call \<Rightarrow> bool" where
  "has_returned c = (case at c of AReturned r \<Rightarrow> True | _ \<Rightarrow> False)"

text \<open>
  The job: the event loop calls it, the function ends with \<open>r\<close>, and its value or exception
  completes the future, which resumes a suspended caller.
\<close>

definition job_moves :: "((nat, 'v) light_future, 'v) awaiter \<Rightarrow> exception + 'v \<Rightarrow> 'v job_state \<Rightarrow> 'v job_state outcome" where
  "job_moves a r s =
     (case job s of
        PostedJob \<Rightarrow> Next (s\<lparr>job := InFunc\<rparr>)
      | InFunc \<Rightarrow> Next (s\<lparr>job := FuncEnded r\<rparr>)
      | FuncEnded r' \<Rightarrow>
          (if on_stack s \<and> has_returned (jcall s) then Fault UseAfterFree
           else bind_outcome (await_step True a future_world (World r') (jcall s))
                  (\<lambda>c. Next (s\<lparr>jcall := c, job := JobDone r'\<rparr>)))
      | _ \<Rightarrow> Blocked)"

text \<open>The caller: it posts the job, or calls the function directly, and awaits.\<close>

definition caller_moves :: "((nat, 'v) light_future, 'v) awaiter \<Rightarrow> exception + 'v \<Rightarrow> 'v job_state \<Rightarrow> 'v job_state outcome" where
  "caller_moves a r s =
     (case job s of
        NotPosted \<Rightarrow> Next (s\<lparr>job := PostedJob\<rparr>)
      | Direct \<Rightarrow> Next (s\<lparr>job := DirectDone r, jcall := (jcall s)\<lparr>at := AReturned r\<rparr>\<rparr>)
      | _ \<Rightarrow> bind_outcome (co_await True a (jcall s)) (\<lambda>c. Next (s\<lparr>jcall := c\<rparr>)))"

text \<open>
  Both functions: \<^verbatim>\<open>async\<close> has made the promise when it posts the job, and its future is awaited
  inside of a coroutine or blocks a thread; \<^verbatim>\<open>runOutsideOfCoroutine\<close> looks whether it is called
  inside of a coroutine.
\<close>

definition async_call :: "bool \<Rightarrow> 'v job_state" where
  "async_call i = \<lparr>jcall = await_called i LightFutureData, job = NotPosted, on_stack = False\<rparr>"

definition runOutsideOfCoroutine :: "bool \<Rightarrow> 'v job_state" where
  "runOutsideOfCoroutine current =
     \<lparr>jcall = await_called current LightFutureData,
      job = (if current then NotPosted else Direct), on_stack = True\<rparr>"

datatype 'v job_event = CallerMove "exception + 'v" | JobMove "exception + 'v"

fun job_step :: "((nat, 'v) light_future, 'v) awaiter \<Rightarrow> ('v job_event, 'v job_state) machine" where
  "job_step a (CallerMove r) s = caller_moves a r s"
| "job_step a (JobMove r) s = job_moves a r s"

text \<open>The calls of the function and what they end with.\<close>

datatype 'v job_note = FuncCalled | FuncReturned "exception + 'v"

fun job_obs :: "'v job_event \<Rightarrow> 'v job_state \<Rightarrow> 'v job_note list" where
  "job_obs (CallerMove r) s = (if job s = Direct then [FuncCalled, FuncReturned r] else [])"
| "job_obs (JobMove r) s =
     (case job s of PostedJob \<Rightarrow> [FuncCalled] | InFunc \<Rightarrow> [FuncReturned r] | _ \<Rightarrow> [])"

section \<open>The invariant\<close>

text \<open>
  For the awaiter \<open>a\<close> and its contract: the future is completed by the last step of the job,
  with what the function ended with, and the log is the one call of the function.
\<close>

fun job_log :: "'v job \<Rightarrow> 'v job_note list" where
  "job_log NotPosted = []"
| "job_log PostedJob = []"
| "job_log Direct = []"
| "job_log InFunc = [FuncCalled]"
| "job_log (FuncEnded r) = [FuncCalled, FuncReturned r]"
| "job_log (JobDone r) = [FuncCalled, FuncReturned r]"
| "job_log (DirectDone r) = [FuncCalled, FuncReturned r]"

fun future_of_job :: "'v job \<Rightarrow> (nat, 'v) light_future \<Rightarrow> bool" where
  "future_of_job (JobDone r) f \<longleftrightarrow> is_ready f \<and> future_result f = r"
| "future_of_job j f \<longleftrightarrow> \<not> is_ready f"

fun call_of_job :: "'v job \<Rightarrow> ((nat, 'v) light_future, 'v) await_call \<Rightarrow> bool" where
  "call_of_job NotPosted c \<longleftrightarrow> at c = ACalled"
| "call_of_job Direct c \<longleftrightarrow> at c = ACalled"
| "call_of_job (DirectDone r) c \<longleftrightarrow> at c = AReturned r"
| "call_of_job j c \<longleftrightarrow> True"

fun indirect :: "'v job \<Rightarrow> bool" where
  "indirect Direct = False"
| "indirect (DirectDone r) = False"
| "indirect j = True"

fun call_rank :: "'r await_at \<Rightarrow> nat" where
  "call_rank ACalled = 4"
| "call_rank ALeaving = 3"
| "call_rank ASuspended = 2"
| "call_rank AResume = 1"
| "call_rank ASynchron = 1"
| "call_rank (AReturned r) = 0"

fun job_rank :: "'v job \<Rightarrow> nat" where
  "job_rank NotPosted = 4"
| "job_rank PostedJob = 3"
| "job_rank InFunc = 2"
| "job_rank (FuncEnded r) = 1"
| "job_rank Direct = 1"
| "job_rank j = 0"

definition job_left :: "'v job_state \<Rightarrow> nat" where
  "job_left s = call_rank (at (jcall s)) + job_rank (job s)"

text \<open>
  The awaiters that serve: they await the very future the job completes, and are used inside
  of a coroutine or can block.
\<close>

locale awaited_job =
  awaitable_contract a future_world own_future future_registered "\<lambda>f. True" is_ready future_result
  for a :: "((nat, 'v) light_future, 'v) awaiter" +
  fixes i :: bool
  assumes can_await: "i \<or> supportsSynchronAwait a"
    and suspends_future: "suspend_with a f = suspend 0 f"
    and synchron_same: "synchron a = Some g \<Longrightarrow> g f = Next (r, f') \<Longrightarrow> f' = f"
    and synchron_ready: "synchron a = Some g \<Longrightarrow> is_ready f \<Longrightarrow> \<exists>r. g f = Next (r, f)"
begin

definition job_inv :: "'v job_state \<Rightarrow> bool" where
  "job_inv s \<longleftrightarrow> call_of_job (job s) (jcall s) \<and>
     (indirect (job s) \<longrightarrow> call_ok (jcall s) \<and> inside (jcall s) = i \<and>
        future_of_job (job s) (target (jcall s)))"

lemma returned_result:
  "call_ok c \<Longrightarrow> inside c = i \<Longrightarrow> at c = AReturned r \<Longrightarrow> is_ready (target c) \<and> r = future_result (target c)"
  using can_await by (auto simp: call_ok_def)

lemma synchron_call_same: "synchron_call a f = Next (r, f') \<Longrightarrow> f' = f"
  using synchron_same by (auto simp: synchron_call_def split: option.splits)

lemma co_await_keeps:
  assumes "co_await True a c = Next c'"
  shows "is_ready (target c') = is_ready (target c)"
    and "is_ready (target c) \<Longrightarrow> future_result (target c') = future_result (target c)"
    and "call_rank (at c') < call_rank (at c)"
proof -
  have "(is_ready (target c') \<longleftrightarrow> is_ready (target c)) \<and>
    (is_ready (target c) \<longrightarrow> future_result (target c') = future_result (target c)) \<and>
    call_rank (at c') < call_rank (at c)"
    using assms
    by (cases "at c")
      (auto simp: co_await_def suspends_future suspend_def is_ready_def
        dest!: synchron_call_same split: if_splits handle.splits sum.splits)
  then show "is_ready (target c') = is_ready (target c)"
    and "is_ready (target c) \<Longrightarrow> future_result (target c') = future_result (target c)"
    and "call_rank (at c') < call_rank (at c)" by blast+
qed

lemma completion:
  assumes "await_step True a future_world (World r) c = Next c'"
  shows "is_ready (target c') \<and> future_result (target c') = r \<and> call_rank (at c') \<le> call_rank (at c)"
proof -
  obtain called where "future_world r (target c) = Next (called, target c')"
    and "call_rank (at c') \<le> call_rank (at c)"
    using assms by (auto split: if_splits)
  then show ?thesis
    by (cases r) (auto simp: future_world_def complete_on_ready on_ready_def is_ready_def future_result_def
      dest!: sym [of _ "target c'"] split: if_splits handle.splits)
qed

lemma caller_moves_inv:
  assumes "job_inv s"
  shows "safely (\<lambda>t. job_inv t \<and> job_left t < job_left s) (caller_moves a r s)"
proof (cases "job s = NotPosted \<or> \<not> indirect (job s)")
  case True
  with assms show ?thesis
    by (cases "job s") (auto simp: caller_moves_def job_inv_def job_left_def co_await_def)
next
  case False
  with assms have c: "call_ok (jcall s)" "inside (jcall s) = i" by (auto simp: job_inv_def)
  have k: "safely (\<lambda>t. call_ok t \<and> inside t = i) (co_await True a (jcall s))"
    using caller_call_ok [OF c(1)] can_await c(2) by auto
  show ?thesis
  proof (cases "co_await True a (jcall s)")
    case (Next c')
    with k have "call_ok c'" "inside c' = i" by auto
    with False assms co_await_keeps [OF Next] Next show ?thesis
      by (cases "job s") (auto simp: caller_moves_def job_inv_def job_left_def)
  qed (use k False in \<open>cases "job s"; auto simp: caller_moves_def\<close>)+
qed

lemma job_moves_inv:
  assumes "job_inv s"
  shows "safely (\<lambda>t. job_inv t \<and> job_left t < job_left s) (job_moves a r s)"
proof (cases "job s")
  case (FuncEnded r')
  with assms have c: "call_ok (jcall s)" "inside (jcall s) = i" "\<not> is_ready (target (jcall s))"
    by (auto simp: job_inv_def)
  then have n: "\<not> has_returned (jcall s)"
    using returned_result [OF c(1,2)] by (auto simp: has_returned_def split: await_at.splits)
  have k: "safely (\<lambda>t. call_ok t \<and> inside t = inside (jcall s)) (await_step True a future_world (World r') (jcall s))"
    by (rule world_call_ok [OF c(1)])
  show ?thesis
  proof (cases "await_step True a future_world (World r') (jcall s)")
    case (Next c')
    with k c(2) have "call_ok c'" "inside c' = i" by auto
    with completion [OF Next] Next n FuncEnded show ?thesis
      by (auto simp: job_moves_def job_inv_def job_left_def simp del: await_step.simps)
  qed (use k n FuncEnded in \<open>auto simp: job_moves_def simp del: await_step.simps\<close>)
qed (use assms in \<open>auto simp: job_moves_def job_inv_def job_left_def\<close>)

lemma job_step_inv: "job_inv s \<Longrightarrow> safely (\<lambda>t. job_inv t \<and> job_left t < job_left s) (job_step a e s)"
  by (cases e) (simp_all add: caller_moves_inv job_moves_inv)

lemma job_inv_start: "job_inv (async_call i)" "job_inv (async_call i\<lparr>on_stack := b\<rparr>)"
  by (simp_all add: job_inv_def async_call_def call_ok_def await_called_def own_future_def
      future_registered_def future_ok_def future_defs)

lemma ready_moves:
  assumes c: "call_ok c" "inside c = i" and r: "is_ready (target c)" and n: "\<not> has_returned c"
  shows "\<exists>c'. co_await True a c = Next c'"
proof (cases "at c")
  case ACalled
  with c(2) can_await show ?thesis by (auto simp: co_await_def)
next
  case ALeaving
  with c r show ?thesis by (simp add: co_await_def suspends_future suspend_def is_ready_def)
next
  case ASuspended
  with c(1) r show ?thesis by (simp add: call_ok_def future_registered_def is_ready_def)
next
  case AResume
  with c(1) have "resume_with a (target c) = Inr (future_result (target c))"
    by (intro resumes) (simp_all add: call_ok_def)
  with AResume show ?thesis by (simp add: co_await_def)
next
  case ASynchron
  with c can_await obtain g where g: "synchron a = Some g"
    by (auto simp: call_ok_def supportsSynchronAwait_def split: option.splits)
  from synchron_ready [OF g r] ASynchron g show ?thesis
    by (auto simp: co_await_def synchron_call_def)
next
  case (AReturned r)
  with n show ?thesis by (simp add: has_returned_def)
qed

lemma job_progress:
  assumes I: "job_inv s" and n: "\<not> has_returned (jcall s)"
  shows "\<exists>e t. job_step a e s = Next t"
proof -
  consider "job s = NotPosted \<or> job s = Direct" | "job s = PostedJob \<or> job s = InFunc"
    | r where "job s = FuncEnded r" | r where "job s = JobDone r" | r where "job s = DirectDone r"
    by (cases "job s") auto
  then show ?thesis
  proof cases
    case 1
    then have "\<exists>t. job_step a (CallerMove (Inl BadGet)) s = Next t" by (auto simp: caller_moves_def)
    then show ?thesis by blast
  next
    case 2
    then have "\<exists>t. job_step a (JobMove (Inl BadGet)) s = Next t" by (auto simp: job_moves_def)
    then show ?thesis by blast
  next
    case (3 r)
    then have "\<not> is_ready (target (jcall s))" using I by (simp add: job_inv_def)
    then have "job_step a (JobMove r) s \<noteq> Blocked"
      using 3 n by (auto simp: job_moves_def future_world_def bind_outcome_Blocked split: sum.splits)
    moreover have "job_step a (JobMove r) s \<noteq> Fault f" for f
      using safelyD(2) [OF job_step_inv [OF I]] .
    ultimately have "\<exists>t. job_step a (JobMove r) s = Next t"
      by (cases "job_step a (JobMove r) s") blast+
    then show ?thesis by blast
  next
    case (4 r)
    with I have "call_ok (jcall s)" "inside (jcall s) = i" "is_ready (target (jcall s))"
      by (auto simp: job_inv_def)
    from ready_moves [OF this n] 4 have "\<exists>t. job_step a (CallerMove r) s = Next t"
      by (auto simp: caller_moves_def)
    then show ?thesis by blast
  next
    case (5 r)
    with I n show ?thesis by (simp add: job_inv_def has_returned_def)
  qed
qed

end


sublocale awaited_job \<subseteq> runs: terminating "job_step a" "async_call i" job_inv
    "\<lambda>s. has_returned (jcall s)" job_left
proof
  show "job_inv (async_call i)" by (rule job_inv_start)
next
  fix e s
  show "job_inv s \<Longrightarrow> ensures job_inv (job_step a e s)"
    using job_step_inv [of s e] by (cases "job_step a e s") simp_all
next
  fix e s t
  show "job_inv s \<Longrightarrow> job_step a e s = Next t \<Longrightarrow> job_left t < job_left s"
    using job_step_inv [of s e] by simp
qed (rule job_progress)

interpretation outside_job: awaited_job light_future_awaiter True
  by unfold_locales simp_all

interpretation async_job: awaited_job future_awaiter i for i
  by unfold_locales
    (auto simp: supportsSynchronAwait_def get_unchecked_ready split: if_splits sum.splits)

section \<open>What the functions promise\<close>

lemma job_log_step: "job_step a e s = Next t \<Longrightarrow> job_log (job t) = job_log (job s) @ job_obs e s"
  by (cases e; cases "job s") (auto simp: caller_moves_def job_moves_def split: if_splits)

lemma job_log_run:
  "run (job_step a) es s = Next t \<Longrightarrow>
    job_log (job t) = job_log (job s) @ observe job_obs (job_step a) es s"
  by (induction es arbitrary: s) (auto dest: job_log_step)

lemma outside_start:
  "runOutsideOfCoroutine True = async_call True\<lparr>on_stack := True\<rparr>"
  by (simp add: runOutsideOfCoroutine_def async_call_def)

lemma starts_small: "job_left (async_call i\<lparr>on_stack := b\<rparr>) \<le> 8" "job_left (runOutsideOfCoroutine c) \<le> 8"
  "job_log (job (async_call i)) = []" "job_log (job (runOutsideOfCoroutine c)) = []"
  "job_left (async_call i) \<le> 8"
  by (simp_all add: job_left_def async_call_def runOutsideOfCoroutine_def await_called_def)

context awaited_job begin

lemma returned_log:
  "job_inv s \<Longrightarrow> at (jcall s) = AReturned r \<Longrightarrow> job_log (job s) = [FuncCalled, FuncReturned r]"
  using returned_result [of "jcall s" r] by (cases "job s") (auto simp: job_inv_def)

lemma direct_start: "job_inv (runOutsideOfCoroutine False)"
  by (simp add: job_inv_def runOutsideOfCoroutine_def await_called_def)

lemma job_promise:
  assumes "job_inv s0" "job_left s0 \<le> 8" "job_log (job s0) = []"
    and r: "run (job_step a) es s0 = Next t" and h: "h = observe job_obs (job_step a) es s0"
  shows "job_step a e t \<noteq> Fault f \<and>
    h \<in> {[], [FuncCalled]} \<union> (\<lambda>r. [FuncCalled, FuncReturned r]) ` UNIV \<and>
    (\<forall>r. at (jcall t) = AReturned r \<longrightarrow> h = [FuncCalled, FuncReturned r]) \<and>
    length es \<le> 8 \<and> (\<exists>fs u. run (job_step a) fs t = Next u \<and> has_returned (jcall u))"
proof -
  have t: "job_inv t" by (rule runs.along_run [OF assms(1) r])
  have "h = job_log (job t)" using job_log_run [OF r] assms(3) h by simp
  moreover have "job_log (job t) \<in> {[], [FuncCalled]} \<union> (\<lambda>r. [FuncCalled, FuncReturned r]) ` UNIV"
    by (cases "job t") auto
  moreover have "job_step a e t \<noteq> Fault f" by (rule safelyD(2) [OF job_step_inv [OF t]])
  moreover have "length es \<le> 8" using runs.bounded [OF assms(1) r] assms(2) by simp
  ultimately show ?thesis using returned_log [OF t] runs.completes [OF t] by blast
qed

end



end
