(* ===== verification/Networking.thy ===== *)
theory Networking
  imports Await
begin

text \<open>
  \<^verbatim>\<open>YieldTo\<close> of \<^verbatim>\<open>include/co/yieldto.hpp\<close>, the object that turns an asynchronous operation of
  Boost.Asio into a call that returns when the operation has ended, and the sockets,
  acceptors and resolvers of \<^verbatim>\<open>include/co/networking.hpp\<close> that are built with it. The
  operations of Boost.Asio are parameters: what they hand to their handlers.
\<close>

section \<open>YieldTo\<close>

text \<open>
  The coroutine that makes a \<^verbatim>\<open>YieldTo\<close>: before the asynchronous operation has been started,
  in the destructor's \<^verbatim>\<open>co::await(p)\<close> (its test, its suspension, suspended, and about to
  resume), and behind it. The handler: not there yet, waiting to be called by the event
  loop, between its assignment and its \<^verbatim>\<open>set_value\<close>, and done, with its arguments.
\<close>

datatype yield_pc = Starting | Destroying | Suspending | Suspended | Resuming | Continued

datatype 'a handler_pc = NotStarted | HandlerPending | Assigned 'a | HandlerDone 'a

record 'a yield_to =
  yp :: "(nat, unit) light_future"
  args :: 'a
  ypc :: yield_pc
  hpc :: "'a handler_pc"

definition YieldTo :: "'a \<Rightarrow> 'a yield_to" where
  "YieldTo vars = \<lparr>yp = LightFutureData, args = vars, ypc = Starting, hpc = NotStarted\<rparr>"

text \<open>\<^verbatim>\<open>Ref::operator()\<close>, in two steps; the \<^verbatim>\<open>YieldTo\<close> it points to has to exist.\<close>

definition ref_step :: "'a \<Rightarrow> 'a yield_to \<Rightarrow> 'a yield_to outcome" where
  "ref_step v s =
     (case hpc s of
        HandlerPending \<Rightarrow>
          (if ypc s = Continued then Fault UseAfterFree else Next (s\<lparr>args := v, hpc := Assigned v\<rparr>))
      | Assigned w \<Rightarrow>
          (if ypc s = Continued then Fault UseAfterFree
           else case set_value () (yp s) of
                  Inl e \<Rightarrow> Fault e
                | Inr (None, f) \<Rightarrow> Next (s\<lparr>yp := f, hpc := HandlerDone w\<rparr>)
                | Inr (Some k, f) \<Rightarrow> Next (s\<lparr>yp := f, hpc := HandlerDone w, ypc := Resuming\<rparr>))
      | _ \<Rightarrow> Blocked)"

text \<open>The coroutine: it starts the operation, and the temporary's destructor awaits \<^verbatim>\<open>p\<close>.\<close>

definition yield_await :: "'a yield_to \<Rightarrow> 'a yield_to outcome" where
  "yield_await s =
     (case ypc s of
        Starting \<Rightarrow> Next (s\<lparr>ypc := Destroying, hpc := HandlerPending\<rparr>)
      | Destroying \<Rightarrow> Next (s\<lparr>ypc := (if await_ready (yp s) then Resuming else Suspending)\<rparr>)
      | Suspending \<Rightarrow>
          (case await_suspend 0 (yp s) of
             Inl e \<Rightarrow> Fault e
           | Inr (True, f) \<Rightarrow> Next (s\<lparr>yp := f, ypc := Suspended\<rparr>)
           | Inr (False, f) \<Rightarrow> Next (s\<lparr>yp := f, ypc := Resuming\<rparr>))
      | Resuming \<Rightarrow>
          (case get_unchecked_stateless (yp s) of
             Inl e \<Rightarrow> Fault e
           | Inr (Inl ex) \<Rightarrow> Fault (AssertFailed ''~YieldTo'')
           | Inr (Inr u) \<Rightarrow> Next (s\<lparr>ypc := Continued\<rparr>))
      | _ \<Rightarrow> Blocked)"

datatype 'a yield_event = CallerMoves | HandlerMoves 'a

fun yield_step :: "('a yield_event, 'a yield_to) machine" where
  "yield_step CallerMoves s = yield_await s"
| "yield_step (HandlerMoves v) s = ref_step v s"

definition waiting_for :: "(nat, unit) light_future \<Rightarrow> 'a handler_pc \<Rightarrow> 'a \<Rightarrow> bool" where
  "waiting_for f h a \<longleftrightarrow> (h = HandlerPending \<or> h = Assigned a) \<and> \<not> is_ready f \<and> val f = Unset"

definition served :: "(nat, unit) light_future \<Rightarrow> 'a handler_pc \<Rightarrow> 'a \<Rightarrow> bool" where
  "served f h a \<longleftrightarrow> h = HandlerDone a \<and> f = LightFutureData_of ()"

fun yield_ok :: "yield_pc \<Rightarrow> (nat, unit) light_future \<Rightarrow> 'a handler_pc \<Rightarrow> 'a \<Rightarrow> bool" where
  "yield_ok Starting f h a \<longleftrightarrow> h = NotStarted \<and> f = LightFutureData"
| "yield_ok Destroying f h a \<longleftrightarrow> served f h a \<or> waiting_for f h a \<and> continuationPtr f = EmptyHandle"
| "yield_ok Suspending f h a \<longleftrightarrow> served f h a \<or> waiting_for f h a \<and> continuationPtr f = EmptyHandle"
| "yield_ok Suspended f h a \<longleftrightarrow> waiting_for f h a \<and> continuationPtr f = Handle 0"
| "yield_ok Resuming f h a \<longleftrightarrow> served f h a"
| "yield_ok Continued f h a \<longleftrightarrow> served f h a"

definition yield_inv :: "'a yield_to \<Rightarrow> bool" where
  "yield_inv s \<longleftrightarrow> yield_ok (ypc s) (yp s) (hpc s) (args s)"

fun caller_rank :: "yield_pc \<Rightarrow> nat" where
  "caller_rank Starting = 8"
| "caller_rank Destroying = 4"
| "caller_rank Suspending = 3"
| "caller_rank Suspended = 2"
| "caller_rank Resuming = 1"
| "caller_rank Continued = 0"

fun handler_rank :: "'a handler_pc \<Rightarrow> nat" where
  "handler_rank NotStarted = 0"
| "handler_rank HandlerPending = 2"
| "handler_rank (Assigned v) = 1"
| "handler_rank (HandlerDone v) = 0"

definition yield_left :: "'a yield_to \<Rightarrow> nat" where
  "yield_left s = caller_rank (ypc s) + handler_rank (hpc s)"

lemma ref_step_inv: "yield_inv s \<Longrightarrow> safely (\<lambda>t. yield_inv t \<and> yield_left t < yield_left s) (ref_step v s)"
  by (cases "ypc s"; cases "hpc s")
    (auto simp: ref_step_def yield_inv_def yield_left_def waiting_for_def served_def future_defs)

lemma yield_await_inv: "yield_inv s \<Longrightarrow> safely (\<lambda>t. yield_inv t \<and> yield_left t < yield_left s) (yield_await s)"
  by (cases "ypc s"; cases "hpc s")
    (auto simp: yield_await_def yield_inv_def yield_left_def waiting_for_def served_def future_defs)

lemma yield_step_inv: "yield_inv s \<Longrightarrow> safely (\<lambda>t. yield_inv t \<and> yield_left t < yield_left s) (yield_step e s)"
  by (cases e) (simp_all add: ref_step_inv yield_await_inv)

lemma safely_mono: "safely P r \<Longrightarrow> (\<And>t. P t \<Longrightarrow> Q t) \<Longrightarrow> safely Q r"
  by (cases r) simp_all

lemma YieldTo_inv: "yield_inv (YieldTo vars)"
  by (simp add: yield_inv_def YieldTo_def)

lemma yield_step_safe: "yield_inv s \<Longrightarrow> safely yield_inv (yield_step e s)"
  using yield_step_inv [of s e] by (rule safely_mono) simp_all

interpretation yield: safe_invariant yield_step "YieldTo vars" yield_inv
  by unfold_locales (simp_all add: YieldTo_inv yield_step_safe safelyD(1) del: yield_step.simps)

interpretation yield_run: terminating yield_step "YieldTo vars" yield_inv "\<lambda>s. ypc s = Continued" yield_left
proof
  fix s :: "'a yield_to"
  assume I: "yield_inv s" and n: "ypc s \<noteq> Continued"
  show "\<exists>e t. yield_step e s = Next t"
  proof (cases "ypc s = Suspended")
    case True
    with I have "\<exists>t. yield_step (HandlerMoves (args s)) s = Next t"
      by (auto simp: yield_inv_def waiting_for_def ref_step_def future_defs)
    then show ?thesis by blast
  next
    case False
    with I n have "\<exists>t. yield_step CallerMoves s = Next t"
      by (cases "ypc s") (auto simp: yield_inv_def yield_await_def waiting_for_def served_def future_defs)
    then show ?thesis by blast
  qed
next
  fix s t :: "'a yield_to" and e
  assume I: "yield_inv s" and "yield_step e s = Next t"
  with yield_step_inv [OF I, of e] show "yield_left t < yield_left s" by simp
qed

text \<open>
  C30. \<^verbatim>\<open>YieldTo\<close> turns an asynchronous operation into a call. Whether the handler runs before
  the coroutine suspends itself, while it does, or later: the handler never uses a destroyed
  object and nothing is set twice; when the coroutine goes on, the handler has run, and the
  variables hold its arguments; and it goes on, within 8 steps from the start of the
  operation, once the handler has been called.
\<close>

theorem yield_to_returns_arguments:
  assumes "run yield_step es (YieldTo vars) = Next t"
  shows "yield_step e t \<noteq> Fault f \<and> (ypc t = Continued \<longrightarrow> hpc t = HandlerDone (args t)) \<and>
    length es \<le> 8 \<and> (\<exists>fs u. run yield_step fs t = Next u \<and> ypc u = Continued)"
proof -
  have inv: "yield_inv t" by (rule yield.along_run [OF yield.init assms])
  have "yield_step e t \<noteq> Fault f" by (rule safelyD(2) [OF yield.safe [OF inv]])
  moreover have "ypc t = Continued \<longrightarrow> hpc t = HandlerDone (args t)"
    using inv by (auto simp: yield_inv_def served_def)
  moreover have "length es \<le> 8"
    using yield_run.bounded [OF yield.init assms] by (simp add: yield_left_def YieldTo_def)
  ultimately show ?thesis using yield_run.completes [OF inv] by blast
qed

lemma yield_to_returns_arguments_witness:
  "\<exists>t. run yield_step [CallerMoves, CallerMoves, HandlerMoves (5::nat), CallerMoves, HandlerMoves 0, CallerMoves] (YieldTo 0) = Next t \<and>
     ypc t = Continued \<and> args t = 5 \<and> hpc t = HandlerDone 5"
proof -
  obtain t where t: "run yield_step [CallerMoves, CallerMoves, HandlerMoves (5::nat), CallerMoves, HandlerMoves 0, CallerMoves] (YieldTo 0) = Next t"
    "ypc t = Continued" "args t = 5"
    by (simp add: YieldTo_def yield_await_def ref_step_def future_defs)
  from yield_to_returns_arguments [OF t(1)] t show ?thesis by auto
qed

text \<open>
  What the operations below rest on: if the event loop calls the handler with \<open>v\<close>, the call has
  returned with the variables set to \<open>v\<close>.
\<close>

lemma handler_done_with:
  assumes "run yield_step es s = Next t" "{w. HandlerMoves w \<in> set es} \<subseteq> {v}"
    and "hpc s = NotStarted \<or> hpc s = HandlerPending \<or> hpc s = Assigned v \<or> hpc s = HandlerDone v"
  shows "hpc t = NotStarted \<or> hpc t = HandlerPending \<or> hpc t = Assigned v \<or> hpc t = HandlerDone v"
  using assms
proof (induction es arbitrary: s)
  case (Cons e es)
  from Cons.prems(1) obtain u where u: "yield_step e s = Next u" "run yield_step es u = Next t" by auto
  have "hpc u = NotStarted \<or> hpc u = HandlerPending \<or> hpc u = Assigned v \<or> hpc u = HandlerDone v"
  proof (cases e)
    case CallerMoves
    then show ?thesis using u(1) Cons.prems(3)
      by (cases "ypc s") (auto simp: yield_await_def split: sum.splits if_splits bool.splits)
  next
    case (HandlerMoves w)
    then have "w = v" using Cons.prems(2) by auto
    with HandlerMoves show ?thesis using u(1) Cons.prems(3)
      by (cases "hpc s") (auto simp: ref_step_def split: sum.splits if_splits option.splits)
  qed
  with Cons.IH [OF u(2)] Cons.prems(2) show ?case by auto
qed simp

lemma yield_gives_the_operation:
  assumes "run yield_step es (YieldTo vars) = Next t" "{w. HandlerMoves w \<in> set es} \<subseteq> {v}" "ypc t = Continued"
  shows "args t = v"
proof -
  have "hpc t = HandlerDone (args t)"
    using yield.along_run [OF yield.init assms(1)] assms(3) by (simp add: yield_inv_def served_def)
  with handler_done_with [OF assms(1,2)] show ?thesis by (auto simp: YieldTo_def)
qed


section \<open>Sockets, acceptors and resolvers\<close>

text \<open>
  What the operations of the parent class do: the arguments of the handler of each
  asynchronous operation, and the results of the two synchronous ones that \<^verbatim>\<open>read_some\<close> calls
  (\<^verbatim>\<open>io_control\<close> may throw). Buffers and endpoints are any types.
\<close>

record ('b, 'e) asio_socket =
  async_connect :: "'e \<Rightarrow> error_code"
  io_control :: "exception + nat"
  read_some_now :: "'b \<Rightarrow> error_code \<times> nat"
  async_read_some :: "'b \<Rightarrow> error_code \<times> nat"
  async_write_some :: "'b \<Rightarrow> error_code \<times> nat"
  async_send :: "'b \<Rightarrow> nat \<Rightarrow> error_code \<times> nat"
  async_receive :: "'b \<Rightarrow> error_code \<times> nat"
  async_receive_flags :: "'b \<Rightarrow> nat \<Rightarrow> error_code \<times> nat"
  async_wait :: "nat \<Rightarrow> error_code"

text \<open>
  The functions with an \<^verbatim>\<open>error_code\<close> parameter return its final value and their result; the
  others throw. By \<open>yield_gives_the_operation\<close> a call with \<^verbatim>\<open>*yieldTo(...)\<close> leaves the arguments
  of the handler in the variables.
\<close>

definition socket_connect_ec :: "('b, 'e) asio_socket \<Rightarrow> 'e \<Rightarrow> exception + error_code \<times> unit" where
  "socket_connect_ec P ep = (let ec = async_connect P ep in Inr (ec, ()))"

definition socket_connect :: "('b, 'e) asio_socket \<Rightarrow> 'e \<Rightarrow> exception + unit" where
  "socket_connect P ep =
     (case socket_connect_ec P ep of
        Inl x \<Rightarrow> Inl x
      | Inr (error, u) \<Rightarrow> throwError error ''connect'')"

definition socket_read_some_ec :: "('b, 'e) asio_socket \<Rightarrow> 'b \<Rightarrow> exception + error_code \<times> nat" where
  "socket_read_some_ec P buffers =
     (case io_control P of
        Inl x \<Rightarrow> Inl x
      | Inr bytesReadable \<Rightarrow>
          if bytesReadable \<noteq> 0 then Inr (read_some_now P buffers)
          else Inr (async_read_some P buffers))"

definition socket_read_some :: "('b, 'e) asio_socket \<Rightarrow> 'b \<Rightarrow> exception + nat" where
  "socket_read_some P buffers =
     (case socket_read_some_ec P buffers of
        Inl x \<Rightarrow> Inl x
      | Inr (error, res) \<Rightarrow> (case throwError error ''read_some'' of Inl x \<Rightarrow> Inl x | Inr u \<Rightarrow> Inr res))"

definition socket_write_some_ec :: "('b, 'e) asio_socket \<Rightarrow> 'b \<Rightarrow> exception + error_code \<times> nat" where
  "socket_write_some_ec P buffers = Inr (async_write_some P buffers)"

definition socket_write_some :: "('b, 'e) asio_socket \<Rightarrow> 'b \<Rightarrow> exception + nat" where
  "socket_write_some P buffers =
     (case socket_write_some_ec P buffers of
        Inl x \<Rightarrow> Inl x
      | Inr (error, res) \<Rightarrow> (case throwError error ''write_some'' of Inl x \<Rightarrow> Inl x | Inr u \<Rightarrow> Inr res))"

text \<open>The three overloads of \<^verbatim>\<open>send\<close>, from the last to the first.\<close>

definition socket_send_ec :: "('b, 'e) asio_socket \<Rightarrow> 'b \<Rightarrow> nat \<Rightarrow> exception + error_code \<times> nat" where
  "socket_send_ec P buffers flags =
     (case async_send P buffers flags of (ec, bytesTransferred) \<Rightarrow>
        (case throwError ec ''send'' of Inl x \<Rightarrow> Inl x | Inr u \<Rightarrow> Inr (ec, bytesTransferred)))"

definition socket_send_flags :: "('b, 'e) asio_socket \<Rightarrow> 'b \<Rightarrow> nat \<Rightarrow> exception + nat" where
  "socket_send_flags P buffers flags =
     (case socket_send_ec P buffers 0 of
        Inl x \<Rightarrow> Inl x
      | Inr (error, res) \<Rightarrow> (case throwError error ''send'' of Inl x \<Rightarrow> Inl x | Inr u \<Rightarrow> Inr res))"

definition socket_send :: "('b, 'e) asio_socket \<Rightarrow> 'b \<Rightarrow> exception + nat" where
  "socket_send P buffers = socket_send_flags P buffers 0"

definition socket_receive :: "('b, 'e) asio_socket \<Rightarrow> 'b \<Rightarrow> exception + nat" where
  "socket_receive P buffers =
     (case async_receive P buffers of (ec, bytesTransferred) \<Rightarrow>
        (case throwError ec ''receive'' of Inl x \<Rightarrow> Inl x | Inr u \<Rightarrow> Inr bytesTransferred))"

definition socket_receive_flags_ec :: "('b, 'e) asio_socket \<Rightarrow> 'b \<Rightarrow> nat \<Rightarrow> exception + error_code \<times> nat" where
  "socket_receive_flags_ec P buffers flags = Inr (async_receive_flags P buffers flags)"

definition socket_receive_flags :: "('b, 'e) asio_socket \<Rightarrow> 'b \<Rightarrow> nat \<Rightarrow> exception + nat" where
  "socket_receive_flags P buffers flags =
     (case socket_receive_flags_ec P buffers flags of
        Inl x \<Rightarrow> Inl x
      | Inr (ec, bytesTransferred) \<Rightarrow>
          (case throwError ec ''receive'' of Inl x \<Rightarrow> Inl x | Inr u \<Rightarrow> Inr bytesTransferred))"

definition socket_wait_ec :: "('b, 'e) asio_socket \<Rightarrow> nat \<Rightarrow> exception + error_code \<times> unit" where
  "socket_wait_ec P w = (let ec = async_wait P w in Inr (ec, ()))"

definition socket_wait :: "('b, 'e) asio_socket \<Rightarrow> nat \<Rightarrow> exception + unit" where
  "socket_wait P w =
     (case socket_wait_ec P w of Inl x \<Rightarrow> Inl x | Inr (ec, u) \<Rightarrow> throwError ec ''wait'')"

text \<open>
  Acceptors: the asynchronous operation, applied to the peer and, in the second pair of
  overloads, to the variable for its endpoint. Resolvers: to a query or an endpoint.
\<close>

definition acceptor_accept_ec :: "('p \<Rightarrow> error_code) \<Rightarrow> 'p \<Rightarrow> exception + error_code \<times> unit" where
  "acceptor_accept_ec async_accept peer = (let ec = async_accept peer in Inr (ec, ()))"

definition acceptor_accept :: "('p \<Rightarrow> error_code) \<Rightarrow> 'p \<Rightarrow> exception + unit" where
  "acceptor_accept async_accept peer =
     (case acceptor_accept_ec async_accept peer of
        Inl x \<Rightarrow> Inl x | Inr (ec, u) \<Rightarrow> throwError ec ''accept'')"

definition acceptor_accept_endpoint_ec :: "('p \<Rightarrow> error_code \<times> 'e) \<Rightarrow> 'p \<Rightarrow> exception + error_code \<times> 'e" where
  "acceptor_accept_endpoint_ec async_accept peer = Inr (async_accept peer)"

definition acceptor_accept_endpoint :: "('p \<Rightarrow> error_code \<times> 'e) \<Rightarrow> 'p \<Rightarrow> exception + 'e" where
  "acceptor_accept_endpoint async_accept peer =
     (case acceptor_accept_endpoint_ec async_accept peer of
        Inl x \<Rightarrow> Inl x
      | Inr (ec, ep) \<Rightarrow> (case throwError ec ''accept'' of Inl x \<Rightarrow> Inl x | Inr u \<Rightarrow> Inr ep))"

definition resolver_resolve_ec :: "('q \<Rightarrow> error_code \<times> 'i) \<Rightarrow> 'q \<Rightarrow> exception + error_code \<times> 'i" where
  "resolver_resolve_ec async_resolve q = Inr (async_resolve q)"

definition resolver_resolve :: "('q \<Rightarrow> error_code \<times> 'i) \<Rightarrow> 'q \<Rightarrow> exception + 'i" where
  "resolver_resolve async_resolve q =
     (case resolver_resolve_ec async_resolve q of
        Inl x \<Rightarrow> Inl x
      | Inr (ec, it) \<Rightarrow> (case throwError ec ''resolve'' of Inl x \<Rightarrow> Inl x | Inr u \<Rightarrow> Inr it))"

definition resolver_resolve_endpoint_ec :: "('e \<Rightarrow> error_code \<times> 'i) \<Rightarrow> 'e \<Rightarrow> exception + error_code \<times> 'i" where
  "resolver_resolve_endpoint_ec async_resolve e = Inr (async_resolve e)"

definition resolver_resolve_endpoint :: "('e \<Rightarrow> error_code \<times> 'i) \<Rightarrow> 'e \<Rightarrow> exception + 'i" where
  "resolver_resolve_endpoint async_resolve e =
     (case resolver_resolve_endpoint_ec async_resolve e of
        Inl x \<Rightarrow> Inl x
      | Inr (ec, it) \<Rightarrow> (case throwError ec ''resolve'' of Inl x \<Rightarrow> Inl x | Inr u \<Rightarrow> Inr it))"

text \<open>
  How an overload that throws follows from one with an error code: it throws what that
  throws, else the error, with the name of the operation, else it returns the result.
\<close>

definition checked :: "string \<Rightarrow> exception + error_code \<times> 'r \<Rightarrow> exception + 'r" where
  "checked name r =
     (case r of
        Inl x \<Rightarrow> Inl x
      | Inr (ec, v) \<Rightarrow> if ec = 0 then Inr v else Inl (SystemError ec name))"

lemmas networking_defs = throwError_def checked_def
  socket_connect_ec_def socket_connect_def socket_read_some_ec_def socket_read_some_def
  socket_write_some_ec_def socket_write_some_def socket_send_ec_def socket_send_flags_def socket_send_def
  socket_receive_def socket_receive_flags_ec_def socket_receive_flags_def socket_wait_ec_def socket_wait_def
  acceptor_accept_ec_def acceptor_accept_def acceptor_accept_endpoint_ec_def acceptor_accept_endpoint_def
  resolver_resolve_ec_def resolver_resolve_def resolver_resolve_endpoint_ec_def resolver_resolve_endpoint_def

text \<open>
  Errors of the network operations. The overloads that throw do what the overloads with an
  error code do, and throw its error under their own name; an error code that is not 0 never
  gets lost. The exceptions are the overloads of \<^verbatim>\<open>send\<close>: that with an error code throws the
  error as well, and that with flags sends without them.
\<close>

lemma network_errors:
  "socket_connect P ep = checked ''connect'' (socket_connect_ec P ep) \<and>
   socket_read_some P b = checked ''read_some'' (socket_read_some_ec P b) \<and>
   socket_write_some P b = checked ''write_some'' (socket_write_some_ec P b) \<and>
   socket_receive P b = checked ''receive'' (Inr (async_receive P b)) \<and>
   socket_receive_flags P b fl = checked ''receive'' (socket_receive_flags_ec P b fl) \<and>
   socket_wait P w = checked ''wait'' (socket_wait_ec P w) \<and>
   acceptor_accept acc peer = checked ''accept'' (acceptor_accept_ec acc peer) \<and>
   acceptor_accept_endpoint acc2 peer = checked ''accept'' (acceptor_accept_endpoint_ec acc2 peer) \<and>
   resolver_resolve res q = checked ''resolve'' (resolver_resolve_ec res q) \<and>
   resolver_resolve_endpoint rese ep' = checked ''resolve'' (resolver_resolve_endpoint_ec rese ep') \<and>
   socket_send_flags P b fl = checked ''send'' (Inr (async_send P b 0)) \<and>
   (socket_send_ec P b fl = Inr (async_send P b fl) \<longleftrightarrow> fst (async_send P b fl) = 0)"
  by (intro conjI; auto simp: networking_defs Let_def split: sum.splits prod.splits)

end
