(* ===== verification/Executor.thy ===== *)
theory Executor
  imports Prelude Complex_Main
begin

text \<open>
  The default event loop and \<^verbatim>\<open>IoContextThreads\<close> of \<^verbatim>\<open>include/co/executor.hpp\<close>: an object that keeps an event loop working
  and runs it in a number of threads, which it joins when it is destroyed. Of the event loop
  the model has the number of \<^verbatim>\<open>work\<close> objects, which keep \<^verbatim>\<open>run()\<close> from returning, and
  whether it is stopped; of a thread, whether it is joinable.
\<close>

section \<open>The default event loop\<close>

text \<open>
  An event loop by its number; \<open>0\<close> is the static one of \<^verbatim>\<open>defaultIoContextProvider()\<close>. The state is
  the static \<^verbatim>\<open>provider\<close> of \<^verbatim>\<open>currentIoContextProvider()\<close>; \<open>None\<close> is an empty \<^verbatim>\<open>std::function\<close>,
  which throws \<^verbatim>\<open>bad_function_call\<close> when it is called.
\<close>

type_synonym io_context = nat

type_synonym provider = "(unit \<Rightarrow> io_context) option"

definition defaultIoContextProvider :: "unit \<Rightarrow> io_context" where
  "defaultIoContextProvider u = 0"

definition currentIoContextProvider :: provider where
  "currentIoContextProvider = Some defaultIoContextProvider"

definition setDefaultIoContextProvider :: "provider \<Rightarrow> provider \<Rightarrow> provider" where
  "setDefaultIoContextProvider ioContextProvider current = ioContextProvider"

definition defaultIoContext :: "provider \<Rightarrow> exception + io_context" where
  "defaultIoContext current =
     (case current of None \<Rightarrow> Inl (RuntimeError ''bad_function_call'') | Some f \<Rightarrow> Inr (f ()))"

text \<open>\<^verbatim>\<open>Routine::currentIoContext()\<close>: the event loop of the current coroutine, if there is one.\<close>

definition currentIoContext :: "io_context option \<Rightarrow> provider \<Rightarrow> exception + io_context" where
  "currentIoContext currentCoro current =
     (case currentCoro of Some mContext \<Rightarrow> Inr mContext | None \<Rightarrow> defaultIoContext current)"

lemma current_event_loop:
  "currentIoContext (Some c) p = Inr c"
  "currentIoContext None currentIoContextProvider = Inr 0"
  "currentIoContext None (fold setDefaultIoContextProvider (ps @ [Some f]) p) = Inr (f ())"
  by (simp_all add: currentIoContext_def defaultIoContext_def currentIoContextProvider_def
      defaultIoContextProvider_def setDefaultIoContextProvider_def)

section \<open>The object\<close>

record io_threads =
  mIosWork :: bool
  mThreads :: "bool list"

record io_pool =
  works :: nat
  stopped :: bool
  object :: "nat \<Rightarrow> io_threads option"

definition IoContextThreads :: "nat \<Rightarrow> nat \<Rightarrow> io_pool \<Rightarrow> io_pool" where
  "IoContextThreads i cnt s =
     s\<lparr>works := works s + 1, stopped := False,
       object := (object s)(i \<mapsto> \<lparr>mIosWork = True, mThreads = replicate cnt True\<rparr>)\<rparr>"

text \<open>
  The number of threads for a percentage: \<^verbatim>\<open>static_cast<int>\<close> truncates towards zero. The
  product is computed exactly here and in floating point in the code.
\<close>

definition usePercentageOfHardwareThreads :: "nat \<Rightarrow> rat \<Rightarrow> nat" where
  "usePercentageOfHardwareThreads hardware_concurrency percent =
     (let x = of_nat hardware_concurrency * percent / 100;
          hwThreads = (if x < 0 then \<lceil>x\<rceil> else \<lfloor>x\<rfloor>)
      in nat (max 1 hwThreads))"

definition size_of_pool :: "io_threads \<Rightarrow> nat" where
  "size_of_pool o' = length (mThreads o')"

text \<open>\<^verbatim>\<open>std::thread::join\<close> for one thread after the other; it throws for one that is not joinable.\<close>

fun join_each :: "bool list \<Rightarrow> exception option \<times> bool list" where
  "join_each [] = (None, [])"
| "join_each (True # ts) = (case join_each ts of (e, ts') \<Rightarrow> (e, False # ts'))"
| "join_each (False # ts) = (Some (SystemError 22 ''join''), False # ts)"

text \<open>
  \<^verbatim>\<open>joinAll\<close> gives up the object's work. A join waits for \<^verbatim>\<open>run()\<close> to return, which it does not
  while there is other work.
\<close>

definition joinAll :: "nat \<Rightarrow> io_pool \<Rightarrow> (exception option \<times> io_pool) outcome" where
  "joinAll i s =
     (case object s i of
        None \<Rightarrow> Fault UseAfterFree
      | Some p \<Rightarrow>
          let w = (if mIosWork p then works s - 1 else works s) in
          if 0 < w \<and> True \<in> set (mThreads p) then Blocked
          else case join_each (mThreads p) of (e, ts) \<Rightarrow>
            Next (e, s\<lparr>works := w, object := (object s)(i \<mapsto> \<lparr>mIosWork = False, mThreads = ts\<rparr>)\<rparr>))"

text \<open>The destructor, which must not throw.\<close>

definition threads_destroy :: "nat \<Rightarrow> io_pool \<Rightarrow> io_pool outcome" where
  "threads_destroy i s =
     bind_outcome (joinAll i s)
       (\<lambda>(e, s). case e of
          Some x \<Rightarrow> Fault Terminated
        | None \<Rightarrow> Next (s\<lparr>object := (object s)(i := None)\<rparr>))"

text \<open>
  The defaulted move constructor: the vector of the old object is left empty, while
  \<^verbatim>\<open>boost::optional\<close> leaves a copy of the work in it.
\<close>

definition threads_move :: "nat \<Rightarrow> nat \<Rightarrow> io_pool \<Rightarrow> io_pool outcome" where
  "threads_move i j s =
     (case object s i of
        None \<Rightarrow> Fault UseAfterFree
      | Some p \<Rightarrow>
          Next (s\<lparr>works := (if mIosWork p then works s + 1 else works s),
                  object := (object s)(j \<mapsto> p, i \<mapsto> p\<lparr>mThreads := []\<rparr>)\<rparr>))"

datatype pool_event = Create nat nat | JoinAll nat | MoveTo nat nat | Destroy nat

fun pool_step :: "(pool_event, io_pool) machine" where
  "pool_step (Create i cnt) s = (if object s i = None then Next (IoContextThreads i cnt s) else Blocked)"
| "pool_step (JoinAll i) s =
     (if object s i = None then Blocked else bind_outcome (joinAll i s) (\<lambda>(e, s). Next s))"
| "pool_step (MoveTo i j) s =
     (if object s i = None \<or> object s j \<noteq> None then Blocked else threads_move i j s)"
| "pool_step (Destroy i) s = (if object s i = None then Blocked else threads_destroy i s)"

definition pool_init :: "bool \<Rightarrow> io_pool" where
  "pool_init st = \<lparr>works = 0, stopped = st, object = Map.empty\<rparr>"

section \<open>The invariant\<close>

definition working :: "io_pool \<Rightarrow> nat set" where
  "working s = {i. \<exists>p. object s i = Some p \<and> mIosWork p}"

text \<open>
  The work objects are counted; the threads of an object are joinable as long as it has its
  work, and joined together.
\<close>

definition pool_inv :: "io_pool \<Rightarrow> bool" where
  "pool_inv s \<longleftrightarrow> finite (working s) \<and> works s = card (working s) \<and>
     (\<forall>i p. object s i = Some p \<longrightarrow> set (mThreads p) \<subseteq> {mIosWork p})"

lemma join_each_joinable: "False \<notin> set ts \<Longrightarrow> join_each ts = (None, replicate (length ts) False)"
proof (induction ts)
  case (Cons t ts)
  then show ?case by (cases t) simp_all
qed simp

lemma join_each_joined: "set ts \<subseteq> {False} \<Longrightarrow> join_each ts = (if ts = [] then None else Some (SystemError 22 ''join''), ts)"
  by (cases ts) auto

lemma working_upd:
  "working (s\<lparr>works := w, object := (object s)(i \<mapsto> p)\<rparr>) =
     (if mIosWork p then insert i (working s) else working s - {i})"
  by (auto simp: working_def)

text \<open>What joining does in a state of the invariant.\<close>

lemma joinAll_cases:
  assumes I: "pool_inv s" and p: "object s i = Some p"
  shows "joinAll i s =
    (if mIosWork p \<and> working s \<noteq> {i} \<and> mThreads p \<noteq> [] then Blocked
     else Next (if \<not> mIosWork p \<and> mThreads p \<noteq> [] then Some (SystemError 22 ''join'') else None,
       s\<lparr>works := card (working s - {i}),
         object := (object s)(i \<mapsto> \<lparr>mIosWork = False, mThreads = replicate (length (mThreads p)) False\<rparr>)\<rparr>))"
proof -
  have fin: "finite (working s)" and w: "works s = card (working s)"
    and t: "set (mThreads p) \<subseteq> {mIosWork p}"
    using I p by (auto simp: pool_inv_def)
  have m: "i \<in> working s \<longleftrightarrow> mIosWork p" using p by (simp add: working_def)
  have c: "(if mIosWork p then works s - 1 else works s) = card (working s - {i})"
    using m fin w by (simp add: card_Diff_singleton_if)
  have pos: "0 < card (working s - {i}) \<longleftrightarrow> \<not> working s \<subseteq> {i}"
    using fin by (auto simp: card_gt_0_iff)
  have rep: "mThreads p = replicate (length (mThreads p)) (mIosWork p)"
    using t by (intro replicate_eqI) auto
  have j: "join_each (mThreads p) =
    (if \<not> mIosWork p \<and> mThreads p \<noteq> [] then Some (SystemError 22 ''join'') else None,
     replicate (length (mThreads p)) False)"
  proof (cases "mIosWork p")
    case True
    then show ?thesis using join_each_joinable [of "mThreads p"] t by auto
  next
    case False
    then show ?thesis using join_each_joined [of "mThreads p"] t rep by auto
  qed
  have tr: "True \<in> set (mThreads p) \<longleftrightarrow> mIosWork p \<and> mThreads p \<noteq> []"
    using t by (cases "mThreads p") auto
  show ?thesis
    unfolding joinAll_def p option.case Let_def c j tr pos using m by auto
qed

lemma working_fun:
  "working (s\<lparr>works := w, object := f\<rparr>) = {i. \<exists>p. f i = Some p \<and> mIosWork p}"
  "working (s\<lparr>works := w, stopped := b, object := f\<rparr>) = {i. \<exists>p. f i = Some p \<and> mIosWork p}"
  "working (s\<lparr>object := f\<rparr>) = {i. \<exists>p. f i = Some p \<and> mIosWork p}"
  by (simp_all add: working_def)

text \<open>An object is put into a place, with the number of works as it should be.\<close>

lemma pool_put:
  assumes I: "pool_inv s" and w: "w = card (if mIosWork p then insert i (working s) else working s - {i})"
    and t: "set (mThreads p) \<subseteq> {mIosWork p}"
  shows "pool_inv (s\<lparr>works := w, object := (object s)(i \<mapsto> p)\<rparr>)"
  using I w t by (auto simp: pool_inv_def working_upd)

lemma joinAll_inv:
  assumes I: "pool_inv s" and p: "object s i = Some p"
  shows "safely (\<lambda>(e, t). pool_inv t \<and> object t i = Some \<lparr>mIosWork = False, mThreads = replicate (length (mThreads p)) False\<rparr> \<and>
    (e = None \<longleftrightarrow> mIosWork p \<or> mThreads p = [])) (joinAll i s)"
proof -
  have "pool_inv (s\<lparr>works := card (working s - {i}),
    object := (object s)(i \<mapsto> \<lparr>mIosWork = False, mThreads = replicate (length (mThreads p)) False\<rparr>)\<rparr>)"
    by (rule pool_put [OF I]) auto
  then show ?thesis by (auto simp: joinAll_cases [OF I p])
qed

lemma pool_forget:
  assumes "pool_inv s" "object s i = Some p" "\<not> mIosWork p"
  shows "pool_inv (s\<lparr>object := (object s)(i := None)\<rparr>)"
proof -
  have "working (s\<lparr>object := (object s)(i := None)\<rparr>) = working s"
    using assms(2,3) by (auto simp: working_def)
  with assms(1) show ?thesis by (auto simp: pool_inv_def)
qed

lemma pool_create_inv:
  assumes I: "pool_inv s" and "object s i = None"
  shows "pool_inv (IoContextThreads i cnt s)"
proof -
  have "i \<notin> working s" "finite (working s)" "works s = card (working s)"
    using assms by (auto simp: working_def pool_inv_def)
  then have "pool_inv (s\<lparr>works := works s + 1,
      object := (object s)(i \<mapsto> \<lparr>mIosWork = True, mThreads = replicate cnt True\<rparr>)\<rparr>)"
    by (intro pool_put [OF I]) auto
  then show ?thesis by (auto simp: IoContextThreads_def pool_inv_def working_def)
qed

lemma pool_move_inv:
  assumes I: "pool_inv s" and p: "object s i = Some p" and j: "object s j = None"
  shows "ensures pool_inv (threads_move i j s)"
proof -
  let ?w = "if mIosWork p then works s + 1 else works s"
  have f: "finite (working s)" "works s = card (working s)" and t: "set (mThreads p) \<subseteq> {mIosWork p}"
    using I p by (auto simp: pool_inv_def)
  have m: "i \<in> working s \<longleftrightarrow> mIosWork p" "j \<notin> working s" "i \<noteq> j" using p j by (auto simp: working_def)
  have I1: "pool_inv (s\<lparr>works := ?w, object := (object s)(j \<mapsto> p)\<rparr>)"
    by (rule pool_put [OF I _ t]) (use f m in auto)
  have "pool_inv (s\<lparr>works := ?w, object := (object s)(j \<mapsto> p)\<rparr>\<lparr>works := ?w,
      object := (object (s\<lparr>works := ?w, object := (object s)(j \<mapsto> p)\<rparr>))(i \<mapsto> p\<lparr>mThreads := []\<rparr>)\<rparr>)"
  proof (rule pool_put [OF I1])
    show "?w = card (if mIosWork (p\<lparr>mThreads := []\<rparr>)
        then insert i (working (s\<lparr>works := ?w, object := (object s)(j \<mapsto> p)\<rparr>))
        else working (s\<lparr>works := ?w, object := (object s)(j \<mapsto> p)\<rparr>) - {i})"
      using f m by (auto simp: working_upd insert_absorb)
  qed simp
  then show ?thesis by (simp add: threads_move_def p)
qed

lemma pool_step_inv: "pool_inv s \<Longrightarrow> ensures pool_inv (pool_step e s)"
proof (cases e)
  case (JoinAll i)
  assume I: "pool_inv s"
  show ?thesis
  proof (cases "object s i")
    case (Some p)
    with joinAll_inv [OF I Some] JoinAll show ?thesis by (cases "joinAll i s") auto
  qed (simp add: JoinAll)
next
  case (MoveTo i j)
  assume "pool_inv s"
  then show ?thesis using MoveTo pool_move_inv by auto
next
  case (Destroy i)
  assume I: "pool_inv s"
  show ?thesis
  proof (cases "object s i")
    case (Some p)
    with joinAll_inv [OF I Some] Destroy show ?thesis
      by (cases "joinAll i s") (auto simp: threads_destroy_def pool_forget split: option.splits)
  qed (simp add: Destroy)
qed (simp add: pool_create_inv)

interpretation pool: invariant pool_step "pool_init b" pool_inv for b
  by unfold_locales
    (simp_all add: pool_step_inv del: pool_step.simps, simp add: pool_inv_def pool_init_def working_def)

section \<open>What it promises\<close>

lemma percentage_bounds:
  "1 \<le> usePercentageOfHardwareThreads hw percent"
  "percent \<le> 100 \<Longrightarrow> usePercentageOfHardwareThreads hw percent \<le> max 1 hw"
proof -
  show "1 \<le> usePercentageOfHardwareThreads hw percent"
    by (simp add: usePercentageOfHardwareThreads_def Let_def)
  assume "percent \<le> 100"
  then have "of_nat hw * percent \<le> of_nat hw * 100" by (intro mult_left_mono) auto
  then have x: "of_nat hw * percent / 100 \<le> of_nat hw" by simp
  let ?x = "of_nat hw * percent / 100"
  have "(if ?x < 0 then \<lceil>?x\<rceil> else \<lfloor>?x\<rfloor>) \<le> int hw"
    using x by (auto simp: ceiling_le_iff floor_le_iff)
  then show "usePercentageOfHardwareThreads hw percent \<le> max 1 hw"
    unfolding usePercentageOfHardwareThreads_def Let_def by linarith
qed

text \<open>
  C32. Life of the thread pools of one event loop, under every sequence of constructions,
  \<^verbatim>\<open>joinAll()\<close>, moves and destructions: the event loop is kept working by exactly the objects that
  have their work; destroying an object joins its threads, unless somebody else, for instance
  an object it was moved from, keeps the event loop working, for which it waits; but
  destroying one whose threads were joined by \<^verbatim>\<open>joinAll()\<close> before terminates the program. A
  percentage always gives at least one thread, and up to 100 no more than there are in hardware.
\<close>

theorem thread_pool_lifecycle:
  assumes "run pool_step es (pool_init b) = Next s" "object s i = Some p"
  shows "works s = card {j. \<exists>q. object s j = Some q \<and> mIosWork q} \<and>
    (pool_step (Destroy i) s = Fault Terminated \<longleftrightarrow> \<not> mIosWork p \<and> mThreads p \<noteq> []) \<and>
    (pool_step (Destroy i) s = Blocked \<longleftrightarrow>
       mThreads p \<noteq> [] \<and> mIosWork p \<and> (\<exists>j q. j \<noteq> i \<and> object s j = Some q \<and> mIosWork q)) \<and>
    (\<forall>t. pool_step (JoinAll i) s = Next t \<and> mThreads p \<noteq> [] \<longrightarrow> pool_step (Destroy i) t = Fault Terminated) \<and>
    1 \<le> usePercentageOfHardwareThreads hw percent \<and>
    (percent \<le> 100 \<longrightarrow> usePercentageOfHardwareThreads hw percent \<le> max 1 hw)"
proof -
  have I: "pool_inv s" by (rule pool.along_run [OF pool.init assms(1)])
  have w: "working s = {i} \<longleftrightarrow> \<not> (\<exists>j q. j \<noteq> i \<and> object s j = Some q \<and> mIosWork q)" if "mIosWork p"
    using that assms(2) by (auto simp: working_def)
  have gone: "threads_destroy i t = Fault Terminated"
    if "pool_inv t" "object t i = Some q" "\<not> mIosWork q" "mThreads q \<noteq> []" for t q
    using that by (simp add: threads_destroy_def joinAll_cases)
  have "pool_step (Destroy i) t = Fault Terminated" if "pool_step (JoinAll i) s = Next t" "mThreads p \<noteq> []" for t
  proof -
    from that(1) assms(2) obtain e where "joinAll i s = Next (e, t)" by auto
    with joinAll_inv [OF I assms(2)] have "pool_inv t"
      "object t i = Some \<lparr>mIosWork = False, mThreads = replicate (length (mThreads p)) False\<rparr>" by auto
    with gone [of t] that(2) show ?thesis by simp
  qed
  moreover have "works s = card {j. \<exists>q. object s j = Some q \<and> mIosWork q}"
    using I by (simp add: pool_inv_def working_def)
  ultimately show ?thesis using w assms(2) percentage_bounds(1) [of hw percent] percentage_bounds(2) [of percent hw]
    by (auto simp: threads_destroy_def joinAll_cases [OF I assms(2)])
qed

theorem thread_pool_lifecycle_witness:
  "\<exists>s p. run pool_step [Create 0 2, MoveTo 0 1, Destroy 0, JoinAll 1] (pool_init True) = Next s \<and>
     object s 1 = Some p \<and> works s = 0 \<and> pool_step (Destroy 1) s = Fault Terminated"
proof -
  obtain s p where s: "run pool_step [Create 0 2, MoveTo 0 1, Destroy 0, JoinAll 1] (pool_init True) = Next s"
    "object s 1 = Some p" "\<not> mIosWork p" "mThreads p \<noteq> []" "works s = 0"
    by (simp add: pool_init_def IoContextThreads_def threads_move_def threads_destroy_def joinAll_def numeral_2_eq_2)
  from thread_pool_lifecycle [OF s(1,2)] s show ?thesis by blast
qed

end
