(* ===== verification/StackMemory.thy ===== *)
theory StackMemory
  imports "HOL-Library.Word"
begin

text \<open>
  The memory block of a routine (\<^verbatim>\<open>Destructor::create\<close>, \<^verbatim>\<open>StackAllocator\<close> and the deleter of
  \<^verbatim>\<open>include/co/routine.hpp\<close>): the \<^verbatim>\<open>Data\<close> object and, behind it, the stack of the coroutine.
  Addresses and sizes are 64-bit words; the size of the object is a parameter.
\<close>

type_synonym addr = "64 word"

record stack_context =
  sp :: addr
  stack_size :: addr

text \<open>The size that is allocated, the stack handed to Boost.Context, and the size given back.\<close>

definition create_size :: "addr \<Rightarrow> addr \<Rightarrow> addr" where
  "create_size sizeof_Data stackSize = sizeof_Data + stackSize"

definition StackAllocator_allocate :: "addr \<Rightarrow> addr \<Rightarrow> addr \<Rightarrow> stack_context" where
  "StackAllocator_allocate sizeof_Data mStackSize data =
     (let pos = data;
          pos = pos + sizeof_Data;
          pos = pos + mStackSize;
          pos = pos - 1
      in \<lparr>sp = pos, stack_size = mStackSize\<rparr>)"

definition destroy_size :: "addr \<Rightarrow> addr \<Rightarrow> addr" where
  "destroy_size sizeof_Data mStackSize = sizeof_Data + mStackSize"

text \<open>
  The bytes of a block, and those of a stack: the stack grows down from \<open>sp\<close>, the end of an
  area of \<open>stack_size\<close> bytes.
\<close>

definition block_bytes :: "addr \<Rightarrow> addr \<Rightarrow> nat set" where
  "block_bytes start len = {unat start ..< unat start + unat len}"

definition stack_bytes :: "stack_context \<Rightarrow> nat set" where
  "stack_bytes c = {unat (sp c) - unat (stack_size c) ..< unat (sp c)}"

lemma unat_64: "unat (a :: 64 word) < 2 ^ 64"
proof -
  have "unat a < 2 ^ LENGTH(64)" by (rule unsigned_less)
  then show ?thesis by simp
qed

lemma unat_plus_exact: "unat a + unat b < 2 ^ 64 \<Longrightarrow> unat (a + b) = unat a + unat (b :: 64 word)"
  by (simp add: unat_word_ariths)

lemma unat_plus_wraps:
  "2 ^ 64 \<le> unat a + unat b \<Longrightarrow> unat (a + b) = unat a + unat (b :: 64 word) - 2 ^ 64"
proof -
  assume le: "2 ^ 64 \<le> unat a + unat b"
  have "unat a < 2 ^ 64" "unat b < 2 ^ 64"
    by (rule unat_64)+
  then have "unat a + unat b < 2 ^ 64 + 2 ^ 64" by linarith
  with le show ?thesis by (simp add: unat_word_ariths mod_if)
qed

lemma stack_pointer:
  assumes "unat data + unat sizeof_Data + unat stackSize < 2 ^ 64" "0 < unat stackSize"
  shows "unat (sp (StackAllocator_allocate sizeof_Data stackSize data)) =
    unat data + unat sizeof_Data + unat stackSize - 1"
proof -
  have "unat (data + sizeof_Data) = unat data + unat sizeof_Data"
    using assms by (intro unat_plus_exact) simp
  then have s: "unat (data + sizeof_Data + stackSize) = unat data + unat sizeof_Data + unat stackSize"
    using assms(1) unat_plus_exact [of "data + sizeof_Data" stackSize] by simp
  then have "data + sizeof_Data + stackSize \<noteq> 0" using assms(2) by (metis add_is_0 not_gr_zero unat_0)
  then show ?thesis using s by (simp add: StackAllocator_allocate_def Let_def unat_minus_one)
qed

text \<open>
  C33. The memory of a routine. As long as object and stack fit into the address space, the
  size given back is the size that was allocated, and the stack ends within the block and
  lies within it; but it ends one byte early and is as long as the room behind the object,
  so that its lowest byte is the last byte of the object. For a stack size that makes the sum of
  both sizes wrap around, the block is smaller than the object alone.
\<close>

theorem stack_overlaps_data:
  assumes "0 < unat sizeof_Data" "0 < unat stackSize"
  shows "destroy_size sizeof_Data stackSize = create_size sizeof_Data stackSize \<and>
    (unat data + unat sizeof_Data + unat stackSize < 2 ^ 64 \<longrightarrow>
       stack_bytes (StackAllocator_allocate sizeof_Data stackSize data)
         \<subseteq> block_bytes data (create_size sizeof_Data stackSize) \<and>
       stack_bytes (StackAllocator_allocate sizeof_Data stackSize data) \<inter> block_bytes data sizeof_Data
         = {unat data + unat sizeof_Data - 1}) \<and>
    (2 ^ 64 \<le> unat sizeof_Data + unat stackSize \<longrightarrow>
       unat (create_size sizeof_Data stackSize) < unat sizeof_Data)"
proof (intro conjI impI)
  show "destroy_size sizeof_Data stackSize = create_size sizeof_Data stackSize"
    by (simp add: destroy_size_def create_size_def)
next
  assume fits: "unat data + unat sizeof_Data + unat stackSize < 2 ^ 64"
  have c: "unat (create_size sizeof_Data stackSize) = unat sizeof_Data + unat stackSize"
    unfolding create_size_def using fits by (intro unat_plus_exact) simp
  have s: "stack_bytes (StackAllocator_allocate sizeof_Data stackSize data) =
      {unat data + unat sizeof_Data - 1 ..< unat data + unat sizeof_Data + unat stackSize - 1}"
    using assms stack_pointer [OF fits assms(2)]
    by (simp add: stack_bytes_def StackAllocator_allocate_def Let_def)
  show "stack_bytes (StackAllocator_allocate sizeof_Data stackSize data)
      \<subseteq> block_bytes data (create_size sizeof_Data stackSize)"
    unfolding s block_bytes_def c using assms by auto
  show "stack_bytes (StackAllocator_allocate sizeof_Data stackSize data) \<inter> block_bytes data sizeof_Data
      = {unat data + unat sizeof_Data - 1}"
    unfolding s block_bytes_def using assms by auto
next
  assume wraps: "2 ^ 64 \<le> unat sizeof_Data + unat stackSize"
  have "unat stackSize < 2 ^ 64" by (rule unat_64)
  then show "unat (create_size sizeof_Data stackSize) < unat sizeof_Data"
    using unat_plus_wraps [OF wraps] wraps by (simp add: create_size_def)
qed

text \<open>The default stack of 128 KiB behind an object of 400 bytes.\<close>

theorem stack_overlaps_data_witness:
  "destroy_size 400 131072 = create_size 400 131072 \<and>
   stack_bytes (StackAllocator_allocate 400 131072 4096) \<inter> block_bytes 4096 400 = {4495}"
  using stack_overlaps_data [of 400 131072 4096] by simp

end
