(* ===== verification/TaskAwait.thy ===== *)
theory TaskAwait
  imports Await
begin

text \<open>
  The awaiter of \<^verbatim>\<open>include/co/pplx_task_awaiter.hpp\<close>, by which a task of the Casablanca library
  is awaited inside and outside of coroutines, as one more instance of the contract of
  \<^verbatim>\<open>co::await\<close>. The task is a parameter.
\<close>

section \<open>The awaiter\<close>

text \<open>
  The members of \<^verbatim>\<open>pplx::task\<close> that are called: \<^verbatim>\<open>is_done()\<close>; what \<^verbatim>\<open>get()\<close> returns or throws
  once the task is done; \<^verbatim>\<open>then()\<close>, which registers a continuation; and the events of the
  rest of the world, which may run that continuation.
\<close>

record ('x, 'w, 'v) pplx_task =
  is_done :: "'x \<Rightarrow> bool"
  task_get :: "'x \<Rightarrow> exception + 'v"
  task_then :: "'x \<Rightarrow> 'x"
  task_event :: "'w \<Rightarrow> 'x \<Rightarrow> (bool \<times> 'x) outcome"

text \<open>
  \<^verbatim>\<open>get()\<close> of a task that is not done waits for it. \<^verbatim>\<open>await_resume\<close> is meant to be called when the
  task is done; that it would block the thread of a coroutine otherwise is a fault here.
\<close>

definition task_awaiter :: "('x, 'w, 'v) pplx_task \<Rightarrow> ('x, 'v) awaiter" where
  "task_awaiter T =
     \<lparr>ready_now = is_done T,
      suspend_with = (\<lambda>x. Inr (True, task_then T x)),
      resume_with = (\<lambda>x. if is_done T x then Inr (task_get T x) else Inl (AssertFailed ''await_resume'')),
      synchron = Some (\<lambda>x. if is_done T x then Next (task_get T x, x) else Blocked)\<rparr>"

lemma task_awaiter_simps [simp]:
  "ready_now (task_awaiter T) = is_done T"
  "suspend_with (task_awaiter T) x = Inr (True, task_then T x)"
  "resume_with (task_awaiter T) x =
     (if is_done T x then Inr (task_get T x) else Inl (AssertFailed ''await_resume''))"
  "synchron (task_awaiter T) = Some (\<lambda>x. if is_done T x then Next (task_get T x, x) else Blocked)"
  by (simp_all add: task_awaiter_def)

section \<open>What the code relies on\<close>

text \<open>
  By the documentation of \<^verbatim>\<open>pplx::task\<close>: a task that is done stays done with its result; a
  continuation runs once, after the task is done, also when it ended with an exception;
  \<^verbatim>\<open>then()\<close> changes nothing else. \<open>pending\<close> tells whether a continuation is still to be run.
\<close>

definition task_documented :: "('x, 'w, 'v) pplx_task \<Rightarrow> ('x \<Rightarrow> bool) \<Rightarrow> bool" where
  "task_documented T pending \<longleftrightarrow>
     (\<forall>w x f. task_event T w x \<noteq> Fault f) \<and>
     (\<forall>w x called y. task_event T w x = Next (called, y) \<longrightarrow>
        (called \<longrightarrow> pending x \<and> is_done T y) \<and> (pending y \<longleftrightarrow> pending x \<and> \<not> called) \<and>
        (is_done T x \<longrightarrow> is_done T y \<and> task_get T y = task_get T x)) \<and>
     (\<forall>x. \<not> pending x \<longrightarrow> pending (task_then T x))"

lemma task_contract:
  assumes "task_documented T pending"
  shows "awaitable_contract (task_awaiter T) (task_event T) (\<lambda>x. True) pending (\<lambda>x. True)
    (is_done T) (task_get T)"
  using assms by unfold_locales (auto simp: task_documented_def split: if_splits)

text \<open>
  A task that is awaited: no step is undefined, whether the task is done before, while or after
  the caller suspends itself; what the call returns or throws is the result of the task, which
  is then done; and a caller that is not suspended goes on by itself.
\<close>

lemma task_await_gives_the_result:
  assumes "task_documented T pending" "\<not> pending x"
    and "run (await_step asserts (task_awaiter T) (task_event T)) es (await_called i x) = Next t"
  shows "await_step asserts (task_awaiter T) (task_event T) e t \<noteq> Fault f"
    and "at t = AReturned r \<Longrightarrow> is_done T (target t) \<and> r = task_get T (target t)"
    and "i \<Longrightarrow> at t \<noteq> ASuspended \<Longrightarrow> (\<And>r. at t \<noteq> AReturned r) \<Longrightarrow>
      \<exists>u. await_step asserts (task_awaiter T) (task_event T) Proceed t = Next u"
proof -
  note L = task_contract [OF assms(1)]
  have s: "supportsSynchronAwait (task_awaiter T)" by (simp add: supportsSynchronAwait_def)
  have k: "awaitable_contract.call_ok (task_awaiter T) (\<lambda>x. True) pending (\<lambda>x. True)
      (is_done T) (task_get T) t \<and>
    inside t = i \<and> await_step asserts (task_awaiter T) (task_event T) e t \<noteq> Fault f" for e f
    by (rule awaitable_contract.await_result [OF L _ _ _ _ assms(3)]) (simp_all add: assms(2) s)
  then show "await_step asserts (task_awaiter T) (task_event T) e t \<noteq> Fault f" by blast
  show "at t = AReturned r \<Longrightarrow> is_done T (target t) \<and> r = task_get T (target t)"
    using k s by (simp add: awaitable_contract.call_ok_def [OF L] awaitable_contract.at_ok.simps [OF L])
  show "i \<Longrightarrow> at t \<noteq> ASuspended \<Longrightarrow> (\<And>r. at t \<noteq> AReturned r) \<Longrightarrow>
      \<exists>u. await_step asserts (task_awaiter T) (task_event T) Proceed t = Next u"
    using k by (intro awaitable_contract.await_moves [OF L]) auto
qed

section \<open>A task\<close>

text \<open>A task that does what is documented: its result, if it is done, and its continuation.\<close>

datatype 'v task_move = Completes "exception + 'v" | RunsContinuation

definition simple_task :: "((exception + 'v) option \<times> bool, 'v task_move, 'v) pplx_task" where
  "simple_task =
     \<lparr>is_done = (\<lambda>(r, c). r \<noteq> None),
      task_get = (\<lambda>(r, c). the r),
      task_then = (\<lambda>(r, c). (r, True)),
      task_event = (\<lambda>w (r, c).
        case w of
          Completes v \<Rightarrow> if r = None then Next (False, Some v, c) else Blocked
        | RunsContinuation \<Rightarrow> if c \<and> r \<noteq> None then Next (True, r, False) else Blocked)\<rparr>"

lemma simple_task_documented: "task_documented simple_task (\<lambda>(r, c). c)"
  by (auto simp: task_documented_def simple_task_def split: task_move.splits if_splits)

interpretation task_await: awaitable_contract "task_awaiter simple_task" "task_event simple_task"
    "\<lambda>x. True" "\<lambda>(r, c). c" "\<lambda>x. True" "is_done simple_task" "task_get simple_task"
  by (rule task_contract [OF simple_task_documented])

lemma simple_task_awaited:
  "\<exists>t. run (await_step True (task_awaiter simple_task) (task_event simple_task))
     [Proceed, World (Completes (Inl (UserException 3))), Proceed, World RunsContinuation, Proceed]
     (await_called True (None, False) :: ((exception + int) option \<times> bool, int) await_call) = Next t \<and>
   at t = AReturned (Inl (UserException 3))"
  by (simp add: co_await_def await_called_def supportsSynchronAwait_def simple_task_def)

end
