(* ===== verification/Echo.thy ===== *)
theory Echo
  imports Networking "HOL-Library.Sublist"
begin

text \<open>
  The example programs \<^verbatim>\<open>examples/asio_echo_server.cpp\<close> and \<^verbatim>\<open>examples/asio_echo_client.cpp\<close>: the
  coroutine that serves a connection and the one that uses it, composed over a connection
  that is a parameter, together with the parts of Boost.Asio that they call. What they call of
  the library, \<^verbatim>\<open>BasicSocket::read_some\<close>, is that of \<open>Networking\<close>.
\<close>

section \<open>The connection\<close>

text \<open>
  The two ends of a connection are \<open>True\<close>, the server's, and \<open>False\<close>, the client's. For a choice
  of the rest of the world: the results of the socket's operations of Boost.Asio, if
  they complete; the bytes that \<^verbatim>\<open>read_some\<close> has put into its buffer; the functions \<^verbatim>\<open>write\<close> and
  \<^verbatim>\<open>read\<close>, which transfer a whole buffer or fail; and the destruction of a socket.
\<close>

record ('n, 'w) connection =
  socket_ops :: "'w \<Rightarrow> bool \<Rightarrow> 'n \<Rightarrow> (nat, unit) asio_socket option"
  filled :: "bool \<Rightarrow> nat \<Rightarrow> 'n \<Rightarrow> char list \<times> 'n"
  asio_write :: "'w \<Rightarrow> bool \<Rightarrow> char list \<Rightarrow> 'n \<Rightarrow> (error_code \<times> 'n) outcome"
  asio_read :: "'w \<Rightarrow> bool \<Rightarrow> nat \<Rightarrow> 'n \<Rightarrow> (error_code \<times> char list \<times> 'n) outcome"
  close_socket :: "bool \<Rightarrow> 'n \<Rightarrow> 'n"

text \<open>\<^verbatim>\<open>boost::asio::error::eof\<close>, and the sizes of the buffers.\<close>

definition eof :: error_code where
  "eof = 2"

definition max_length :: nat where
  "max_length = 1024"

definition MaxPackageLength :: nat where
  "MaxPackageLength = 1024"

section \<open>The server's session and the client\<close>

text \<open>
  A session reads, writes what it has read, and has ended, after \<^verbatim>\<open>eof\<close> or with an exception that
  it has reported. The client is about to write its message for the \<open>i\<close>-th time, waits for the
  reply, is done, or has ended with an exception, which is the result of its routine.
\<close>

datatype session_pc = SReading | SWriting "char list" | SClosed | SReported exception

datatype client_pc = CWriting nat | CReading nat | CDone | CThrown exception

record 'n echo =
  net :: 'n
  session :: session_pc
  client :: client_pc
  complaints :: nat

definition session_end :: "('n, 'w) connection \<Rightarrow> session_pc \<Rightarrow> 'n \<Rightarrow> 'n echo \<Rightarrow> 'n echo" where
  "session_end T p n s = s\<lparr>net := close_socket T True n, session := p\<rparr>"

definition session_step :: "('n, 'w) connection \<Rightarrow> 'w \<Rightarrow> 'n echo \<Rightarrow> 'n echo outcome" where
  "session_step T w s =
     (case session s of
        SReading \<Rightarrow>
          (case socket_ops T w True (net s) of
             None \<Rightarrow> Blocked
           | Some P \<Rightarrow>
               (case socket_read_some_ec P max_length of
                  Inl x \<Rightarrow> Next (session_end T (SReported x) (net s) s)
                | Inr (error, len) \<Rightarrow>
                    if error = eof then Next (session_end T SClosed (net s) s)
                    else if error \<noteq> 0 then Next (session_end T (SReported (SystemError error '''')) (net s) s)
                    else (case filled T True len (net s) of
                            (data, n) \<Rightarrow> Next (s\<lparr>net := n, session := SWriting data\<rparr>))))
      | SWriting data \<Rightarrow>
          bind_outcome (asio_write T w True data (net s))
            (\<lambda>(error, n). Next (if error = 0 then s\<lparr>net := n, session := SReading\<rparr>
                                else session_end T (SReported (SystemError error ''write'')) n s))
      | _ \<Rightarrow> Blocked)"

definition client_end :: "('n, 'w) connection \<Rightarrow> client_pc \<Rightarrow> 'n \<Rightarrow> 'n echo \<Rightarrow> 'n echo" where
  "client_end T p n s = s\<lparr>net := close_socket T False n, client := p\<rparr>"

text \<open>The head of the client's loop.\<close>

definition client_loop :: "('n, 'w) connection \<Rightarrow> nat \<Rightarrow> nat \<Rightarrow> 'n \<Rightarrow> 'n echo \<Rightarrow> 'n echo" where
  "client_loop T messages i n s =
     (if i < messages then s\<lparr>net := n, client := CWriting i\<rparr> else client_end T CDone n s)"

definition client_step :: "('n, 'w) connection \<Rightarrow> nat \<Rightarrow> char list \<Rightarrow> 'w \<Rightarrow> 'n echo \<Rightarrow> 'n echo outcome" where
  "client_step T messages msg w s =
     (case client s of
        CWriting i \<Rightarrow>
          bind_outcome (asio_write T w False msg (net s))
            (\<lambda>(error, n). Next (if error = 0 then s\<lparr>net := n, client := CReading i\<rparr>
                                else client_end T (CThrown (SystemError error ''write'')) n s))
      | CReading i \<Rightarrow>
          bind_outcome (asio_read T w False (min MaxPackageLength (length msg)) (net s))
            (\<lambda>(error, reply, n). Next
               (if error \<noteq> 0 then client_end T (CThrown (SystemError error ''read'')) n s
                else client_loop T messages (i + 1) n
                       (if reply \<noteq> msg then s\<lparr>complaints := complaints s + 1\<rparr> else s)))
      | _ \<Rightarrow> Blocked)"

datatype 'w echo_event = SessionMoves 'w | ClientMoves 'w

fun echo_step :: "('n, 'w) connection \<Rightarrow> nat \<Rightarrow> char list \<Rightarrow> ('w echo_event, 'n echo) machine" where
  "echo_step T messages msg (SessionMoves w) s = session_step T w s"
| "echo_step T messages msg (ClientMoves w) s = client_step T messages msg w s"

definition echo_init :: "('n, 'w) connection \<Rightarrow> nat \<Rightarrow> 'n \<Rightarrow> 'n echo" where
  "echo_init T messages n =
     client_loop T messages 0 n \<lparr>net = n, session = SReading, client = CWriting 0, complaints = 0\<rparr>"

section \<open>What the code relies on\<close>

text \<open>
  By the documentation of Boost.Asio and of TCP, with \<open>sent b\<close> and \<open>got b\<close> the bytes that end \<open>b\<close>
  has written and read and \<open>shut b\<close> whether its socket has been destroyed: an end reads what the
  other has written, in order; \<^verbatim>\<open>read_some\<close> gives between one byte and as many as
  there is room for, and \<^verbatim>\<open>eof\<close> only when everything was read and the other end is closed.
\<close>

record 'n trace =
  sent :: "bool \<Rightarrow> 'n \<Rightarrow> char list"
  got :: "bool \<Rightarrow> 'n \<Rightarrow> char list"
  shut :: "bool \<Rightarrow> 'n \<Rightarrow> bool"

definition others_kept :: "'n trace \<Rightarrow> bool \<Rightarrow> 'n \<Rightarrow> 'n \<Rightarrow> bool" where
  "others_kept R b n n' \<longleftrightarrow>
     sent R (\<not> b) n' = sent R (\<not> b) n \<and> got R (\<not> b) n' = got R (\<not> b) n \<and> shut R (\<not> b) n' = shut R (\<not> b) n"

definition read_documented :: "('n, 'w) connection \<Rightarrow> 'n trace \<Rightarrow> bool" where
  "read_documented T R \<longleftrightarrow>
     (\<forall>w b n P room ec len. socket_ops T w b n = Some P \<longrightarrow> 0 < room \<longrightarrow>
        (ec, len) = read_some_now P room \<or> (ec, len) = async_read_some P room \<longrightarrow>
        (ec = eof \<longrightarrow> shut R (\<not> b) n \<and> got R b n = sent R (\<not> b) n) \<and>
        (ec = 0 \<longrightarrow> 0 < len \<and> len \<le> room \<and>
           (\<exists>data n'. filled T b len n = (data, n') \<and> length data = len \<and> others_kept R b n n' \<and>
              sent R b n' = sent R b n \<and> got R b n' = got R b n @ data \<and> shut R b n' = shut R b n)))"

definition write_documented :: "('n, 'w) connection \<Rightarrow> 'n trace \<Rightarrow> bool" where
  "write_documented T R \<longleftrightarrow>
     (\<forall>w b data n f. asio_write T w b data n \<noteq> Fault f) \<and>
     (\<forall>w b data n ec n'. asio_write T w b data n = Next (ec, n') \<longrightarrow>
        others_kept R b n n' \<and> got R b n' = got R b n \<and> shut R b n' = shut R b n \<and>
        (\<exists>k. sent R b n' = sent R b n @ take k data \<and> (ec = 0 \<longrightarrow> length data \<le> k)))"

definition readall_documented :: "('n, 'w) connection \<Rightarrow> 'n trace \<Rightarrow> bool" where
  "readall_documented T R \<longleftrightarrow>
     (\<forall>w b k n f. asio_read T w b k n \<noteq> Fault f) \<and>
     (\<forall>w b k n ec data n'. asio_read T w b k n = Next (ec, data, n') \<longrightarrow>
        others_kept R b n n' \<and> sent R b n' = sent R b n \<and> got R b n' = got R b n @ data \<and>
        shut R b n' = shut R b n \<and> (ec = 0 \<longrightarrow> length data = k))"

definition read_completes :: "(nat, unit) asio_socket \<Rightarrow> nat \<Rightarrow> error_code \<Rightarrow> nat \<Rightarrow> bool" where
  "read_completes P room ec len \<longleftrightarrow>
     (\<exists>k. io_control P = Inr k \<and> (if k \<noteq> 0 then read_some_now P room else async_read_some P room) = (ec, len))"

text \<open>An operation can succeed when there is something to read, or \<^verbatim>\<open>eof\<close> to be seen.\<close>

definition live_documented :: "('n, 'w) connection \<Rightarrow> 'n trace \<Rightarrow> bool" where
  "live_documented T R \<longleftrightarrow>
     (\<forall>b n room. 0 < room \<longrightarrow> got R b n \<noteq> sent R (\<not> b) n \<longrightarrow>
        (\<exists>w P len. socket_ops T w b n = Some P \<and> read_completes P room 0 len)) \<and>
     (\<forall>b n room. 0 < room \<longrightarrow> got R b n = sent R (\<not> b) n \<longrightarrow> shut R (\<not> b) n \<longrightarrow>
        (\<exists>w P len. socket_ops T w b n = Some P \<and> read_completes P room eof len)) \<and>
     (\<forall>b n data. \<not> shut R (\<not> b) n \<longrightarrow> (\<exists>w n'. asio_write T w b data n = Next (0, n'))) \<and>
     (\<forall>b n k. length (got R b n) + k \<le> length (sent R (\<not> b) n) \<longrightarrow>
        (\<exists>w data n'. asio_read T w b k n = Next (0, data, n')))"

definition connection_documented :: "('n, 'w) connection \<Rightarrow> 'n trace \<Rightarrow> bool" where
  "connection_documented T R \<longleftrightarrow>
     (\<forall>b n. prefix (got R b n) (sent R (\<not> b) n)) \<and>
     (\<forall>b n. others_kept R b n (close_socket T b n) \<and> sent R b (close_socket T b n) = sent R b n \<and>
        got R b (close_socket T b n) = got R b n \<and> shut R b (close_socket T b n)) \<and>
     read_documented T R \<and> write_documented T R \<and> readall_documented T R \<and> live_documented T R"

text \<open>The facts in the form in which the proofs use them.\<close>

lemma connectionD:
  assumes "connection_documented T R"
  shows "prefix (got R b n) (sent R (\<not> b) n)"
    and "others_kept R b n (close_socket T b n)" "sent R b (close_socket T b n) = sent R b n"
      "got R b (close_socket T b n) = got R b n" "shut R b (close_socket T b n)"
    and "read_documented T R" "write_documented T R" "readall_documented T R" "live_documented T R"
  using assms unfolding connection_documented_def by blast+

lemma read_cases:
  assumes "read_documented T R" "socket_ops T w b n = Some P" "0 < room"
    and "socket_read_some_ec P room = Inr (ec, len)"
  shows "ec = eof \<Longrightarrow> shut R (\<not> b) n \<and> got R b n = sent R (\<not> b) n"
    and "ec = 0 \<Longrightarrow> \<exists>data n'. filled T b len n = (data, n') \<and> data \<noteq> [] \<and> others_kept R b n n' \<and>
      sent R b n' = sent R b n \<and> got R b n' = got R b n @ data \<and> shut R b n' = shut R b n"
proof -
  from assms(4) have r: "(ec, len) = read_some_now P room \<or> (ec, len) = async_read_some P room"
    by (auto simp: socket_read_some_ec_def split: sum.splits if_splits)
  show "ec = eof \<Longrightarrow> shut R (\<not> b) n \<and> got R b n = sent R (\<not> b) n"
    using assms(1-3) r unfolding read_documented_def by blast
  assume "ec = 0"
  then obtain data n' where "0 < len" "filled T b len n = (data, n')" "length data = len"
    "others_kept R b n n'" "sent R b n' = sent R b n" "got R b n' = got R b n @ data" "shut R b n' = shut R b n"
    using assms(1-3) r unfolding read_documented_def by blast
  then show "\<exists>data n'. filled T b len n = (data, n') \<and> data \<noteq> [] \<and> others_kept R b n n' \<and>
      sent R b n' = sent R b n \<and> got R b n' = got R b n @ data \<and> shut R b n' = shut R b n"
    by (intro exI [of _ data] exI [of _ n']) auto
qed

lemma read_completes_ec: "read_completes P room ec len \<Longrightarrow> socket_read_some_ec P room = Inr (ec, len)"
  by (auto simp: read_completes_def socket_read_some_ec_def)

lemma write_cases:
  assumes "write_documented T R" "asio_write T w b data n = Next (ec, n')"
  shows "others_kept R b n n'" "got R b n' = got R b n" "shut R b n' = shut R b n"
    and "\<exists>k. sent R b n' = sent R b n @ take k data"
    and "ec = 0 \<Longrightarrow> sent R b n' = sent R b n @ data"
proof -
  from assms obtain k where k: "others_kept R b n n'" "got R b n' = got R b n" "shut R b n' = shut R b n"
    "sent R b n' = sent R b n @ take k data" "ec = 0 \<longrightarrow> length data \<le> k"
    unfolding write_documented_def by blast
  then show "others_kept R b n n'" "got R b n' = got R b n" "shut R b n' = shut R b n"
    "\<exists>k. sent R b n' = sent R b n @ take k data" by auto
  show "ec = 0 \<Longrightarrow> sent R b n' = sent R b n @ data" using k(4,5) by simp
qed

lemma readall_cases:
  assumes "readall_documented T R" "asio_read T w b k n = Next (ec, data, n')"
  shows "others_kept R b n n'" "sent R b n' = sent R b n" "got R b n' = got R b n @ data"
    "shut R b n' = shut R b n" "ec = 0 \<Longrightarrow> length data = k"
  using assms unfolding readall_documented_def by blast+

lemma others_keptD:
  assumes "others_kept R b n n'"
  shows "sent R (\<not> b) n' = sent R (\<not> b) n" "got R (\<not> b) n' = got R (\<not> b) n" "shut R (\<not> b) n' = shut R (\<not> b) n"
  using assms by (simp_all add: others_kept_def)

section \<open>The invariant\<close>

definition copies :: "nat \<Rightarrow> char list \<Rightarrow> char list" where
  "copies i msg = concat (replicate i msg)"

lemma copies_Suc: "copies (Suc i) msg = copies i msg @ msg"
  by (induction i) (simp_all add: copies_def)

lemma copies_0 [simp]: "copies 0 msg = []"
  by (simp add: copies_def)

lemma length_copies [simp]: "length (copies i msg) = i * length msg"
  by (induction i) (simp_all add: copies_Suc)

lemma copies_prefix: "i \<le> j \<Longrightarrow> prefix (copies i msg) (copies j msg)"
proof (induction rule: dec_induct)
  case (step j)
  then show ?case using prefix_order.trans by (fastforce simp: copies_Suc)
qed simp

text \<open>Where each end stands, by what it has read, \<open>g\<close>, what it has written, \<open>w\<close>, and the ends' closing.\<close>

fun session_ok :: "session_pc \<Rightarrow> char list \<Rightarrow> char list \<Rightarrow> char list \<Rightarrow> bool \<Rightarrow> bool \<Rightarrow> bool" where
  "session_ok SReading g w src here there \<longleftrightarrow> w = g \<and> \<not> here"
| "session_ok (SWriting data) g w src here there \<longleftrightarrow> g = w @ data \<and> data \<noteq> [] \<and> \<not> here"
| "session_ok SClosed g w src here there \<longleftrightarrow> w = g \<and> g = src \<and> there"
| "session_ok (SReported x) g w src here there \<longleftrightarrow> prefix w g"

fun client_ok :: "client_pc \<Rightarrow> nat \<Rightarrow> char list \<Rightarrow> char list \<Rightarrow> char list \<Rightarrow> bool \<Rightarrow> bool" where
  "client_ok (CWriting i) N msg g w here \<longleftrightarrow> i < N \<and> w = copies i msg \<and> g = copies i msg \<and> \<not> here"
| "client_ok (CReading i) N msg g w here \<longleftrightarrow> i < N \<and> w = copies (i + 1) msg \<and> g = copies i msg \<and> \<not> here"
| "client_ok CDone N msg g w here \<longleftrightarrow> w = copies N msg \<and> g = copies N msg \<and> here"
| "client_ok (CThrown x) N msg g w here \<longleftrightarrow> prefix w (copies N msg) \<and> here"

definition echo_inv :: "'n trace \<Rightarrow> nat \<Rightarrow> char list \<Rightarrow> 'n echo \<Rightarrow> bool" where
  "echo_inv R N msg s \<longleftrightarrow>
     session_ok (session s) (got R True (net s)) (sent R True (net s)) (sent R False (net s))
       (shut R True (net s)) (shut R False (net s)) \<and>
     client_ok (client s) N msg (got R False (net s)) (sent R False (net s)) (shut R False (net s)) \<and>
     complaints s = 0"

lemma session_ok_src:
  "session_ok p g w src here there \<Longrightarrow> p \<noteq> SClosed \<Longrightarrow> session_ok p g w src' here there'"
  by (cases p) simp_all

lemma session_echoes: "session_ok p g w src here there \<Longrightarrow> prefix w g"
  by (cases p) simp_all

lemma client_sends: "client_ok p N msg g w here \<Longrightarrow> prefix w (copies N msg)"
  by (cases p) (simp_all add: copies_prefix del: One_nat_def)

lemma nothing_foreign:
  assumes "connection_documented T R" "echo_inv R N msg s"
  shows "prefix (got R False (net s)) (sent R True (net s))" "prefix (sent R True (net s)) (got R True (net s))"
    "prefix (got R True (net s)) (sent R False (net s))" "prefix (sent R False (net s)) (copies N msg)"
  using connectionD(1) [OF assms(1), of False "net s"] connectionD(1) [OF assms(1), of True "net s"]
    assms(2) session_echoes client_sends
  unfolding echo_inv_def by auto

text \<open>The moves that are left, one for each read and write.\<close>

fun session_left :: "session_pc \<Rightarrow> nat \<Rightarrow> nat" where
  "session_left SReading k = 2 * k + 1"
| "session_left (SWriting data) k = 2 * k + 2"
| "session_left p k = 0"

fun client_left :: "client_pc \<Rightarrow> nat \<Rightarrow> nat" where
  "client_left (CWriting i) N = 2 * (N - i)"
| "client_left (CReading i) N = 2 * (N - i) - 1"
| "client_left p N = 0"

definition echo_left :: "'n trace \<Rightarrow> nat \<Rightarrow> char list \<Rightarrow> 'n echo \<Rightarrow> nat" where
  "echo_left R N msg s =
     session_left (session s) (N * length msg - length (got R True (net s))) + client_left (client s) N"

definition echo_goes :: "'n trace \<Rightarrow> nat \<Rightarrow> char list \<Rightarrow> 'n echo \<Rightarrow> 'n echo \<Rightarrow> bool" where
  "echo_goes R N msg s t \<longleftrightarrow> echo_inv R N msg t \<and> echo_left R N msg t < echo_left R N msg s"

lemma session_end_simps [simp]:
  "net (session_end T p n s) = close_socket T True n" "session (session_end T p n s) = p"
  "client (session_end T p n s) = client s" "complaints (session_end T p n s) = complaints s"
  by (simp_all add: session_end_def)

lemma client_end_simps [simp]:
  "net (client_end T p n s) = close_socket T False n" "client (client_end T p n s) = p"
  "session (client_end T p n s) = session s" "complaints (client_end T p n s) = complaints s"
  by (simp_all add: client_end_def)

text \<open>A session that ends, in a state in which its end of the connection has changed.\<close>

lemma session_ends:
  assumes C: "connection_documented T R" and inv: "echo_inv R N msg s"
    and o: "others_kept R True (net s) n" and l: "0 < session_left (session s) 0"
    and p: "session_ok p (got R True n) (sent R True n) (sent R False n) True (shut R False n)"
    and e: "session_left p 0 = 0"
  shows "echo_goes R N msg s (session_end T p n s)"
proof -
  note o = others_keptD [OF o, simplified]
    others_keptD [OF connectionD(2) [OF C, of True n], simplified]
  note c = connectionD(3-5) [OF C, of True n]
  have "session_left p k = 0" "0 < session_left (session s) k" for k
    using e l by (cases p; cases "session s"; simp)+
  with inv p show ?thesis unfolding echo_goes_def echo_inv_def echo_left_def by (simp add: o c)
qed

lemma session_reads:
  assumes C: "connection_documented T R" and inv: "echo_inv R N msg s" and pc: "session s = SReading"
    and d: "data \<noteq> []" "others_kept R True (net s) n" "sent R True n = sent R True (net s)"
      "got R True n = got R True (net s) @ data" "shut R True n = shut R True (net s)"
  shows "echo_goes R N msg s (s\<lparr>net := n, session := SWriting data\<rparr>)"
proof -
  let ?t = "s\<lparr>net := n, session := SWriting data\<rparr>"
  note o = others_keptD [OF d(2), simplified]
  have t: "echo_inv R N msg ?t" using inv d(1,3-5) pc by (simp add: echo_inv_def o)
  have "length (got R True n) \<le> N * length msg"
    using prefix_order.trans [OF nothing_foreign(3,4) [OF C t]] prefix_length_le by fastforce
  then have "echo_left R N msg ?t < echo_left R N msg s" using d(1,4) pc
    by (cases data) (simp_all add: echo_left_def)
  with t show ?thesis by (simp add: echo_goes_def)
qed

lemma session_reading:
  assumes C: "connection_documented T R" and inv: "echo_inv R N msg s" and pc: "session s = SReading"
  shows "safely (echo_goes R N msg s) (session_step T w s)"
proof (cases "socket_ops T w True (net s)")
  case (Some P)
  have sess: "sent R True (net s) = got R True (net s)" using inv pc by (simp add: echo_inv_def)
  have ends: "echo_goes R N msg s (session_end T p (net s) s)"
    if "session_ok p (got R True (net s)) (sent R True (net s)) (sent R False (net s)) True (shut R False (net s))"
      "session_left p 0 = 0" for p
    by (rule session_ends [OF C inv _ _ that]) (simp_all add: others_kept_def pc)
  show ?thesis
  proof (cases "socket_read_some_ec P max_length")
    case (Inl x)
    then show ?thesis using pc Some ends [of "SReported x"] sess by (simp add: session_step_def)
  next
    case (Inr r)
    obtain ec len where r: "r = (ec, len)" by (cases r)
    have pos: "0 < max_length" by (simp add: max_length_def)
    note rc = read_cases [OF connectionD(6) [OF C] Some pos Inr [unfolded r]]
    consider "ec = eof" | "ec \<noteq> eof" "ec \<noteq> 0" | "ec = 0" by blast
    then show ?thesis
    proof cases
      case 1
      then show ?thesis using pc Some Inr r ends [of SClosed] sess rc(1) by (simp add: session_step_def)
    next
      case 2
      then show ?thesis using pc Some Inr r ends [of "SReported (SystemError ec '''')"] sess
        by (simp add: session_step_def)
    next
      case 3
      from rc(2) [OF 3] obtain data n where d: "filled T True len (net s) = (data, n)"
        "echo_goes R N msg s (s\<lparr>net := n, session := SWriting data\<rparr>)"
        using session_reads [OF C inv pc] by blast
      with 3 pc Some Inr r show ?thesis by (simp add: session_step_def eof_def)
    qed
  qed
qed (simp add: session_step_def pc)

lemma session_writing:
  assumes C: "connection_documented T R" and inv: "echo_inv R N msg s" and pc: "session s = SWriting data"
  shows "safely (echo_goes R N msg s) (session_step T w s)"
proof (cases "asio_write T w True data (net s)")
  case (Next r)
  have sess: "got R True (net s) = sent R True (net s) @ data" "\<not> shut R True (net s)"
    using inv pc by (simp_all add: echo_inv_def)
  obtain ec n where r: "r = (ec, n)" by (cases r)
  note wc = write_cases [OF connectionD(7) [OF C] Next [unfolded r]]
  note o = others_keptD [OF wc(1), simplified]
  show ?thesis
  proof (cases "ec = 0")
    case True
    have "echo_goes R N msg s (s\<lparr>net := n, session := SReading\<rparr>)"
      using inv sess pc wc(2,3) wc(5) [OF True] by (simp add: echo_goes_def echo_inv_def echo_left_def o)
    with Next r True pc show ?thesis by (simp add: session_step_def)
  next
    case False
    obtain k where "sent R True n = sent R True (net s) @ take k data" using wc(4) by blast
    then have "prefix (sent R True n) (got R True n)" using sess wc(2) by (simp add: take_is_prefix)
    then have "echo_goes R N msg s (session_end T (SReported (SystemError ec ''write'')) n s)"
      by (intro session_ends [OF C inv wc(1)]) (simp_all add: pc)
    with Next r False pc show ?thesis by (simp add: session_step_def)
  qed
next
  case (Fault f)
  then show ?thesis using connectionD(7) [OF C] by (simp add: write_documented_def)
qed (simp add: session_step_def pc)

lemma session_goes:
  assumes "connection_documented T R" "echo_inv R N msg s"
  shows "safely (echo_goes R N msg s) (session_step T w s)"
proof (cases "session s")
  case SReading
  then show ?thesis by (rule session_reading [OF assms])
next
  case (SWriting data)
  then show ?thesis by (rule session_writing [OF assms])
qed (simp_all add: session_step_def)

text \<open>The client: what it reads in its \<open>i\<close>-th round is what it has written in that round.\<close>

lemma client_ends:
  assumes C: "connection_documented T R" and inv: "echo_inv R N msg s"
    and o: "others_kept R False (net s) n" and l: "0 < client_left (client s) N"
    and p: "client_ok p N msg (got R False n) (sent R False n) True" "client_left p N = 0"
    and live: "session s \<noteq> SClosed" and c: "complaints s' = 0" "session s' = session s"
  shows "echo_goes R N msg s (client_end T p n s')"
proof -
  note o = others_keptD [OF o, simplified]
    others_keptD [OF connectionD(2) [OF C, of False n], simplified]
  note d = connectionD(3-5) [OF C, of False n]
  have "session_ok (session s) (got R True (net s)) (sent R True (net s)) src (shut R True (net s)) b" for src b
    using inv session_ok_src [OF _ live] by (auto simp: echo_inv_def)
  with p l c show ?thesis unfolding echo_goes_def echo_inv_def echo_left_def by (simp add: o d)
qed

lemma client_moves:
  assumes inv: "echo_inv R N msg s" and o: "others_kept R False (net s) n"
    and p: "client_ok p N msg (got R False n) (sent R False n) (shut R False n)"
    and l: "client_left p N < client_left (client s) N"
    and live: "session s \<noteq> SClosed" and c: "complaints s' = 0" "session s' = session s"
  shows "echo_goes R N msg s (s'\<lparr>net := n, client := p\<rparr>)"
proof -
  note o = others_keptD [OF o, simplified]
  have "session_ok (session s) (got R True (net s)) (sent R True (net s)) src (shut R True (net s)) b" for src b
    using inv session_ok_src [OF _ live] by (auto simp: echo_inv_def)
  with p l c show ?thesis unfolding echo_goes_def echo_inv_def echo_left_def by (simp add: o)
qed

text \<open>A client at work: the session has not seen its end.\<close>

lemma client_working:
  assumes "echo_inv R N msg s" "client s = CWriting i \<or> client s = CReading i"
  shows "session s \<noteq> SClosed" "i < N" "\<not> shut R False (net s)" "complaints s = 0"
    "0 < client_left (client s) N"
  using assms by (auto simp: echo_inv_def)

lemma reply_is_msg:
  assumes C: "connection_documented T R" and inv: "echo_inv R N msg s" and pc: "client s = CReading i"
    and n: "others_kept R False (net s) n" "got R False n = got R False (net s) @ reply"
    and len: "length reply = length msg"
  shows "reply = msg"
proof -
  have k: "got R False (net s) = copies i msg" "sent R False (net s) = copies i msg @ msg"
    using inv pc by (simp_all add: echo_inv_def copies_Suc)
  have "prefix (got R False n) (sent R True n)" using connectionD(1) [OF C, of False n] by simp
  then have "prefix (copies i msg @ reply) (sent R True (net s))"
    using others_keptD(1) [OF n(1)] n(2) k(1) by simp
  then have "prefix (copies i msg @ reply) (copies i msg @ msg)"
    using nothing_foreign(2,3) [OF C inv] k(2) prefix_order.trans by metis
  then have "prefix reply msg" by simp
  with len show ?thesis by (auto simp: prefix_def)
qed

lemma client_writing:
  assumes C: "connection_documented T R" and inv: "echo_inv R N msg s" and pc: "client s = CWriting i"
  shows "safely (echo_goes R N msg s) (client_step T N msg w s)"
proof (cases "asio_write T w False msg (net s)")
  case (Next r)
  obtain ec n where r: "r = (ec, n)" by (cases r)
  note wk = client_working [OF inv disjI1 [OF pc]]
  have k: "sent R False (net s) = copies i msg" "got R False (net s) = copies i msg"
    using inv pc by (simp_all add: echo_inv_def)
  note wc = write_cases [OF connectionD(7) [OF C] Next [unfolded r]]
  show ?thesis
  proof (cases "ec = 0")
    case True
    have "echo_goes R N msg s (s\<lparr>net := n, client := CReading i\<rparr>)"
      by (rule client_moves [OF inv wc(1)]) (use k wc(2,3) wc(5) [OF True] wk pc in \<open>simp_all add: copies_Suc\<close>)
    with Next r True pc show ?thesis by (simp add: client_step_def)
  next
    case False
    obtain k' where "sent R False n = copies i msg @ take k' msg" using wc(4) k by auto
    then have "prefix (sent R False n) (copies (Suc i) msg)" by (simp add: copies_Suc take_is_prefix)
    then have "prefix (sent R False n) (copies N msg)"
      using copies_prefix [of "Suc i" N msg] wk(2) prefix_order.trans by (metis Suc_leI)
    then have "echo_goes R N msg s (client_end T (CThrown (SystemError ec ''write'')) n s)"
      by (intro client_ends [OF C inv wc(1) wk(5)]) (simp_all add: wk)
    with Next r False pc show ?thesis by (simp add: client_step_def)
  qed
next
  case (Fault f)
  then show ?thesis using connectionD(7) [OF C] by (simp add: write_documented_def)
qed (simp add: client_step_def pc)

lemma client_reads:
  assumes C: "connection_documented T R" and inv: "echo_inv R N msg s" and pc: "client s = CReading i"
    and n: "others_kept R False (net s) n" "got R False n = got R False (net s) @ msg"
      "sent R False n = sent R False (net s)" "shut R False n = shut R False (net s)"
  shows "echo_goes R N msg s (client_loop T N (i + 1) n s)"
proof -
  note wk = client_working [OF inv disjI2 [OF pc]]
  have k: "sent R False n = copies (i + 1) msg" "got R False n = copies (i + 1) msg"
    using inv pc n(2,3) by (simp_all add: echo_inv_def copies_Suc)
  show ?thesis
  proof (cases "i + 1 < N")
    case True
    have "echo_goes R N msg s (s\<lparr>net := n, client := CWriting (i + 1)\<rparr>)"
      by (rule client_moves [OF inv n(1)]) (use True k n(4) wk pc in simp_all)
    with True show ?thesis by (simp add: client_loop_def)
  next
    case False
    then have "N = i + 1" using wk(2) by simp
    then have "echo_goes R N msg s (client_end T CDone n s)"
      by (intro client_ends [OF C inv n(1) wk(5)]) (use k wk in simp_all)
    with False show ?thesis by (simp add: client_loop_def)
  qed
qed

lemma client_reading:
  assumes C: "connection_documented T R" and inv: "echo_inv R N msg s" and pc: "client s = CReading i"
    and m: "length msg \<le> MaxPackageLength"
  shows "safely (echo_goes R N msg s) (client_step T N msg w s)"
proof (cases "asio_read T w False (length msg) (net s)")
  case (Next r)
  obtain ec reply n where r: "r = (ec, reply, n)" by (cases r) auto
  note wk = client_working [OF inv disjI2 [OF pc]]
  note rc = readall_cases [OF connectionD(8) [OF C] Next [unfolded r]]
  show ?thesis
  proof (cases "ec = 0")
    case True
    from reply_is_msg [OF C inv pc rc(1,3) rc(5) [OF True]] have "reply = msg" .
    moreover from client_reads [OF C inv pc rc(1) _ rc(2,4)] rc(3) this
    have "echo_goes R N msg s (client_loop T N (i + 1) n s)" by simp
    ultimately show ?thesis using Next r True pc m by (simp add: client_step_def min_absorb2)
  next
    case False
    have "prefix (sent R False n) (copies N msg)" using nothing_foreign(4) [OF C inv] rc(2) by simp
    then have "echo_goes R N msg s (client_end T (CThrown (SystemError ec ''read'')) n s)"
      by (intro client_ends [OF C inv rc(1) wk(5)]) (simp_all add: wk)
    with Next r False pc m show ?thesis by (simp add: client_step_def min_absorb2)
  qed
next
  case (Fault f)
  then show ?thesis using connectionD(8) [OF C] by (simp add: readall_documented_def)
qed (simp add: client_step_def pc m min_absorb2)

lemma echo_step_goes:
  assumes "connection_documented T R" "length msg \<le> MaxPackageLength" "echo_inv R N msg s"
  shows "safely (echo_goes R N msg s) (echo_step T N msg e s)"
proof (cases e)
  case (SessionMoves w)
  with session_goes [OF assms(1,3)] show ?thesis by simp
next
  case (ClientMoves w)
  show ?thesis
  proof (cases "client s")
    case (CWriting i)
    with client_writing [OF assms(1,3)] ClientMoves show ?thesis by simp
  next
    case (CReading i)
    with client_reading [OF assms(1,3) _ assms(2)] ClientMoves show ?thesis by simp
  qed (simp_all add: ClientMoves client_step_def)
qed

definition fresh_connection :: "'n trace \<Rightarrow> 'n \<Rightarrow> bool" where
  "fresh_connection R n \<longleftrightarrow> (\<forall>b. sent R b n = [] \<and> got R b n = [] \<and> \<not> shut R b n)"

lemma echo_init_inv:
  assumes C: "connection_documented T R" and n: "fresh_connection R n"
  shows "echo_inv R N msg (echo_init T N n)"
    and "echo_left R N msg (echo_init T N n) \<le> 2 * N * length msg + 2 * N + 1"
proof -
  note d = connectionD(3-5) [OF C, of False n] others_keptD [OF connectionD(2) [OF C, of False n], simplified]
  have k: "sent R b n = []" "got R b n = []" "\<not> shut R b n" for b
    using n by (simp_all add: fresh_connection_def)
  show "echo_inv R N msg (echo_init T N n)"
    by (simp add: echo_init_def client_loop_def echo_inv_def d k)
  show "echo_left R N msg (echo_init T N n) \<le> 2 * N * length msg + 2 * N + 1"
    by (simp add: echo_init_def client_loop_def echo_left_def d k)
qed

section \<open>Without errors of the network\<close>

text \<open>
  The runs in which no operation fails: an event after which a side has ended with an
  exception is left out.
\<close>

fun session_fails :: "session_pc \<Rightarrow> bool" where
  "session_fails (SReported x) = True"
| "session_fails p = False"

fun client_fails :: "client_pc \<Rightarrow> bool" where
  "client_fails (CThrown x) = True"
| "client_fails p = False"

definition echo_failed :: "'n echo \<Rightarrow> bool" where
  "echo_failed s \<longleftrightarrow> session_fails (session s) \<or> client_fails (client s)"

definition unbroken_step :: "('n, 'w) connection \<Rightarrow> nat \<Rightarrow> char list \<Rightarrow> ('w echo_event, 'n echo) machine" where
  "unbroken_step T N msg e s =
     bind_outcome (echo_step T N msg e s) (\<lambda>t. if echo_failed t then Blocked else Next t)"

lemma unbroken_run: "run (unbroken_step T N msg) es s = Next t \<Longrightarrow> run (echo_step T N msg) es s = Next t"
  by (induction es arbitrary: s) (auto simp: unbroken_step_def split: if_splits)

lemma unbrokenI:
  "echo_step T N msg e s = Next t \<Longrightarrow> \<not> echo_failed t \<Longrightarrow> \<exists>e t. unbroken_step T N msg e s = Next t"
  unfolding unbroken_step_def by (intro exI [of _ e] exI [of _ t]) simp

definition echo_final :: "'n echo \<Rightarrow> bool" where
  "echo_final s \<longleftrightarrow> session s = SClosed \<and> client s = CDone"

lemma session_unbroken:
  assumes L: "live_documented T R" and nf: "\<not> echo_failed s"
    and w: "session s = SWriting data \<and> \<not> shut R False (net s) \<or>
      session s = SReading \<and> (got R True (net s) \<noteq> sent R False (net s) \<or> shut R False (net s))"
  shows "\<exists>e t. unbroken_step T N msg e s = Next t"
proof -
  have nc: "\<not> client_fails (client s)" using nf by (simp add: echo_failed_def)
  have pos: "0 < max_length" by (simp add: max_length_def)
  from w consider (writing) "session s = SWriting data" "\<not> shut R False (net s)"
    | (reading) "session s = SReading" "got R True (net s) \<noteq> sent R False (net s)"
    | (closing) "session s = SReading" "got R True (net s) = sent R False (net s)" "shut R False (net s)"
    by blast
  then show ?thesis
  proof cases
    case writing
    have "\<exists>w n'. asio_write T w True data (net s) = Next (0, n')"
      using L writing(2) unfolding live_documented_def by simp
    then obtain w n' where "asio_write T w True data (net s) = Next (0, n')" by blast
    then have "echo_step T N msg (SessionMoves w) s = Next (s\<lparr>net := n', session := SReading\<rparr>)"
      using writing(1) by (simp add: session_step_def)
    then show ?thesis by (rule unbrokenI) (simp add: echo_failed_def nc)
  next
    case reading
    have "\<exists>w P len. socket_ops T w True (net s) = Some P \<and> read_completes P max_length 0 len"
      using L reading(2) pos unfolding live_documented_def by simp
    then obtain w P len where P: "socket_ops T w True (net s) = Some P" "read_completes P max_length 0 len"
      by blast
    obtain data n where "filled T True len (net s) = (data, n)" by (cases "filled T True len (net s)")
    then have "echo_step T N msg (SessionMoves w) s = Next (s\<lparr>net := n, session := SWriting data\<rparr>)"
      using reading(1) P(1) read_completes_ec [OF P(2)] by (simp add: session_step_def eof_def)
    then show ?thesis by (rule unbrokenI) (simp add: echo_failed_def nc)
  next
    case closing
    have "\<exists>w P len. socket_ops T w True (net s) = Some P \<and> read_completes P max_length eof len"
      using L closing(2,3) pos unfolding live_documented_def by simp
    then obtain w P len where P: "socket_ops T w True (net s) = Some P" "read_completes P max_length eof len"
      by blast
    then have "echo_step T N msg (SessionMoves w) s = Next (session_end T SClosed (net s) s)"
      using closing(1) read_completes_ec [OF P(2)] by (simp add: session_step_def)
    then show ?thesis by (rule unbrokenI) (simp add: echo_failed_def nc)
  qed
qed

lemma client_unbroken:
  assumes L: "live_documented T R" and m: "length msg \<le> MaxPackageLength" and nf: "\<not> echo_failed s"
    and w: "client s = CWriting i \<and> \<not> shut R True (net s) \<or>
      client s = CReading i \<and> length (got R False (net s)) + length msg \<le> length (sent R True (net s))"
  shows "\<exists>e t. unbroken_step T N msg e s = Next t"
proof -
  have ns: "\<not> session_fails (session s)" using nf by (simp add: echo_failed_def)
  from w consider (writing) "client s = CWriting i" "\<not> shut R True (net s)"
    | (reading) "client s = CReading i" "length (got R False (net s)) + length msg \<le> length (sent R True (net s))"
    by blast
  then show ?thesis
  proof cases
    case writing
    have "\<exists>w n'. asio_write T w False msg (net s) = Next (0, n')"
      using L writing(2) unfolding live_documented_def by simp
    then obtain w n' where "asio_write T w False msg (net s) = Next (0, n')" by blast
    then have "echo_step T N msg (ClientMoves w) s = Next (s\<lparr>net := n', client := CReading i\<rparr>)"
      using writing(1) by (simp add: client_step_def)
    then show ?thesis by (rule unbrokenI) (simp add: echo_failed_def ns)
  next
    case reading
    have "\<exists>w data n'. asio_read T w False (length msg) (net s) = Next (0, data, n')"
      using L reading(2) unfolding live_documented_def by simp
    then obtain w data n' where "asio_read T w False (length msg) (net s) = Next (0, data, n')" by blast
    then have "echo_step T N msg (ClientMoves w) s = Next (client_loop T N (i + 1) n'
        (if data \<noteq> msg then s\<lparr>complaints := complaints s + 1\<rparr> else s))"
      using reading(1) m by (simp add: client_step_def min_absorb2)
    then show ?thesis by (rule unbrokenI) (simp add: echo_failed_def ns client_loop_def)
  qed
qed

lemma echo_progress:
  assumes C: "connection_documented T R" and m: "length msg \<le> MaxPackageLength"
    and inv: "echo_inv R N msg s" and nf: "\<not> echo_failed s" and go: "\<not> echo_final s"
  shows "\<exists>e t. unbroken_step T N msg e s = Next t"
proof -
  note L = connectionD(9) [OF C]
  note S = session_unbroken [OF L nf] and K = client_unbroken [OF L m nf]
  have so: "session_ok (session s) (got R True (net s)) (sent R True (net s)) (sent R False (net s))
      (shut R True (net s)) (shut R False (net s))"
    and co: "client_ok (client s) N msg (got R False (net s)) (sent R False (net s)) (shut R False (net s))"
    using inv by (simp_all add: echo_inv_def)
  note P = nothing_foreign [OF C inv]
  show ?thesis
  proof (cases "session s")
    case SClosed
    then show ?thesis using so co nf go by (cases "client s") (auto simp: echo_failed_def echo_final_def)
  next
    case (SReported x)
    then show ?thesis using nf by (simp add: echo_failed_def)
  next
    case (SWriting data)
    have "\<not> shut R False (net s)"
    proof
      assume "shut R False (net s)"
      with co nf have "got R False (net s) = sent R False (net s)"
        by (cases "client s") (auto simp: echo_failed_def)
      with P(1-3) have "prefix (got R True (net s)) (sent R True (net s))"
        using prefix_order.trans by metis
      with P(2) have "sent R True (net s) = got R True (net s)" by (rule prefix_order.antisym)
      with so SWriting show False by auto
    qed
    with SWriting show ?thesis by (intro S) simp
  next
    case SReading
    show ?thesis
    proof (cases "got R True (net s) = sent R False (net s) \<and> \<not> shut R False (net s)")
      case True
      have eq: "sent R True (net s) = sent R False (net s)" "\<not> shut R True (net s)" using so SReading True by simp_all
      from True co nf obtain i where "client s = CWriting i \<or> client s = CReading i"
        by (cases "client s") (auto simp: echo_failed_def)
      then show ?thesis using eq co by (intro K [of i]) auto
    next
      case False
      with SReading show ?thesis by (intro S) auto
    qed
  qed
qed

lemma unbroken_terminates:
  assumes C: "connection_documented T R" and m: "length msg \<le> MaxPackageLength"
    and inv: "echo_inv R N msg s" "\<not> echo_failed s"
  shows "terminating (unbroken_step T N msg) s (\<lambda>s. echo_inv R N msg s \<and> \<not> echo_failed s) echo_final (echo_left R N msg)"
proof unfold_locales
  have goes: "echo_goes R N msg u t \<and> \<not> echo_failed t" if "echo_inv R N msg u" "unbroken_step T N msg e u = Next t" for e u t
    using echo_step_goes [OF C m that(1), of e] that(2) by (auto simp: unbroken_step_def split: if_splits)
  fix u e assume I: "echo_inv R N msg u \<and> \<not> echo_failed u"
  show "ensures (\<lambda>s. echo_inv R N msg s \<and> \<not> echo_failed s) (unbroken_step T N msg e u)"
    using goes I by (cases "unbroken_step T N msg e u") (auto simp: echo_goes_def)
  show "unbroken_step T N msg e u = Next t \<Longrightarrow> echo_left R N msg t < echo_left R N msg u" for t
    using goes I by (auto simp: echo_goes_def)
next
  fix u assume "echo_inv R N msg u \<and> \<not> echo_failed u" "\<not> echo_final u"
  then show "\<exists>e t. unbroken_step T N msg e u = Next t" using echo_progress [OF C m] by blast
qed (use inv in simp)

lemma echo_run:
  assumes C: "connection_documented T R" and m: "length msg \<le> MaxPackageLength"
  shows "echo_inv R N msg s \<Longrightarrow> run (echo_step T N msg) es s = Next t \<Longrightarrow>
    echo_inv R N msg t \<and> length es + echo_left R N msg t \<le> echo_left R N msg s"
proof (induction es arbitrary: s)
  case (Cons e es)
  from Cons.prems(2) obtain u where u: "echo_step T N msg e s = Next u" "run (echo_step T N msg) es u = Next t"
    by auto
  with echo_step_goes [OF C m Cons.prems(1), of e] have "echo_goes R N msg s u" by simp
  with Cons.IH [OF _ u(2)] show ?case by (auto simp: echo_goes_def)
qed simp

section \<open>What the two programs achieve together\<close>

text \<open>
  C40. The echo server and a client, over any connection that does what is documented, in every
  interleaving and however the bytes are split on the way: the client, with messages that fit
  into its buffer, never complains about a reply, and when it is done it has read each
  message back; the server writes what it has read, in order, and a session that ends with
  \<^verbatim>\<open>eof\<close> has echoed everything. Every run is bounded, and as long as no operation has failed, it
  can be completed: the client is done and the session closed.
\<close>

theorem echo_returns_every_message:
  assumes "connection_documented T R" "fresh_connection R n" "length msg \<le> MaxPackageLength"
    and "run (echo_step T N msg) es (echo_init T N n) = Next t"
  shows "echo_step T N msg e t \<noteq> Fault f \<and> complaints t = 0 \<and>
    prefix (sent R True (net t)) (sent R False (net t)) \<and>
    (client t = CDone \<longrightarrow> got R False (net t) = concat (replicate N msg)) \<and>
    (session t = SClosed \<longrightarrow> sent R True (net t) = sent R False (net t)) \<and>
    length es \<le> 2 * N * length msg + 2 * N + 1 \<and>
    (\<not> echo_failed t \<longrightarrow> (\<exists>fs u. run (echo_step T N msg) fs t = Next u \<and> session u = SClosed \<and> client u = CDone))"
proof -
  note start = echo_init_inv [OF assms(1,2), of N msg]
  from echo_run [OF assms(1,3) start(1) assms(4)]
  have inv: "echo_inv R N msg t" and len: "length es \<le> 2 * N * length msg + 2 * N + 1"
    using start(2) by auto
  have "\<exists>fs u. run (echo_step T N msg) fs t = Next u \<and> session u = SClosed \<and> client u = CDone"
    if "\<not> echo_failed t"
    using terminating.completes [OF unbroken_terminates [OF assms(1,3) inv that]] inv that unbroken_run
    by (fastforce simp: echo_final_def)
  moreover have "echo_step T N msg e t \<noteq> Fault f"
    by (rule safelyD(2) [OF echo_step_goes [OF assms(1,3) inv]])
  moreover have "prefix (sent R True (net t)) (sent R False (net t))"
    using nothing_foreign(2,3) [OF assms(1) inv] prefix_order.trans by blast
  moreover have "client t = CDone \<longrightarrow> got R False (net t) = concat (replicate N msg)"
    "session t = SClosed \<longrightarrow> sent R True (net t) = sent R False (net t)" "complaints t = 0"
    using inv by (auto simp: echo_inv_def copies_def)
  ultimately show ?thesis using len by blast
qed

text \<open>
  A connection that does what is documented: what each end has read, what is on its way from
  each end, and whether the end is closed. The choice is how many bytes arrive together.
\<close>

type_synonym wire = "(bool \<Rightarrow> char list) \<times> (bool \<Rightarrow> char list) \<times> (bool \<Rightarrow> bool)"

definition arriving :: "nat \<Rightarrow> error_code \<Rightarrow> (nat, unit) asio_socket" where
  "arriving k ec = \<lparr>async_connect = (\<lambda>u. 0), io_control = Inr k, read_some_now = (\<lambda>room. (ec, min room k)),
     async_read_some = (\<lambda>room. (ec, min room k)), async_write_some = (\<lambda>room. (0, room)),
     async_send = (\<lambda>room flags. (0, room)), async_receive = (\<lambda>room. (ec, min room k)),
     async_receive_flags = (\<lambda>room flags. (ec, min room k)), async_wait = (\<lambda>w. 0)\<rparr>"

definition wire_connection :: "(wire, nat) connection" where
  "wire_connection =
     \<lparr>socket_ops = (\<lambda>w b (G, Q, C).
        if Q (\<not> b) \<noteq> [] then Some (arriving (min (Suc w) (length (Q (\<not> b)))) 0)
        else if C (\<not> b) then Some (arriving 0 eof) else None),
      filled = (\<lambda>b len (G, Q, C). (take len (Q (\<not> b)),
        (G(b := G b @ take len (Q (\<not> b))), Q(\<not> b := drop len (Q (\<not> b))), C))),
      asio_write = (\<lambda>w b data (G, Q, C).
        if C (\<not> b) then Next (32, (G, Q, C)) else Next (0, (G, Q(b := Q b @ data), C))),
      asio_read = (\<lambda>w b k (G, Q, C).
        if k \<le> length (Q (\<not> b))
        then Next (0, take k (Q (\<not> b)), (G(b := G b @ take k (Q (\<not> b))), Q(\<not> b := drop k (Q (\<not> b))), C))
        else if C (\<not> b) then Next (eof, Q (\<not> b), (G(b := G b @ Q (\<not> b)), Q(\<not> b := []), C)) else Blocked),
      close_socket = (\<lambda>b (G, Q, C). (G, Q, C(b := True)))\<rparr>"

definition wire_trace :: "wire trace" where
  "wire_trace = \<lparr>sent = (\<lambda>b (G, Q, C). G (\<not> b) @ Q b), got = (\<lambda>b (G, Q, C). G b), shut = (\<lambda>b (G, Q, C). C b)\<rparr>"

definition new_wire :: wire where
  "new_wire = (\<lambda>b. [], \<lambda>b. [], \<lambda>b. False)"

lemmas wire_defs = wire_connection_def wire_trace_def others_kept_def arriving_def

lemma bool_neq_Not [simp]: "(b \<noteq> (\<not> b)) = True" "((\<not> b) = b) = False"
  by (cases b; simp)+

lemma wire_read_documented: "read_documented wire_connection wire_trace"
  by (auto simp: read_documented_def wire_defs eof_def split: if_splits)

lemma wire_write_documented: "write_documented wire_connection wire_trace"
proof -
  have "\<exists>k. data = take k data \<and> length data \<le> k" for data :: "char list"
    by (intro exI [of _ "length data"]) simp
  then show ?thesis
    by (auto simp: write_documented_def wire_defs intro: exI [of _ 0] split: if_splits)
qed

lemma wire_readall_documented: "readall_documented wire_connection wire_trace"
  by (auto simp: readall_documented_def wire_defs eof_def split: if_splits)

lemma wire_live_documented: "live_documented wire_connection wire_trace"
  by (auto simp: live_documented_def wire_defs read_completes_def eof_def split: if_splits)

lemma wire_documented: "connection_documented wire_connection wire_trace"
  using wire_read_documented wire_write_documented wire_readall_documented wire_live_documented
  by (auto simp: connection_documented_def) (auto simp: wire_defs)

theorem echo_returns_every_message_witness:
  "\<exists>t. run (echo_step wire_connection 1 ''My'')
       [ClientMoves 0, SessionMoves 0, SessionMoves 0, SessionMoves 0, SessionMoves 0, ClientMoves 0]
       (echo_init wire_connection 1 new_wire) = Next t \<and>
     client t = CDone \<and> got wire_trace False (net t) = ''My'' \<and> complaints t = 0"
proof -
  obtain t where t: "run (echo_step wire_connection 1 ''My'')
       [ClientMoves 0, SessionMoves 0, SessionMoves 0, SessionMoves 0, SessionMoves 0, ClientMoves 0]
       (echo_init wire_connection 1 new_wire) = Next t" "client t = CDone"
    by (simp add: echo_init_def client_loop_def client_step_def session_step_def wire_connection_def
        arriving_def new_wire_def socket_read_some_ec_def eof_def max_length_def MaxPackageLength_def
        client_end_def)
  have "fresh_connection wire_trace new_wire"
    by (simp add: fresh_connection_def wire_trace_def new_wire_def)
  moreover have "length ''My'' \<le> MaxPackageLength" by (simp add: MaxPackageLength_def)
  ultimately show ?thesis
    using echo_returns_every_message [OF wire_documented _ _ t(1)] t by fastforce
qed

section \<open>Accepting connections\<close>

text \<open>
  The server's coroutine accepts one connection after the other and detaches a routine for
  each. An exception of \<^verbatim>\<open>accept\<close> ends it; it becomes the result of a detached routine.
\<close>

datatype server_pc = Accepting | AcceptThrown exception

record server_state =
  sessions_started :: nat
  server_at :: server_pc

definition server_step :: "error_code \<Rightarrow> server_state \<Rightarrow> server_state outcome" where
  "server_step accepted s =
     (case server_at s of
        Accepting \<Rightarrow>
          (case acceptor_accept (\<lambda>peer. accepted) () of
             Inl x \<Rightarrow> Next (s\<lparr>server_at := AcceptThrown x\<rparr>)
           | Inr u \<Rightarrow> Next (s\<lparr>sessions_started := sessions_started s + 1\<rparr>))
      | AcceptThrown x \<Rightarrow> Blocked)"

lemma server_step_simps [simp]:
  "server_step e \<lparr>sessions_started = k, server_at = Accepting\<rparr> = Next
     (if e = 0 then \<lparr>sessions_started = k + 1, server_at = Accepting\<rparr>
      else \<lparr>sessions_started = k, server_at = AcceptThrown (SystemError e ''accept'')\<rparr>)"
  "server_step e \<lparr>sessions_started = k, server_at = AcceptThrown x\<rparr> = Blocked"
  by (simp_all add: server_step_def acceptor_accept_def acceptor_accept_ec_def throwError_def)

lemma server_stops_at_an_error:
  assumes "run server_step es \<lparr>sessions_started = k, server_at = Accepting\<rparr> = Next s"
  shows "server_at s = Accepting \<and> sessions_started s = k + length es \<and> set es \<subseteq> {0} \<or>
    (\<exists>ec. ec \<noteq> 0 \<and> es = replicate (length es - 1) 0 @ [ec] \<and> sessions_started s = k + (length es - 1) \<and>
       server_at s = AcceptThrown (SystemError ec ''accept''))"
  using assms
proof (induction es arbitrary: k)
  case (Cons e es)
  show ?case
  proof (cases "e = 0")
    case True
    with Cons.prems have "run server_step es \<lparr>sessions_started = k + 1, server_at = Accepting\<rparr> = Next s" by simp
    from Cons.IH [OF this] True show ?thesis by (cases es) auto
  next
    case False
    with Cons.prems show ?thesis by (cases es) auto
  qed
qed auto

end
