(* ===== verification/Spec2Isabelle.thy ===== *)
theory Spec2Isabelle
  imports Prelude Future FutureWait Policy Mutex Unbuffered Waiting Buffered Handles
    RoutineJoin RoutineDetach RoutineHandles Routine ForEach ChannelThreads ForEachChannel
    TimedMutex SpecificPtr Generate GenerateMulti Await Async Networking Executor
    StackMemory TaskAwait Echo
begin

text \<open>
  A verification library for CoAwaitLib, a header-only C++ library of stackful coroutines on
  Boost.Coroutine2 and Boost.Asio (\<^verbatim>\<open>include/co/\<close>).

  \<^bold>\<open>The program.\<close> A \<^verbatim>\<open>Routine\<close> runs a function on a stack of its own; \<^verbatim>\<open>co::await(x)\<close> leaves
  it and registers a callback with \<^verbatim>\<open>x\<close> that resumes it. What can be awaited is another
  routine, a future, the event loop, a timer. Everything else is built from
  \<^verbatim>\<open>LightFutureData\<close>, a cell whose one atomic pointer is empty, names the one waiter, or says
  that the value is there: the mutexes and channels queue such cells, \<^verbatim>\<open>YieldTo\<close> and
  \<^verbatim>\<open>async\<close> complete one from a handler, \<^verbatim>\<open>get()\<close> puts a condition variable into one.

  \<^bold>\<open>How it is modelled.\<close> A component is a record of its state and a step function: one step
  is one atomic access or one critical section, of the thread that the event names, and its
  outcome is the next state, \<open>Blocked\<close> (the thread waits) or a \<open>Fault\<close> (a failed assertion or
  undefined behaviour). Exceptions are values. Theorems quantify over all runs, that is, over
  all interleavings. \<open>Prelude\<close> has outcomes, runs, observations of a run, and the locales
  \<open>invariant\<close>, \<open>safe_invariant\<close> and \<open>terminating\<close> that every machine interprets.

  \<^bold>\<open>The theories\<close>, with what they model and show:

  \<^item> \<open>Future\<close> (\<^verbatim>\<open>future.hpp\<close>): \<^verbatim>\<open>ValueHandling\<close>, \<^verbatim>\<open>LightFutureData\<close>, \<^verbatim>\<open>future\<close>, \<^verbatim>\<open>promise\<close> on a heap of
    shared data. A future refines the one-shot cell (locale \<open>one_shot\<close>); promise and future
    are inverse to each other; every sequence of calls keeps the heap well-formed.
  \<^item> \<open>FutureWait\<close> (\<^verbatim>\<open>future.hpp\<close>): \<^verbatim>\<open>get_blocking\<close>, \<^verbatim>\<open>wait\<close>, \<^verbatim>\<open>wait_for\<close> against the setter, with
    spurious wake-ups and timeouts. Blocking returns the result and ends; \<^verbatim>\<open>wait_for\<close> can lose
    the result in a race with its deadline (lemma \<open>wait_for_loses_the_result\<close>).
  \<^item> \<open>Policy\<close>, \<open>Mutex\<close> (\<^verbatim>\<open>mutex.hpp\<close>): any number of threads in \<^verbatim>\<open>lock\<close>, \<^verbatim>\<open>try_lock\<close>, \<^verbatim>\<open>unlock\<close>
    under a policy (locales \<open>waiter_policy\<close>, \<open>fifo_policy\<close>): mutual exclusion, no lost
    waiter, order under the fair policy, the counter.
  \<^item> \<open>TimedMutex\<close> (\<^verbatim>\<open>timed_mutex.hpp\<close>): without timeouts it is simulated by the mutex up to a
    null dereference; with them mutual exclusion is lost.
  \<^item> \<open>Unbuffered\<close>, \<open>Waiting\<close>, \<open>Buffered\<close>, \<open>ChannelThreads\<close>, \<open>Handles\<close> (\<^verbatim>\<open>channel.hpp\<close>): the two
    channels as streams, without lost wake-ups and faults, and the handles that close each
    side once. \<open>Waiting\<close> is one side's set of waiting calls, \<open>ChannelThreads\<close> what a client
    needs to know of the buffered channel.
  \<^item> \<open>Routine\<close> (\<^verbatim>\<open>routine.hpp\<close>, \<^verbatim>\<open>await.hpp\<close>): entering, leaving and resuming coroutines on one
    thread with an event loop; no assertion fails, no coroutine is forgotten, awaiting gives
    the routine's result. \<open>RoutineJoin\<close>: awaiting a routine that finishes on another thread.
    \<open>RoutineDetach\<close>: the lifetime of its data. \<open>RoutineHandles\<close>: the \<^verbatim>\<open>Routine\<close> objects that
    own it. \<open>SpecificPtr\<close> (\<^verbatim>\<open>routine_specific_ptr.hpp\<close>): the objects in a coroutine's local
    storage. \<open>StackMemory\<close>: the block of memory of a routine.
  \<^item> \<open>Await\<close> (\<^verbatim>\<open>await.hpp\<close>): \<^verbatim>\<open>co::await\<close> for any awaiter (locale \<open>awaitable_contract\<close>), futures, the
    event loop, timers and durations, inside of coroutines and outside. \<open>TaskAwait\<close>
    (\<^verbatim>\<open>pplx_task_awaiter.hpp\<close>): the tasks of Casablanca as one more instance.
  \<^item> \<open>Async\<close> (\<^verbatim>\<open>async.hpp\<close>): \<^verbatim>\<open>async\<close> and \<^verbatim>\<open>runOutsideOfCoroutine\<close> on top of \<open>Await\<close> (locale
    \<open>awaited_job\<close>). \<open>Networking\<close> (\<^verbatim>\<open>yieldto.hpp\<close>, \<^verbatim>\<open>networking.hpp\<close>): handlers as awaitables, and
    the overloads of the socket operations and their errors. \<open>Echo\<close> (\<^verbatim>\<open>examples/asio_echo_*\<close>):
    the session of the echo server and the client, composed over any connection: each message
    comes back.
  \<^item> \<open>ForEach\<close> (\<^verbatim>\<open>foreach.hpp\<close>): the branch for random access ranges, equal to the sequential
    loop up to order; \<open>ForEachChannel\<close>: the branch for other ranges, composed with the machine
    of \<open>Buffered\<close>. \<open>Generate\<close> (\<^verbatim>\<open>generate.hpp\<close>): a generator and a loop over it, composed with the
    machine of \<open>Unbuffered\<close>; equal to the loop over the function's values. \<open>GenerateMulti\<close>:
    a generator with any number of consumers, composed with \<open>Buffered\<close>, with the shared copies
    of both handles.
  \<^item> \<open>Executor\<close> (\<^verbatim>\<open>executor.hpp\<close>): the default event loop and its provider, the
    threads of an event loop and their joining.

  \<^bold>\<open>Bounds.\<close> Machines have no fuel; that calls end is proved by a measure, with a bound on the
  number of steps of all threads together: 11 for the calls under way in the unbuffered
  channel and 6 for each thread in the buffered one, 13 for the join of a routine, 8 for
  \<^verbatim>\<open>YieldTo\<close> and for \<^verbatim>\<open>async\<close>, \<open>3 n + 3 c + 3\<close> for \<^verbatim>\<open>forEach\<close> over \<open>n\<close> elements with \<open>c\<close>
  coroutines, \<open>(6 n + 7 c + 25) (6 c + 7)\<close> for the branch with a channel, \<open>16 k + 18\<close> for a loop
  over \<open>k\<close> values of a generator, \<open>(4 l + 5 c + 17) (6 c + 13)\<close> for \<open>c\<close> consumers that take at
  most \<open>l\<close> values of a shared one, \<open>2 n m + 2 n + 1\<close> for \<open>n\<close> echoed messages of \<open>m\<close> bytes. Only \<open>range_for\<close> in \<open>Handles\<close> takes fuel, one unit for each
  round of the loop; its theorem is about any fuel that the run needs.

  \<^bold>\<open>Not modelled.\<close> Memory orders weaker than sequential consistency, and the overflow of the
  counter of a mutex by \<open>2^31\<close> threads; the switch of stacks itself and the destruction of the
  function object (Boost.Coroutine2), Boost.Asio's event loop beyond its queue and its
  count of work, its timers and sockets, and the tasks of Casablanca (parameters with their
  documented behaviour as hypotheses); reference counts, apart from those of the shared handles in \<^verbatim>\<open>forEach\<close> and
  \<^verbatim>\<open>generateForMultiConsumer\<close>; allocators. Not modelled as components are
  the move assignment of \<^verbatim>\<open>IoContextThreads\<close>, which cannot be instantiated, a timed mutex with
  \<^verbatim>\<open>TimedHighThroughputPolicy\<close>, whose container does not hold its waiters, of the examples
  the main functions and the set-up of connections, and tests and benchmarks.
\<close>

end
